(* ===== verification/Prelude.thy ===== *)
theory Prelude
  imports Main "HOL-Library.Word" "HOL-Library.Monad_Syntax"
begin

text \<open>
  Shared vocabulary of the development: the C integer types of the LP64 target the proxy is
  built for, the convention for undefined behaviour, the collections of simplification rules
  the component theories extend, and generic facts on lists, association lists and words.

  Conventions used by every theory:
  \<^item> a C function whose execution can be undefined (an out of range access, a null pointer
    dereference, a signed overflow) returns an \<open>option\<close>, and \<open>None\<close> is the undefined
    execution; a null pointer result inside a defined execution is an inner \<open>None\<close>;
  \<^item> memory allocation and the pseudo random generator are arguments, so that each theorem
    speaks about every outcome;
  \<^item> writes to the log have no effect on the state and are left out.
\<close>

section \<open>C integer types\<close>

type_synonym uchar = "8 word"
type_synonym uint = "32 word"
type_synonym ulong = "64 word"

abbreviation INT_MAX :: int where "INT_MAX \<equiv> 2147483647"
abbreviation INT_MIN :: int where "INT_MIN \<equiv> - 2147483648"
abbreviation LONG_MAX :: int where "LONG_MAX \<equiv> 9223372036854775807"
abbreviation LONG_MIN :: int where "LONG_MIN \<equiv> - 9223372036854775808"

text \<open>Left shift of a signed int: undefined when the result is not representable.\<close>

definition shl_int :: "int \<Rightarrow> nat \<Rightarrow> int option" where
  "shl_int x n = (if 0 \<le> x \<and> n < 32 \<and> x * 2 ^ n \<le> INT_MAX then Some (x * 2 ^ n) else None)"

text \<open>Conversion of a long to int, as the target does it: the low 32 bits, signed.\<close>

definition int_of_long :: "int \<Rightarrow> int" where
  "int_of_long x = (x + 2147483648) mod 4294967296 - 2147483648"

lemma int_of_long_id [simp]: "INT_MIN \<le> x \<Longrightarrow> x \<le> INT_MAX \<Longrightarrow> int_of_long x = x"
  by (simp add: int_of_long_def)

lemma int_of_long_range: "INT_MIN \<le> int_of_long x \<and> int_of_long x \<le> INT_MAX"
proof -
  have "0 \<le> (x + 2147483648) mod 4294967296" and "(x + 2147483648) mod 4294967296 < 4294967296"
    by simp_all
  then show ?thesis by (simp add: int_of_long_def)
qed

section \<open>Collections of rules\<close>

named_theorems ht_simps \<open>unfolding of the hash table operations\<close>
named_theorems pool_simps \<open>unfolding of the pool operations\<close>
named_theorems cstr_simps \<open>unfolding of the C string functions\<close>

section \<open>Lists\<close>

lemma in_set_concat_nth: "x \<in> set (concat xss) \<longleftrightarrow> (\<exists>i<length xss. x \<in> set (xss ! i))"
  by (metis UN_iff in_set_conv_nth set_concat)

lemma concat_update_split:
  "i < length xss \<Longrightarrow> concat (xss[i := ys]) = concat (take i xss) @ ys @ concat (drop (Suc i) xss)"
  by (simp add: upd_conv_take_nth_drop)

lemma concat_split_nth:
  "i < length xss \<Longrightarrow> concat xss = concat (take i xss) @ xss ! i @ concat (drop (Suc i) xss)"
  by (metis concat.simps(2) concat_append id_take_nth_drop)

lemma concat_replicate_Nil [simp]: "concat (replicate n []) = []"
  by (induction n) auto

lemma length_filter_update:
  assumes "i < length xs"
  shows "int (length (filter P (xs[i := x]))) =
    int (length (filter P xs)) - (if P (xs ! i) then 1 else 0) + (if P x then 1 else 0)"
proof -
  have "length (filter P xs) = length (filter P (take i xs @ xs ! i # drop (Suc i) xs))"
    using assms by (simp add: id_take_nth_drop [symmetric])
  moreover have "length (filter P (xs[i := x])) = length (filter P (take i xs @ x # drop (Suc i) xs))"
    using assms by (simp add: upd_conv_take_nth_drop)
  ultimately show ?thesis by simp
qed

section \<open>Arrays and counted loops\<close>

text \<open>Reads and writes through an index: undefined outside the array.\<close>

definition read_at :: "'a list \<Rightarrow> int \<Rightarrow> 'a option" where
  "read_at xs i = (if 0 \<le> i \<and> i < int (length xs) then Some (xs ! nat i) else None)"

definition write_at :: "'a list \<Rightarrow> int \<Rightarrow> 'a \<Rightarrow> 'a list option" where
  "write_at xs i x = (if 0 \<le> i \<and> i < int (length xs) then Some (xs[nat i := x]) else None)"

text \<open>
  The loop \<open>for (i = a; i < b; i++)\<close> with a body that does not change \<open>i\<close> or the bound is
  \<open>for_each [a..b - 1]\<close>.
\<close>

fun for_each :: "'i list \<Rightarrow> ('i \<Rightarrow> 's \<Rightarrow> 's option) \<Rightarrow> 's \<Rightarrow> 's option" where
  "for_each [] f s = Some s"
| "for_each (i # is) f s = do { s \<leftarrow> f i s; for_each is f s }"

lemma read_at_Some [simp]: "0 \<le> i \<Longrightarrow> i < int (length xs) \<Longrightarrow> read_at xs i = Some (xs ! nat i)"
  by (simp add: read_at_def)

lemma read_at_None [simp]: "i < 0 \<or> int (length xs) \<le> i \<Longrightarrow> read_at xs i = None"
  by (auto simp: read_at_def)

lemma write_at_Some [simp]:
  "0 \<le> i \<Longrightarrow> i < int (length xs) \<Longrightarrow> write_at xs i x = Some (xs[nat i := x])"
  by (simp add: write_at_def)

lemma write_at_None [simp]: "i < 0 \<or> int (length xs) \<le> i \<Longrightarrow> write_at xs i x = None"
  by (auto simp: write_at_def)

lemma write_at_length: "write_at xs i x = Some ys \<Longrightarrow> length ys = length xs"
  by (auto simp: write_at_def split: if_splits)

lemma for_each_append: "for_each (xs @ ys) f s = do { s \<leftarrow> for_each xs f s; for_each ys f s }"
  by (induction xs arbitrary: s) (auto split: Option.bind_split)

text \<open>Filling a range of an array with a function of the index.\<close>

lemma for_each_write:
  assumes "0 \<le> a" "a \<le> b" "b \<le> int (length xs)"
  shows "for_each [a..b - 1] (\<lambda>i s. write_at s i (g i)) xs =
    Some (take (nat a) xs @ map (\<lambda>i. g (int i)) [nat a..<nat b] @ drop (nat b) xs)"
  using assms
proof (induction "nat (b - a)" arbitrary: b)
  case 0
  then show ?case by simp
next
  case (Suc n)
  let ?b = "b - 1"
  have b: "a \<le> ?b" "?b \<le> int (length xs)" "n = nat (?b - a)" using Suc.hyps(2) Suc.prems by auto
  have up: "[a..b - 1] = [a..?b - 1] @ [?b]" using b(1) upto_rec2 [of a ?b] by simp
  have nb: "nat b = Suc (nat ?b)" using b(1) Suc.prems by simp
  have "drop (nat ?b) xs = xs ! nat ?b # drop (nat b) xs"
    using b(1) Suc.prems by (simp add: nb Cons_nth_drop_Suc)
  moreover have "nat a \<le> nat ?b" using b(1) by simp
  ultimately show ?case
    using Suc.hyps(1) [OF b(3) Suc.prems(1) b(1,2)] b Suc.prems
    by (simp add: up for_each_append nb list_update_append)
qed

end
