(* ===== verification/Table_Spec.thy ===== *)
theory Table_Spec
  imports Prelude
begin

text \<open>
  The contract between the hash table (\<open>src/hashtable/hashtable.c\<close>) and its clients, the
  transaction table (\<open>proxy_trans.h\<close>) and the clone tables (\<open>proxy_clone.c\<close>): a
  finite map from unsigned long keys to values. Insertion promises nothing for a key that is
  already present (the header of the hash table says: if in doubt, remove before insert),
  and may fail for lack of memory, which the contract covers.
\<close>

section \<open>Sequences of operations\<close>

datatype ('al, 'v) table_op = Op_insert 'al ulong 'v | Op_search ulong | Op_remove ulong

datatype 'v table_out = Out_rc int | Out_value "'v option"

text \<open>Running a list of operations on a table given by its three operations.\<close>

fun table_run ::
  "('m \<Rightarrow> ulong \<Rightarrow> 'v option) \<Rightarrow> ('al \<Rightarrow> 'm \<Rightarrow> ulong \<Rightarrow> 'v \<Rightarrow> (int \<times> 'm) option) \<Rightarrow>
   ('m \<Rightarrow> ulong \<Rightarrow> 'v option \<times> 'm) \<Rightarrow> ('al, 'v) table_op list \<Rightarrow> 'm \<Rightarrow>
   ('v table_out list \<times> 'm) option" where
  "table_run srch ins del [] m = Some ([], m)"
| "table_run srch ins del (Op_insert al k v # ops) m =
     do {
       (r, m) \<leftarrow> ins al m k v;
       (outs, m) \<leftarrow> table_run srch ins del ops m;
       Some (Out_rc r # outs, m)
     }"
| "table_run srch ins del (Op_search k # ops) m =
     do {
       (outs, m') \<leftarrow> table_run srch ins del ops m;
       Some (Out_value (srch m k) # outs, m')
     }"
| "table_run srch ins del (Op_remove k # ops) m =
     do {
       let (v, m) = del m k;
       (outs, m) \<leftarrow> table_run srch ins del ops m;
       Some (Out_value v # outs, m)
     }"

text \<open>
  The abstract specification: the results a map would give. Inserting a key that is present
  ends the obligations of the table.
\<close>

fun map_spec :: "(('al, 'v) table_op \<times> 'v table_out) list \<Rightarrow> (ulong \<Rightarrow> 'v option) \<Rightarrow> bool" where
  "map_spec [] f \<longleftrightarrow> True"
| "map_spec ((Op_insert al k v, Out_rc r) # xs) f \<longleftrightarrow>
     (f k = None \<longrightarrow> map_spec xs (if r = 0 then f else f(k \<mapsto> v)))"
| "map_spec ((Op_search k, Out_value res) # xs) f \<longleftrightarrow> res = f k \<and> map_spec xs f"
| "map_spec ((Op_remove k, Out_value res) # xs) f \<longleftrightarrow> res = f k \<and> map_spec xs (f(k := None))"
| "map_spec (_ # xs) f \<longleftrightarrow> False"

section \<open>The interface\<close>

locale keyed_table =
  fixes invar :: "'m \<Rightarrow> bool"
    and lookup :: "'m \<Rightarrow> ulong \<Rightarrow> 'v option"
    and insert :: "'al \<Rightarrow> 'm \<Rightarrow> ulong \<Rightarrow> 'v \<Rightarrow> (int \<times> 'm) option"
    and remove :: "'m \<Rightarrow> ulong \<Rightarrow> 'v option \<times> 'm"
  assumes insert_ok:
      "invar m \<Longrightarrow> lookup m k = None \<Longrightarrow> insert al m k v = Some (r, m') \<Longrightarrow> r \<noteq> 0 \<Longrightarrow>
        invar m' \<and> lookup m' = (lookup m)(k \<mapsto> v)"
    and insert_oom:
      "invar m \<Longrightarrow> insert al m k v = Some (r, m') \<Longrightarrow> r = 0 \<Longrightarrow>
        invar m' \<and> lookup m' = lookup m"
    and remove_ok:
      "invar m \<Longrightarrow> remove m k = (v', m') \<Longrightarrow>
        v' = lookup m k \<and> invar m' \<and> lookup m' = (lookup m)(k := None)"
begin

lemma search_after_insert:
  assumes "invar m" "lookup m k = None" "insert al m k v = Some (r, m')" "r \<noteq> 0"
  shows "lookup m' k = Some v"
  using insert_ok [OF assms] by simp

lemma insert_remove_roundtrip:
  assumes "invar m" "lookup m k = None" "insert al m k v = Some (r, m')" "r \<noteq> 0"
    and "remove m' k = (v', m'')"
  shows "v' = Some v \<and> invar m'' \<and> lookup m'' = lookup m"
proof -
  from insert_ok [OF assms(1-4)] have "invar m'" and l: "lookup m' = (lookup m)(k \<mapsto> v)"
    by simp_all
  from remove_ok [OF \<open>invar m'\<close> assms(5)] l assms(2) show ?thesis
    by (auto simp: fun_upd_idem)
qed

lemma remove_absent:
  assumes "invar m" "lookup m k = None" "remove m k = (v', m')"
  shows "v' = None \<and> lookup m' = lookup m"
  using remove_ok [OF assms(1,3)] assms(2) by (auto simp: fun_upd_idem)

lemma remove_twice:
  assumes "invar m" "remove m k = (v', m')" "remove m' k = (v'', m'')"
  shows "v'' = None"
  using remove_ok [OF assms(1,2)] remove_ok [OF _ assms(3)] by auto

text \<open>Every run of operations gives the results of a map.\<close>

lemma run_refines_map:
  "invar m \<Longrightarrow> table_run lookup insert remove ops m = Some (outs, m') \<Longrightarrow>
     map_spec (zip ops outs) (lookup m)"
proof (induction ops arbitrary: m outs)
  case Nil
  then show ?case by simp
next
  case (Cons x ops)
  show ?case
  proof (cases x)
    case (Op_insert al k v)
    with Cons.prems(2) obtain r m1 outs1 where ins: "insert al m k v = Some (r, m1)"
      and run: "table_run lookup insert remove ops m1 = Some (outs1, m')" and outs: "outs = Out_rc r # outs1"
      by (auto split: Option.bind_splits)
    have "map_spec (zip ops outs1) (if r = 0 then lookup m else (lookup m)(k \<mapsto> v))" if "lookup m k = None"
    proof (cases "r = 0")
      case True
      then show ?thesis using insert_oom [OF Cons.prems(1) ins True] Cons.IH [OF _ run] by simp
    next
      case False
      from insert_ok [OF Cons.prems(1) that ins False]
      have inv: "invar m1" and l: "lookup m1 = (lookup m)(k \<mapsto> v)" by auto
      from Cons.IH [OF inv run] False show ?thesis by (simp add: l fun_upd_def)
    qed
    then show ?thesis by (simp add: Op_insert outs)
  next
    case (Op_search k)
    then show ?thesis using Cons by (auto split: Option.bind_splits)
  next
    case (Op_remove k)
    obtain v1 m1 where rm: "remove m k = (v1, m1)" by fastforce
    with Op_remove Cons.prems(2) obtain outs1 where
      run: "table_run lookup insert remove ops m1 = Some (outs1, m')" and outs: "outs = Out_value v1 # outs1"
      by (auto split: Option.bind_splits)
    show ?thesis using remove_ok [OF Cons.prems(1) rm] Cons.IH [OF _ run] by (simp add: Op_remove outs fun_upd_def)
  qed
qed

end

end
