(* ===== verification/Hashtable.thy ===== *)
theory Hashtable
  imports Table_Spec "HOL-Library.Multiset"
begin

text \<open>
  The chained hash table of \<open>src/hashtable/hashtable.c\<close> and \<open>hashtable_private.h\<close>.
  A chain of entries is a list, head first, and the table is the list of its chains. Unsigned
  ints are 32 bit words, so the entry count wraps as in C. Memory allocation is an argument:
  \<open>expand_alloc\<close> says how the allocations inside \<open>hashtable_expand\<close> end, and booleans say
  whether the other calls of malloc succeed. The theory shows that the table keeps its
  structural invariant and implements the contract of \<open>keyed_table\<close>.
\<close>

unbundle bit_operations_syntax

section \<open>Data\<close>

record 'v entry =
  entry_k :: ulong
  entry_v :: 'v
  entry_h :: uint

record 'v hashtable =
  tablelength :: uint
  table :: "'v entry list list"
  entrycount :: uint
  loadlimit :: uint
  primeindex :: uint

definition primes :: "uint list" where
  "primes = [53, 97, 193, 389,
     769, 1543, 3079, 6151,
     12289, 24593, 49157, 98317,
     196613, 393241, 786433, 1572869,
     3145739, 6291469, 12582917, 25165843,
     50331653, 100663319, 201326611, 402653189,
     805306457, 1610612741]"

definition prime_table_length :: uint where
  "prime_table_length = 26"

section \<open>Hashing\<close>

definition get16bits :: "uchar list \<Rightarrow> uint" where
  "get16bits d = push_bit 8 (ucast (d ! 1)) + ucast (d ! 0)"

text \<open>The main loop of \<open>SuperFastHash\<close>: one iteration consumes four bytes.\<close>

fun SuperFastHash_loop :: "uint \<Rightarrow> uchar list \<Rightarrow> nat \<Rightarrow> uint \<times> uchar list" where
  "SuperFastHash_loop hash data 0 = (hash, data)"
| "SuperFastHash_loop hash data (Suc len) =
     (let hash = hash + get16bits data;
          tmp = push_bit 11 (get16bits (drop 2 data)) XOR hash;
          hash = push_bit 16 hash XOR tmp;
          data = drop 4 data;
          hash = hash + drop_bit 11 hash
      in SuperFastHash_loop hash data len)"

text \<open>
  The bytes are plain \<open>char\<close>s, which are signed on the target: the reads outside
  \<open>get16bits\<close> sign extend. The length is the number of bytes the caller passes, so
  \<open>data\<close> holds at least \<open>len\<close> bytes; \<open>None\<close> stands for a null pointer.
\<close>

definition SuperFastHash :: "uchar list option \<Rightarrow> int \<Rightarrow> uint" where
  "SuperFastHash data len =
     (case data of
        None \<Rightarrow> 0
      | Some bytes \<Rightarrow>
          if len \<le> 0 then 0
          else
            let rem = len mod 4;
                (hash, d) = SuperFastHash_loop (of_int len) bytes (nat (len div 4));
                hash =
                  (if rem = 3 then
                     let hash = hash + get16bits d;
                         hash = hash XOR push_bit 16 hash;
                         hash = hash XOR push_bit 18 (scast (d ! 2))
                     in hash + drop_bit 11 hash
                   else if rem = 2 then
                     let hash = hash + get16bits d;
                         hash = hash XOR push_bit 11 hash
                     in hash + drop_bit 17 hash
                   else if rem = 1 then
                     let hash = hash + scast (d ! 0);
                         hash = hash XOR push_bit 10 hash
                     in hash + drop_bit 1 hash
                   else hash);
                hash = hash XOR push_bit 3 hash;
                hash = hash + drop_bit 5 hash;
                hash = hash XOR push_bit 4 hash;
                hash = hash + drop_bit 17 hash;
                hash = hash XOR push_bit 25 hash;
                hash = hash + drop_bit 6 hash
            in hash)"

text \<open>The eight bytes of an unsigned long in memory, least significant first.\<close>

definition ulong_bytes :: "ulong \<Rightarrow> uchar list" where
  "ulong_bytes k = map (\<lambda>i. ucast (drop_bit (8 * i) k)) [0..<8]"

definition hash :: "ulong \<Rightarrow> uint" where
  "hash key = SuperFastHash (Some (ulong_bytes key)) 8"

definition indexFor :: "uint \<Rightarrow> uint \<Rightarrow> nat" where
  "indexFor tablelen hashvalue = unat (hashvalue mod tablelen)"

section \<open>The load limit\<close>

text \<open>
  \<open>(unsigned int) ceil(size * max_load_factor)\<close> is computed in single precision:
  \<open>max_load_factor\<close> is the float nearest to 0.65, which is 10905190 times 2 to the power -24,
  the size is rounded to a float, and the product is rounded to a float again before
  \<open>ceil\<close>. Rounding to 24 significant bits is to nearest, ties to even.
\<close>

function bit_length :: "int \<Rightarrow> nat" where
  "bit_length n = (if n \<le> 0 then 0 else Suc (bit_length (n div 2)))"
  by pat_completeness auto
termination
  by (relation "measure nat") auto

declare bit_length.simps [simp del]

definition round_float :: "int \<Rightarrow> int" where
  "round_float n =
     (let s = bit_length n - 24; q = n div 2 ^ s; r = n mod 2 ^ s
      in if s = 0 then n
         else if 2 * r > 2 ^ s \<or> (2 * r = 2 ^ s \<and> odd q) then (q + 1) * 2 ^ s else q * 2 ^ s)"

definition max_load_factor :: int where
  "max_load_factor = 10905190"

definition load_limit :: "uint \<Rightarrow> uint" where
  "load_limit sz =
     (let p = round_float (round_float (uint sz) * max_load_factor)
      in of_int ((p + (2 ^ 24 - 1)) div 2 ^ 24))"

section \<open>Operations\<close>

fun find_prime :: "uint \<Rightarrow> uint list \<Rightarrow> uint \<Rightarrow> uint \<times> uint" where
  "find_prime minsize [] pindex = (pindex, primes ! 0)"
| "find_prime minsize (p # ps) pindex =
     (if p > minsize then (pindex, p) else find_prime minsize ps (pindex + 1))"

definition create_hashtable :: "bool \<Rightarrow> bool \<Rightarrow> uint \<Rightarrow> 'v hashtable option" where
  "create_hashtable h_ok table_ok minsize =
     (if minsize > push_bit 30 1 then None
      else
        let (pindex, sz) = find_prime minsize primes 0
        in if \<not> h_ok then None
           else if \<not> table_ok then None
           else Some \<lparr>tablelength = sz, table = replicate (unat sz) [], entrycount = 0,
                      loadlimit = load_limit sz, primeindex = pindex\<rparr>)"

text \<open>
  Rehashing into a new table: entries are taken from the head of each old chain and put at
  the head of their new chain.
\<close>

fun move_chain :: "uint \<Rightarrow> 'v entry list \<Rightarrow> 'v entry list list \<Rightarrow> 'v entry list list" where
  "move_chain newsize [] newtable = newtable"
| "move_chain newsize (e # es) newtable =
     (let index = indexFor newsize (entry_h e)
      in move_chain newsize es (newtable[index := e # newtable ! index]))"

fun move_chains :: "uint \<Rightarrow> 'v entry list list \<Rightarrow> 'v entry list list \<Rightarrow> 'v entry list list" where
  "move_chains newsize [] newtable = newtable"
| "move_chains newsize (c # cs) newtable = move_chains newsize cs (move_chain newsize c newtable)"

text \<open>
  How the allocations of \<open>hashtable_expand\<close> end: malloc succeeds, or it fails and realloc
  succeeds, or both fail. When realloc succeeds, the code passes the uninitialised pointer
  \<open>newtable[h->tablelength]\<close> to memset, which is undefined.
\<close>

datatype expand_alloc = Malloc_ok | Realloc_ok | No_memory

definition hashtable_expand :: "expand_alloc \<Rightarrow> 'v hashtable \<Rightarrow> (int \<times> 'v hashtable) option" where
  "hashtable_expand al h =
     (if primeindex h = prime_table_length - 1 then Some (0, h)
      else
        let h = h\<lparr>primeindex := primeindex h + 1\<rparr>;
            newsize = primes ! unat (primeindex h)
        in case al of
             Malloc_ok \<Rightarrow>
               (let newtable = move_chains newsize (take (unat (tablelength h)) (table h))
                                 (replicate (unat newsize) [])
                in Some (-1, h\<lparr>table := newtable, tablelength := newsize,
                               loadlimit := load_limit newsize\<rparr>))
           | Realloc_ok \<Rightarrow> None
           | No_memory \<Rightarrow> Some (0, h\<lparr>primeindex := primeindex h - 1\<rparr>))"

definition hashtable_count :: "'v hashtable \<Rightarrow> uint" where
  "hashtable_count h = entrycount h"

definition hashtable_insert ::
  "expand_alloc \<times> bool \<Rightarrow> 'v hashtable \<Rightarrow> ulong \<Rightarrow> 'v \<Rightarrow> (int \<times> 'v hashtable) option" where
  "hashtable_insert al h k v =
     do {
       let h = h\<lparr>entrycount := entrycount h + 1\<rparr>;
       (_, h) \<leftarrow> (if entrycount h > loadlimit h then hashtable_expand (fst al) h else Some (0, h));
       if \<not> snd al then Some (0, h\<lparr>entrycount := entrycount h - 1\<rparr>)
       else
         let e = \<lparr>entry_k = k, entry_v = v, entry_h = hash k\<rparr>;
             index = indexFor (tablelength h) (entry_h e)
         in Some (-1, h\<lparr>table := (table h)[index := e # table h ! index]\<rparr>)
     }"

fun chain_search :: "uint \<Rightarrow> ulong \<Rightarrow> 'v entry list \<Rightarrow> 'v option" where
  "chain_search hashvalue k [] = None"
| "chain_search hashvalue k (e # es) =
     (if hashvalue = entry_h e \<and> k = entry_k e then Some (entry_v e) else chain_search hashvalue k es)"

definition hashtable_search :: "'v hashtable \<Rightarrow> ulong \<Rightarrow> 'v option" where
  "hashtable_search h k =
     (let hashvalue = hash k; index = indexFor (tablelength h) hashvalue
      in chain_search hashvalue k (table h ! index))"

fun chain_remove :: "uint \<Rightarrow> ulong \<Rightarrow> 'v entry list \<Rightarrow> ('v \<times> 'v entry list) option" where
  "chain_remove hashvalue k [] = None"
| "chain_remove hashvalue k (e # es) =
     (if hashvalue = entry_h e \<and> k = entry_k e then Some (entry_v e, es)
      else map_option (apsnd ((#) e)) (chain_remove hashvalue k es))"

definition hashtable_remove :: "'v hashtable \<Rightarrow> ulong \<Rightarrow> 'v option \<times> 'v hashtable" where
  "hashtable_remove h k =
     (let hashvalue = hash k; index = indexFor (tablelength h) hashvalue
      in case chain_remove hashvalue k (table h ! index) of
           None \<Rightarrow> (None, h)
         | Some (v, es) \<Rightarrow>
             (Some v, h\<lparr>table := (table h)[index := es], entrycount := entrycount h - 1\<rparr>))"

text \<open>
  \<open>hashtable_destroy\<close> frees every entry and, if asked to, every value: the model returns the
  values it passes to free, in order, and the number of entries it frees.
\<close>

fun chain_destroy :: "bool \<Rightarrow> 'v entry list \<Rightarrow> 'v list \<times> nat \<Rightarrow> 'v list \<times> nat" where
  "chain_destroy free_values [] freed = freed"
| "chain_destroy free_values (f # e) (vs, n) =
     chain_destroy free_values e (if free_values then vs @ [entry_v f] else vs, Suc n)"

definition hashtable_destroy :: "'v hashtable \<Rightarrow> bool \<Rightarrow> 'v list \<times> nat" where
  "hashtable_destroy h free_values =
     fold (chain_destroy free_values) (take (unat (tablelength h)) (table h)) ([], 0)"

lemmas [ht_simps] = hashtable_count_def hashtable_insert_def hashtable_search_def
  hashtable_remove_def hashtable_expand_def create_hashtable_def hashtable_destroy_def

section \<open>The invariant\<close>

abbreviation ht_entries :: "'v hashtable \<Rightarrow> 'v entry list" where
  "ht_entries h \<equiv> concat (table h)"

text \<open>A chain array of the given length whose chains hold the entries that hash to them.\<close>

definition chains_ok :: "uint \<Rightarrow> 'v entry list list \<Rightarrow> bool" where
  "chains_ok len t \<longleftrightarrow> length t = unat len \<and>
     (\<forall>i<length t. \<forall>e\<in>set (t ! i). entry_h e = hash (entry_k e) \<and> indexFor len (entry_h e) = i)"

definition ht_inv :: "'v hashtable \<Rightarrow> bool" where
  "ht_inv h \<longleftrightarrow> chains_ok (tablelength h) (table h) \<and>
     unat (primeindex h) < length primes \<and> tablelength h = primes ! unat (primeindex h) \<and>
     loadlimit h = load_limit (tablelength h) \<and>
     entrycount h = of_nat (length (ht_entries h))"

definition ht_distinct :: "'v hashtable \<Rightarrow> bool" where
  "ht_distinct h \<longleftrightarrow> distinct (map entry_k (ht_entries h))"

definition ht_map :: "'v hashtable \<Rightarrow> ulong \<Rightarrow> 'v option" where
  "ht_map h = map_of (map (\<lambda>e. (entry_k e, entry_v e)) (ht_entries h))"

lemma primes_pos: "p \<in> set primes \<Longrightarrow> 0 < unat p"
  by (auto simp: primes_def)

lemma length_primes [simp]: "length primes = 26"
  by (simp add: primes_def)

lemma ht_inv_chains: "ht_inv h \<Longrightarrow> chains_ok (tablelength h) (table h)"
  unfolding ht_inv_def by blast

lemma ht_inv_tablelength_pos: "ht_inv h \<Longrightarrow> 0 < unat (tablelength h)"
  using primes_pos by (fastforce simp: ht_inv_def)

lemma indexFor_less: "0 < unat len \<Longrightarrow> indexFor len x < unat len"
  by (simp add: indexFor_def unat_mod_distrib)

lemma ht_index_less: "ht_inv h \<Longrightarrow> indexFor (tablelength h) x < length (table h)"
  using indexFor_less [OF ht_inv_tablelength_pos] ht_inv_chains
  by (fastforce simp: chains_ok_def)

lemma chains_okD:
  "chains_ok len t \<Longrightarrow> i < length t \<Longrightarrow> e \<in> set (t ! i) \<Longrightarrow>
     entry_h e = hash (entry_k e) \<and> i = indexFor len (hash (entry_k e))"
  by (metis chains_ok_def)

lemma chains_ok_entry:
  assumes "chains_ok len t" "e \<in> set (concat t)"
  shows "entry_h e = hash (entry_k e)" and "e \<in> set (t ! indexFor len (hash (entry_k e)))"
  using assms unfolding in_set_concat_nth by (auto dest: chains_okD)

lemma chains_ok_update:
  assumes "chains_ok len t" and "i < length t"
    and "\<And>e. e \<in> set c \<Longrightarrow> entry_h e = hash (entry_k e) \<and> indexFor len (hash (entry_k e)) = i"
  shows "chains_ok len (t[i := c])"
  using assms(1,2) unfolding chains_ok_def
  by (auto simp: nth_list_update dest: assms(3)) (metis)

section \<open>Expansion\<close>

lemma chains_ok_replicate: "chains_ok len (replicate (unat len) [])"
  by (simp add: chains_ok_def)

lemma chains_ok_push:
  assumes "chains_ok len t" "0 < unat len" "entry_h e = hash (entry_k e)"
  shows "chains_ok len (t[indexFor len (entry_h e) := e # t ! indexFor len (entry_h e)])"
proof (rule chains_ok_update [OF assms(1)])
  show "indexFor len (entry_h e) < length t"
    using assms(1,2) indexFor_less by (simp add: chains_ok_def)
  then show "\<And>x. x \<in> set (e # t ! indexFor len (entry_h e)) \<Longrightarrow>
      entry_h x = hash (entry_k x) \<and> indexFor len (hash (entry_k x)) = indexFor len (entry_h e)"
    using assms by (auto dest: chains_okD)
qed

lemma move_chain_ok:
  "0 < unat len \<Longrightarrow> chains_ok len t \<Longrightarrow> \<forall>e\<in>set c. entry_h e = hash (entry_k e) \<Longrightarrow>
     chains_ok len (move_chain len c t)"
  by (induction c arbitrary: t) (auto simp: Let_def dest: chains_ok_push)

lemma move_chains_ok:
  "0 < unat len \<Longrightarrow> chains_ok len t \<Longrightarrow> \<forall>e\<in>set (concat cs). entry_h e = hash (entry_k e) \<Longrightarrow>
     chains_ok len (move_chains len cs t)"
  by (induction cs arbitrary: t) (auto intro: move_chain_ok)

lemma mset_push:
  "i < length t \<Longrightarrow> mset (concat (t[i := e # t ! i])) = add_mset e (mset (concat t))"
  by (simp add: concat_update_split concat_split_nth [of i t])

lemma move_chain_length [simp]: "length (move_chain len c t) = length t"
  by (induction c arbitrary: t) (auto simp: Let_def)

lemma move_chains_length [simp]: "length (move_chains len cs t) = length t"
  by (induction cs arbitrary: t) auto

lemma mset_move_chain:
  "0 < unat len \<Longrightarrow> length t = unat len \<Longrightarrow>
     mset (concat (move_chain len c t)) = mset c + mset (concat t)"
  by (induction c arbitrary: t) (auto simp: Let_def mset_push indexFor_less)

lemma mset_move_chains:
  "0 < unat len \<Longrightarrow> length t = unat len \<Longrightarrow>
     mset (concat (move_chains len cs t)) = mset (concat cs) + mset (concat t)"
  by (induction cs arbitrary: t) (auto simp: mset_move_chain)

text \<open>
  Expansion keeps the entries as a multiset, whether it grows the table or gives up. The
  caller has already counted the entry it is about to add, so the entry count is stated
  apart from the rest of the invariant.
\<close>

definition ht_shape :: "'v hashtable \<Rightarrow> bool" where
  "ht_shape h \<longleftrightarrow> chains_ok (tablelength h) (table h) \<and>
     unat (primeindex h) < length primes \<and> tablelength h = primes ! unat (primeindex h) \<and>
     loadlimit h = load_limit (tablelength h)"

lemma ht_inv_shape:
  "ht_inv h \<longleftrightarrow> ht_shape h \<and> entrycount h = of_nat (length (ht_entries h))"
  by (auto simp: ht_inv_def ht_shape_def)

lemma unat_Suc_primeindex:
  assumes "unat (p :: uint) < 26" "p \<noteq> prime_table_length - 1"
  shows "unat (p + 1) = Suc (unat p) \<and> unat (p + 1) < 26"
proof -
  have "p \<noteq> 25" using assms(2) by (simp add: prime_table_length_def)
  then have "unat p \<noteq> unat (25 :: uint)" unfolding word_unat_eq_iff .
  then have "unat p < 25" using assms(1) by simp
  then show ?thesis by (simp add: unat_word_ariths)
qed

lemma hashtable_expand_shape:
  assumes "ht_shape h" and "hashtable_expand al h = Some (r, h')"
  shows "ht_shape h' \<and> mset (ht_entries h') = mset (ht_entries h) \<and> entrycount h' = entrycount h"
proof (cases "primeindex h = prime_table_length - 1")
  case True
  with assms show ?thesis by (simp add: hashtable_expand_def)
next
  case False
  let ?ns = "primes ! unat (primeindex h + 1)"
  have pi: "unat (primeindex h + 1) < 26"
    using assms(1) False unat_Suc_primeindex unfolding ht_shape_def length_primes by blast
  then have pos: "0 < unat ?ns" using primes_pos by simp
  from assms(1) have co: "chains_ok (tablelength h) (table h)" unfolding ht_shape_def by blast
  then have len: "length (table h) = unat (tablelength h)" by (simp add: chains_ok_def)
  show ?thesis
  proof (cases al)
    case Malloc_ok
    have "\<forall>e\<in>set (ht_entries h). entry_h e = hash (entry_k e)"
      using co chains_ok_entry by blast
    then have "chains_ok ?ns (move_chains ?ns (table h) (replicate (unat ?ns) []))"
      using move_chains_ok [OF pos chains_ok_replicate] by blast
    with False assms Malloc_ok pos pi len show ?thesis
      by (auto simp: hashtable_expand_def ht_shape_def mset_move_chains Let_def)
  qed (use False assms in \<open>auto simp: hashtable_expand_def ht_shape_def Let_def\<close>)
qed


section \<open>Search\<close>

lemma chain_search_map_of:
  "\<forall>e\<in>set c. entry_h e = hash (entry_k e) \<Longrightarrow>
     chain_search (hash k) k c = map_of (map (\<lambda>e. (entry_k e, entry_v e)) c) k"
  by (induction c) auto

lemma map_of_skip:
  "\<forall>e\<in>set xs. entry_k e \<noteq> k \<Longrightarrow> map_of (map (\<lambda>e. (entry_k e, entry_v e)) xs) k = None"
  by (induction xs) auto

lemma chains_ok_elsewhere:
  assumes "chains_ok len t" "i = indexFor len (hash k)"
    and "e \<in> set (concat (take i t)) \<union> set (concat (drop (Suc i) t))"
  shows "entry_k e \<noteq> k"
proof -
  have "\<exists>j<length t. j \<noteq> i \<and> e \<in> set (t ! j)"
    using assms(3) unfolding Un_iff in_set_concat_nth
  proof (elim disjE exE conjE)
    fix j assume "j < length (take i t)" "e \<in> set (take i t ! j)"
    then show ?thesis by (intro exI [of _ j]) auto
  next
    fix j assume "j < length (drop (Suc i) t)" "e \<in> set (drop (Suc i) t ! j)"
    then show ?thesis by (intro exI [of _ "Suc i + j"]) auto
  qed
  then show ?thesis using chains_okD [OF assms(1)] assms(2) by blast
qed

text \<open>Searching one chain finds what a search of all entries, chain after chain, would find.\<close>

lemma hashtable_search_eq:
  assumes "ht_inv h"
  shows "hashtable_search h k = ht_map h k"
proof -
  let ?i = "indexFor (tablelength h) (hash k)"
  have i: "?i < length (table h)" using assms by (rule ht_index_less)
  have co: "chains_ok (tablelength h) (table h)" using assms by (rule ht_inv_chains)
  have other: "\<forall>e\<in>set (concat (take ?i (table h))). entry_k e \<noteq> k"
      "\<forall>e\<in>set (concat (drop (Suc ?i) (table h))). entry_k e \<noteq> k"
    using chains_ok_elsewhere [OF co refl] by blast+
  have "\<forall>e\<in>set (table h ! ?i). entry_h e = hash (entry_k e)"
    using chains_okD [OF co i] by blast
  then have "hashtable_search h k = map_of (map (\<lambda>e. (entry_k e, entry_v e)) (table h ! ?i)) k"
    by (simp add: hashtable_search_def chain_search_map_of)
  also have "\<dots> = ht_map h k"
    using map_of_skip [OF other(1)] map_of_skip [OF other(2)]
    by (auto simp: ht_map_def concat_split_nth [OF i] map_add_def split: option.split)
  finally show ?thesis .
qed

lemma ht_map_mset:
  assumes "ht_distinct h" "mset (ht_entries h') = mset (ht_entries h)"
  shows "ht_distinct h' \<and> ht_map h' = ht_map h"
proof -
  have m: "mset (map entry_k (ht_entries h')) = mset (map entry_k (ht_entries h))"
    using assms(2) by simp
  then have d: "ht_distinct h'" using assms(1) mset_eq_imp_distinct_iff unfolding ht_distinct_def by blast
  have "set (ht_entries h') = set (ht_entries h)" using assms(2) by (rule mset_eq_setD)
  then have "ht_map h' = ht_map h"
    using d assms(1) unfolding ht_map_def ht_distinct_def
    by (subst map_of_inject_set) (auto simp: comp_def)
  with d show ?thesis by simp
qed

section \<open>Insertion\<close>

lemma ht_map_None: "ht_map h k = None \<longleftrightarrow> k \<notin> entry_k ` set (ht_entries h)"
  by (auto simp: ht_map_def map_of_eq_None_iff image_image)

lemma hashtable_insert_cases:
  assumes inv: "ht_inv h" and ins: "hashtable_insert al h k v = Some (r, h')"
  shows "\<exists>h1. ht_shape h1 \<and> mset (ht_entries h1) = mset (ht_entries h) \<and>
    entrycount h1 = entrycount h + 1 \<and>
    (if snd al then r = -1 \<and> h' = h1\<lparr>table := (table h1)
       [indexFor (tablelength h1) (hash k) :=
          \<lparr>entry_k = k, entry_v = v, entry_h = hash k\<rparr> # table h1 ! indexFor (tablelength h1) (hash k)]\<rparr>
     else r = 0 \<and> h' = h1\<lparr>entrycount := entrycount h1 - 1\<rparr>)"
proof -
  let ?h0 = "h\<lparr>entrycount := entrycount h + 1\<rparr>"
  have s0: "ht_shape ?h0" using inv by (auto simp: ht_inv_shape ht_shape_def)
  let ?x = "if entrycount ?h0 > loadlimit ?h0 then hashtable_expand (fst al) ?h0 else Some (0, ?h0)"
  obtain r0 h1 where h1: "?x = Some (r0, h1)"
  proof (cases ?x)
    case None
    with ins show ?thesis by (simp add: hashtable_insert_def Let_def)
  qed (use that in auto)
  have sh: "ht_shape h1 \<and> mset (ht_entries h1) = mset (ht_entries ?h0) \<and> entrycount h1 = entrycount ?h0"
  proof (cases "entrycount ?h0 > loadlimit ?h0")
    case True
    with h1 show ?thesis by (intro hashtable_expand_shape [OF s0, of "fst al" r0]) simp
  next
    case False
    with h1 s0 show ?thesis by auto
  qed
  have "hashtable_insert al h k v =
      (if \<not> snd al then Some (0, h1\<lparr>entrycount := entrycount h1 - 1\<rparr>)
       else Some (-1, h1\<lparr>table := (table h1)
         [indexFor (tablelength h1) (hash k) :=
          \<lparr>entry_k = k, entry_v = v, entry_h = hash k\<rparr> # table h1 ! indexFor (tablelength h1) (hash k)]\<rparr>))"
    unfolding hashtable_insert_def Let_def h1 by simp
  with ins sh show ?thesis by (intro exI [of _ h1]) (auto split: if_splits)
qed

lemma hashtable_insert_correct:
  assumes inv: "ht_inv h" and ins: "hashtable_insert al h k v = Some (r, h')"
  shows "ht_inv h'"
    and "r = 0 \<longleftrightarrow> \<not> snd al"
    and "mset (ht_entries h') = mset (ht_entries h) +
      (if snd al then {#\<lparr>entry_k = k, entry_v = v, entry_h = hash k\<rparr>#} else {#})"
    and "snd al \<Longrightarrow> hashtable_search h' k = Some v"
proof -
  let ?e = "\<lparr>entry_k = k, entry_v = v, entry_h = hash k\<rparr>"
  from hashtable_insert_cases [OF assms] obtain h1 where sh: "ht_shape h1"
    and ms: "mset (ht_entries h1) = mset (ht_entries h)"
    and ec: "entrycount h1 = entrycount h + 1"
    and h': "if snd al then r = -1 \<and> h' = h1\<lparr>table := (table h1)
       [indexFor (tablelength h1) (hash k) := ?e # table h1 ! indexFor (tablelength h1) (hash k)]\<rparr>
     else r = 0 \<and> h' = h1\<lparr>entrycount := entrycount h1 - 1\<rparr>"
    by blast
  have co: "chains_ok (tablelength h1) (table h1)" and pos: "0 < unat (tablelength h1)"
    using sh primes_pos unfolding ht_shape_def by auto
  have i: "indexFor (tablelength h1) (hash k) < length (table h1)"
    using indexFor_less [OF pos] co by (simp add: chains_ok_def)
  show m: "mset (ht_entries h') = mset (ht_entries h) + (if snd al then {#?e#} else {#})"
    using h' ms mset_push [OF i] by (auto split: if_splits)
  show "r = 0 \<longleftrightarrow> \<not> snd al" using h' by (auto split: if_splits)
  have "ht_shape h'"
    using chains_ok_push [OF co pos, of ?e] sh h' by (auto simp: ht_shape_def split: if_splits)
  moreover have "length (ht_entries h') = length (ht_entries h) + (if snd al then 1 else 0)"
    using arg_cong [OF m, of size] by simp
  ultimately show "ht_inv h'" using inv ec h' by (auto simp: ht_inv_shape split: if_splits)
  show "hashtable_search h' k = Some v" if "snd al"
    using that h' i by (simp add: hashtable_search_def)
qed

lemma hashtable_insert_map:
  assumes "ht_inv h" "ht_distinct h" "hashtable_search h k = None"
    and "hashtable_insert al h k v = Some (r, h')" "r \<noteq> 0"
  shows "ht_distinct h' \<and> hashtable_search h' = (hashtable_search h)(k \<mapsto> v)"
proof -
  note ic = hashtable_insert_correct [OF assms(1,4)]
  let ?p = "\<lambda>e. (entry_k e, entry_v e)" and ?e = "\<lparr>entry_k = k, entry_v = v, entry_h = hash k\<rparr>"
  have m: "mset (ht_entries h') = mset (?e # ht_entries h)" using ic(2,3) assms(5) by simp
  have nk: "k \<notin> entry_k ` set (ht_entries h)"
    using assms(1,3) by (simp add: hashtable_search_eq ht_map_None)
  have "mset (map entry_k (ht_entries h')) = mset (map entry_k (?e # ht_entries h))"
    unfolding mset_map m by simp
  note iff = mset_eq_imp_distinct_iff [OF this]
  have d2: "distinct (map entry_k (?e # ht_entries h))"
    using nk assms(2) by (simp add: ht_distinct_def)
  then have d: "distinct (map entry_k (ht_entries h'))" unfolding iff .
  have s: "set (ht_entries h') = set (?e # ht_entries h)" using m by (rule mset_eq_setD)
  have "map_of (map ?p (ht_entries h')) = map_of (map ?p (?e # ht_entries h))"
  proof (rule map_of_inject_set [THEN iffD2])
    show "distinct (map fst (map ?p (ht_entries h')))" using d by (simp add: comp_def)
    show "distinct (map fst (map ?p (?e # ht_entries h)))" using d2 by (simp add: comp_def)
    show "set (map ?p (ht_entries h')) = set (map ?p (?e # ht_entries h))" by (simp only: set_map s)
  qed
  then have "ht_map h' = (ht_map h)(k \<mapsto> v)" by (simp add: ht_map_def)
  with d assms(1) ic(1) show ?thesis by (simp add: ht_distinct_def hashtable_search_eq fun_eq_iff)
qed


section \<open>Removal\<close>

lemma chain_remove_None: "chain_remove hv k c = None \<longleftrightarrow> chain_search hv k c = None"
  by (induction c) auto

lemma chain_remove_Some:
  "chain_remove hv k c = Some (v, c') \<Longrightarrow>
     chain_search hv k c = Some v \<and>
     (\<exists>e xs ys. c = xs @ e # ys \<and> c' = xs @ ys \<and> entry_k e = k \<and> entry_v e = v)"
proof (induction c arbitrary: c')
  case Nil
  then show ?case by simp
next
  case (Cons a c)
  show ?case
  proof (cases "hv = entry_h a \<and> k = entry_k a")
    case True
    with Cons.prems show ?thesis by (intro conjI exI [of _ a] exI [of _ "[]"] exI [of _ c]) auto
  next
    case False
    with Cons.prems obtain c1 where c1: "chain_remove hv k c = Some (v, c1)" "c' = a # c1"
      by (auto simp: split: if_splits)
    from Cons.IH [OF c1(1)] obtain e xs ys where "chain_search hv k c = Some v"
      "c = xs @ e # ys" "c1 = xs @ ys" "entry_k e = k" "entry_v e = v" by blast
    with False c1(2) show ?thesis
      by (intro conjI exI [of _ e] exI [of _ "a # xs"] exI [of _ ys]) auto
  qed
qed

lemma hashtable_remove_correct:
  assumes inv: "ht_inv h" and rem: "hashtable_remove h k = (v', h')"
  shows "v' = hashtable_search h k" and "ht_inv h'" and "v' = None \<Longrightarrow> h' = h"
    and "v' = Some v \<Longrightarrow>
      \<exists>e xs ys. ht_entries h = xs @ e # ys \<and> ht_entries h' = xs @ ys \<and> entry_k e = k \<and> entry_v e = v"
proof -
  let ?i = "indexFor (tablelength h) (hash k)" and ?c = "table h ! indexFor (tablelength h) (hash k)"
  have i: "?i < length (table h)" using inv by (rule ht_index_less)
  have co: "chains_ok (tablelength h) (table h)" using inv by (rule ht_inv_chains)
  have "v' = hashtable_search h k \<and> ht_inv h' \<and> (v' = None \<longrightarrow> h' = h) \<and>
    (\<forall>v. v' = Some v \<longrightarrow>
      (\<exists>e xs ys. ht_entries h = xs @ e # ys \<and> ht_entries h' = xs @ ys \<and> entry_k e = k \<and> entry_v e = v))"
  proof (cases "chain_remove (hash k) k ?c")
    case None
    then show ?thesis using rem inv chain_remove_None [of "hash k" k ?c]
      by (simp add: hashtable_remove_def hashtable_search_def)
  next
    case (Some p)
    then obtain v c' where rc: "chain_remove (hash k) k ?c = Some (v, c')" by (cases p) auto
    from chain_remove_Some [OF rc] obtain e xs ys where c: "chain_search (hash k) k ?c = Some v"
      "?c = xs @ e # ys" "c' = xs @ ys" "entry_k e = k" "entry_v e = v" by blast
    have h': "h' = h\<lparr>table := (table h)[?i := c'], entrycount := entrycount h - 1\<rparr>" and v': "v' = Some v"
      using rem rc by (simp_all add: hashtable_remove_def)
    have "\<forall>x\<in>set ?c. entry_h x = hash (entry_k x) \<and> indexFor (tablelength h) (hash (entry_k x)) = ?i"
      using chains_okD [OF co i] by metis
    then have co': "chains_ok (tablelength h) ((table h)[?i := c'])"
      using c(2,3) by (intro chains_ok_update [OF co i]) auto
    have es: "ht_entries h = (concat (take ?i (table h)) @ xs) @ e # (ys @ concat (drop (Suc ?i) (table h)))"
      "ht_entries h' = (concat (take ?i (table h)) @ xs) @ (ys @ concat (drop (Suc ?i) (table h)))"
      using c(2,3) h' by (simp_all add: concat_split_nth [OF i] concat_update_split [OF i])
    have "entrycount h' = of_nat (length (ht_entries h'))"
      using h' inv es by (simp add: ht_inv_def)
    then have "ht_inv h'" using inv h' co' by (auto simp: ht_inv_def)
    moreover have "v' = hashtable_search h k" using v' c(1) by (simp add: hashtable_search_def)
    moreover have "\<exists>e xs ys. ht_entries h = xs @ e # ys \<and> ht_entries h' = xs @ ys \<and> entry_k e = k \<and> entry_v e = v"
      using es c(4,5) by blast
    ultimately show ?thesis using v' by blast
  qed
  then show "v' = hashtable_search h k" "ht_inv h'" "v' = None \<Longrightarrow> h' = h"
    "v' = Some v \<Longrightarrow>
      \<exists>e xs ys. ht_entries h = xs @ e # ys \<and> ht_entries h' = xs @ ys \<and> entry_k e = k \<and> entry_v e = v"
    by blast+
qed

lemma hashtable_remove_map:
  assumes "ht_inv h" "ht_distinct h" "hashtable_remove h k = (v', h')"
  shows "ht_distinct h' \<and> hashtable_search h' = (hashtable_search h)(k := None)"
proof (cases v')
  case None
  then show ?thesis using hashtable_remove_correct [OF assms(1,3)] assms(2) by (simp add: fun_upd_idem)
next
  case (Some v)
  from hashtable_remove_correct(4) [OF assms(1,3) Some]
  obtain e xs ys where es: "ht_entries h = xs @ e # ys" "ht_entries h' = xs @ ys" "entry_k e = k"
    by blast
  have d: "distinct (map entry_k (xs @ e # ys))" using assms(2) es(1) by (simp add: ht_distinct_def)
  then have "k \<notin> entry_k ` set xs" "k \<notin> entry_k ` set ys" using es(3) by auto
  then have "\<forall>x\<in>set xs. entry_k x \<noteq> k" "\<forall>x\<in>set ys. entry_k x \<noteq> k" by blast+
  then have "ht_map h' = (ht_map h)(k := None)"
    unfolding ht_map_def es(1,2)
    by (auto simp: fun_eq_iff es(3) map_add_def map_of_skip split: option.split)
  moreover have "ht_distinct h'" using d unfolding ht_distinct_def es(2) by simp
  ultimately show ?thesis
    using hashtable_remove_correct(2) [OF assms(1,3)] assms(1) by (simp add: hashtable_search_eq fun_eq_iff)
qed

section \<open>Creation and destruction\<close>

lemma find_prime_correct:
  "\<exists>p\<in>set ps. minsize < p \<Longrightarrow> find_prime minsize ps p0 = (pindex, sz) \<Longrightarrow>
     \<exists>j<length ps. pindex = p0 + of_nat j \<and> sz = ps ! j \<and> minsize < sz"
proof (induction ps arbitrary: p0)
  case Nil
  then show ?case by simp
next
  case (Cons p ps)
  show ?case
  proof (cases "minsize < p")
    case True
    with Cons.prems show ?thesis by (intro exI [of _ 0]) auto
  next
    case False
    with Cons obtain j where "j < length ps" "pindex = p0 + 1 + of_nat j" "sz = ps ! j" "minsize < sz"
      by fastforce
    then show ?thesis by (intro exI [of _ "Suc j"]) auto
  qed
qed

lemma create_hashtable_correct:
  assumes "create_hashtable h_ok table_ok minsize = Some h"
  shows "ht_inv h \<and> ht_distinct h \<and> hashtable_search h = Map.empty \<and> minsize < tablelength h"
proof -
  obtain pindex sz where fp: "find_prime minsize primes 0 = (pindex, sz)"
    by (cases "find_prime minsize primes 0")
  have le: "\<not> push_bit 30 1 < minsize"
    and h: "h = \<lparr>tablelength = sz, table = replicate (unat sz) [], entrycount = 0,
                loadlimit = load_limit sz, primeindex = pindex\<rparr>"
    using assms fp by (auto simp: create_hashtable_def split: if_splits)
  have "minsize \<le> 1073741824" using le by (simp add: push_bit_eq_mult)
  then have "minsize < 1610612741" by (rule le_less_trans) simp
  moreover have "1610612741 \<in> set primes" by (simp add: primes_def)
  ultimately obtain j where j: "j < 26" "pindex = of_nat j" "sz = primes ! j" "minsize < sz"
    using find_prime_correct [OF _ fp] by auto
  have "unat pindex = j" using j(1,2) by (simp add: unat_of_nat)
  then have "ht_inv h" using h j by (simp add: ht_inv_def chains_ok_replicate)
  moreover have "ht_distinct h" using h by (simp add: ht_distinct_def)
  moreover have "hashtable_search h = Map.empty"
    using hashtable_search_eq [OF \<open>ht_inv h\<close>] h by (simp add: fun_eq_iff ht_map_def)
  ultimately show ?thesis using h j(4) by simp
qed

lemma create_hashtable_total:
  "minsize \<le> 1073741824 \<Longrightarrow> \<exists>h. create_hashtable True True minsize = Some h"
  by (auto simp: create_hashtable_def push_bit_eq_mult split: prod.split)

lemma chain_destroy_eq:
  "chain_destroy fv c (vs, n) = (vs @ (if fv then map entry_v c else []), n + length c)"
  by (induction c arbitrary: vs n) auto

lemma hashtable_destroy_correct:
  assumes "ht_inv h"
  shows "hashtable_destroy h fv =
    (if fv then map entry_v (ht_entries h) else [], length (ht_entries h))"
proof -
  have "fold (chain_destroy fv) cs (vs, n) =
      (vs @ (if fv then map entry_v (concat cs) else []), n + length (concat cs))" for cs :: "'a entry list list" and vs n
    by (induction cs arbitrary: vs n) (auto simp: chain_destroy_eq)
  then show ?thesis using ht_inv_chains [OF assms] by (simp add: hashtable_destroy_def chains_ok_def)
qed

section \<open>The contract\<close>

interpretation ht: keyed_table "\<lambda>h. ht_inv h \<and> ht_distinct h" hashtable_search hashtable_insert hashtable_remove
proof unfold_locales
  show "(ht_inv m' \<and> ht_distinct m') \<and> hashtable_search m' = (hashtable_search m)(k \<mapsto> v)"
    if "ht_inv m \<and> ht_distinct m" "hashtable_search m k = None"
      "hashtable_insert al m k v = Some (r, m')" "r \<noteq> 0" for m k al v r and m' :: "'a hashtable"
    using that hashtable_insert_correct(1) [of m al k v r m'] hashtable_insert_map [of m k al v r m']
    by simp
next
  fix m m' :: "'a hashtable" and k al v r
  assume a: "ht_inv m \<and> ht_distinct m" "hashtable_insert al m k v = Some (r, m')" "r = 0"
  then have ic: "ht_inv m'" "mset (ht_entries m') = mset (ht_entries m)"
    using hashtable_insert_correct [of m al k v r m'] by auto
  then have "ht_distinct m' \<and> ht_map m' = ht_map m" using a(1) ht_map_mset by blast
  then show "(ht_inv m' \<and> ht_distinct m') \<and> hashtable_search m' = hashtable_search m"
    using a(1) ic(1) by (simp add: hashtable_search_eq fun_eq_iff)
next
  show "v' = hashtable_search m k \<and> (ht_inv m' \<and> ht_distinct m') \<and>
      hashtable_search m' = (hashtable_search m)(k := None)"
    if "ht_inv m \<and> ht_distinct m" "hashtable_remove m k = (v', m')" for m k v' and m' :: "'a hashtable"
    using that hashtable_remove_correct [of m k v' m'] hashtable_remove_map [of m k v' m'] by simp
qed


section \<open>The load factor\<close>

lemma load_limits:
  "map load_limit primes =
    [35, 64, 126, 253, 500, 1003, 2002, 3999, 7988, 15986, 31953, 63907, 127799, 255607,
     511182, 1022365, 2044731, 4089455, 8178896, 16357798, 32715572, 65431156, 130862288,
     261724560, 523449152, 1046898240]"
  by code_simp

lemma load_limit_grows:
  assumes "i < 25"
  shows "load_limit (primes ! i) < load_limit (primes ! Suc i)"
proof -
  have "load_limit (primes ! j) = map load_limit primes ! j" if "j < 26" for j
    using that by simp
  then have "load_limit (primes ! i) = map load_limit primes ! i"
    "load_limit (primes ! Suc i) = map load_limit primes ! Suc i" using assms by simp_all
  moreover have "\<forall>i\<in>set [0..<25]. map load_limit primes ! i < map load_limit primes ! Suc i"
    unfolding load_limits by (simp add: upt_rec)
  ultimately show ?thesis using assms by simp
qed

lemma load_limit_below: "\<forall>p\<in>set primes. load_limit p < p"
proof -
  have "list_all2 (<) (map load_limit primes) primes"
    unfolding load_limits by (simp add: primes_def)
  then show ?thesis by (auto simp: list_all2_conv_all_nth in_set_conv_nth)
qed


section \<open>Properties\<close>



text \<open>
  C8: Every operation keeps the structural invariant of the table: each entry sits in the chain
  its hash selects, the table has the length of its prime, the load limit belongs to that
  length, and the entry count is the number of entries. This holds with duplicate keys too, and
  a value just inserted is found by the next search even if its key was present.
\<close>

theorem hashtable_operations_keep_invariant:
  assumes "ht_inv h"
  shows "(\<forall>al v r h'. hashtable_insert al h k v = Some (r, h') \<longrightarrow>
      ht_inv h' \<and> (if snd al then r = -1 \<and> hashtable_search h' k = Some v \<and> hashtable_count h' = hashtable_count h + 1
                   else r = 0 \<and> hashtable_count h' = hashtable_count h)) \<and>
    (\<forall>v h'. hashtable_remove h k = (v, h') \<longrightarrow>
      ht_inv h' \<and> v = hashtable_search h k \<and>
      hashtable_count h' = (if v = None then hashtable_count h else hashtable_count h - 1))"
proof (intro conjI allI impI)
  fix al v r h' assume i: "hashtable_insert al h k v = Some (r, h')"
  show "ht_inv h'" "if snd al then r = -1 \<and> hashtable_search h' k = Some v \<and> hashtable_count h' = hashtable_count h + 1
                   else r = 0 \<and> hashtable_count h' = hashtable_count h"
    using hashtable_insert_cases [OF assms i] hashtable_insert_correct [OF assms i]
    by (auto simp: hashtable_count_def split: if_splits)
next
  fix v h' assume r: "hashtable_remove h k = (v, h')"
  show "ht_inv h'" "v = hashtable_search h k"
      "hashtable_count h' = (if v = None then hashtable_count h else hashtable_count h - 1)"
    using hashtable_remove_correct [OF assms r] r
    by (auto simp: hashtable_count_def hashtable_remove_def Let_def split: option.splits)
qed

theorem hashtable_operations_keep_invariant_witness:
  "\<exists>h h'. create_hashtable True True 16 = Some (h :: string hashtable) \<and>
     hashtable_insert (Malloc_ok, True) h 1 ''a'' = Some (-1, h') \<and> ht_inv h'"
proof -
  let ?h = "the (create_hashtable True True 16) :: string hashtable"
  have c: "create_hashtable True True 16 = Some ?h" by code_simp
  have i: "hashtable_insert (Malloc_ok, True) ?h 1 ''a'' = Some (-1, snd (the (hashtable_insert (Malloc_ok, True) ?h 1 ''a'')))"
    by code_simp
  have "ht_inv ?h" using create_hashtable_correct [OF c] by simp
  from hashtable_operations_keep_invariant [OF this, THEN conjunct1, rule_format, OF i] c i show ?thesis by blast
qed

text \<open>
  As long as memory lasts and the last prime is not reached, insertion keeps the number of
  entries at or below the load limit, which is below the table length, with the load limit
  computed in single precision as the code does.
\<close>

theorem hashtable_load_bounded:
  assumes inv: "ht_inv h" and load: "entrycount h \<le> loadlimit h"
    and room: "primeindex h \<noteq> prime_table_length - 1"
    and ins: "hashtable_insert (Malloc_ok, True) h k v = Some (r, h')"
  shows "entrycount h' \<le> loadlimit h' \<and> loadlimit h' < tablelength h'"
proof -
  have inv': "ht_inv h'" using hashtable_insert_correct(1) [OF inv ins] .
  have below: "loadlimit h' < tablelength h'" using inv' load_limit_below by (auto simp: ht_inv_def)
  have pi: "unat (primeindex h) < 26" and ll: "loadlimit h = load_limit (primes ! unat (primeindex h))"
    using inv unfolding ht_inv_def by auto
  note pi' = unat_Suc_primeindex [OF pi room]
  have "entrycount h' \<le> loadlimit h'"
  proof (cases "entrycount h + 1 > loadlimit h")
    case True
    have "load_limit (primes ! unat (primeindex h)) < load_limit (primes ! unat (primeindex h + 1))"
      using pi' load_limit_grows [of "unat (primeindex h)"] by auto
    then have "entrycount h < load_limit (primes ! unat (primeindex h + 1))" using load ll by simp
    then have "entrycount h + 1 \<le> load_limit (primes ! unat (primeindex h + 1))" by (rule inc_le)
    with True room ins show ?thesis by (auto simp: hashtable_insert_def hashtable_expand_def Let_def)
  next
    case False
    with ins show ?thesis by (auto simp: hashtable_insert_def Let_def)
  qed
  with below show ?thesis by simp
qed

theorem hashtable_load_bounded_witness:
  "\<exists>h h'. create_hashtable True True 16 = Some (h :: string hashtable) \<and>
     hashtable_insert (Malloc_ok, True) h 1 ''a'' = Some (-1, h') \<and> entrycount h' \<le> loadlimit h'"
proof -
  let ?h = "the (create_hashtable True True 16) :: string hashtable"
  have c: "create_hashtable True True 16 = Some ?h" by code_simp
  have i: "hashtable_insert (Malloc_ok, True) ?h 1 ''a'' = Some (-1, snd (the (hashtable_insert (Malloc_ok, True) ?h 1 ''a'')))"
    by code_simp
  have inv: "ht_inv ?h" using create_hashtable_correct [OF c] by simp
  have load: "entrycount ?h \<le> loadlimit ?h" and room: "primeindex ?h \<noteq> prime_table_length - 1" by code_simp+
  from hashtable_load_bounded [OF inv load room i] c i show ?thesis by blast
qed

text \<open>
  \<open>create_hashtable\<close> returns a table longer than the requested size for every size up to
  the limit it checks, and that table is empty; larger requests and failed allocations give a
  null pointer.
\<close>

theorem create_hashtable_spec:
  fixes minsize :: uint
  shows "if minsize \<le> 1073741824 \<and> h_ok \<and> table_ok
     then (\<exists>h :: 'v hashtable. create_hashtable h_ok table_ok minsize = Some h \<and> ht_inv h \<and>
             hashtable_count h = 0 \<and> hashtable_search h = Map.empty \<and> minsize < tablelength h)
     else create_hashtable h_ok table_ok minsize = (None :: 'v hashtable option)"
proof (cases "minsize \<le> 1073741824 \<and> h_ok \<and> table_ok")
  case True
  then obtain h :: "'v hashtable" where h: "create_hashtable True True minsize = Some h"
    using create_hashtable_total by blast
  moreover have "entrycount h = 0" using h by (auto simp: create_hashtable_def split: if_splits prod.splits)
  ultimately show ?thesis using True create_hashtable_correct [OF h] by (simp add: hashtable_count_def)
next
  case False
  then show ?thesis by (auto simp: create_hashtable_def push_bit_eq_mult not_less split: prod.split)
qed

end
