(* ===== verification/Pool_Spec.thy ===== *)
theory Pool_Spec
  imports Prelude
begin

text \<open>
  The contract between the lock pool (\<open>src/proxy_pool.c\<close>) and the code that takes items
  from it: client threads (\<open>proxy.c\<close>), backend connections and backend threads
  (\<open>proxy_backend.c\<close>). A pool is a set of numbered items, each free or in use; a search
  takes one free item or says that there is none, and returning an item makes it free again.
\<close>

text \<open>Taking items one after the other, one search per random number.\<close>

fun take_items :: "(nat \<Rightarrow> 'p \<Rightarrow> (int \<times> 'p) option) \<Rightarrow> nat list \<Rightarrow> 'p \<Rightarrow> (int list \<times> 'p) option" where
  "take_items seize [] p = Some ([], p)"
| "take_items seize (r # rs) p =
     do { (i, p) \<leftarrow> seize r p; (js, p) \<leftarrow> take_items seize rs p; Some (i # js, p) }"

locale lock_pool =
  fixes inv :: "'p \<Rightarrow> bool"
    and items :: "'p \<Rightarrow> int"
    and free :: "'p \<Rightarrow> int \<Rightarrow> bool"
    and seize :: "nat \<Rightarrow> 'p \<Rightarrow> (int \<times> 'p) option"
    and giveback :: "'p \<Rightarrow> int \<Rightarrow> 'p option"
  assumes free_range: "free p i \<Longrightarrow> 0 \<le> i \<and> i < items p"
    and seize_total: "inv p \<Longrightarrow> 0 < items p \<Longrightarrow> \<exists>i p'. seize r p = Some (i, p')"
    and seize_hit: "inv p \<Longrightarrow> 0 < items p \<Longrightarrow> seize r p = Some (i, p') \<Longrightarrow> 0 \<le> i \<Longrightarrow>
        inv p' \<and> items p' = items p \<and> free p i \<and> free p' = (free p)(i := False)"
    and seize_miss: "inv p \<Longrightarrow> 0 < items p \<Longrightarrow> seize r p = Some (i, p') \<Longrightarrow> i < 0 \<Longrightarrow>
        p' = p \<and> (\<forall>i. \<not> free p i)"
    and giveback_ok: "inv p \<Longrightarrow> 0 \<le> i \<Longrightarrow> i < items p \<Longrightarrow>
        \<exists>p'. giveback p i = Some p' \<and> inv p' \<and> items p' = items p \<and> free p' = (free p)(i := True)"
begin

lemma seize_free:
  assumes "inv p" "free p j"
  shows "\<exists>i p'. seize r p = Some (i, p') \<and> 0 \<le> i"
proof -
  have pos: "0 < items p" using free_range [OF assms(2)] by simp
  obtain i p' where t: "seize r p = Some (i, p')" using seize_total [OF assms(1) pos] by blast
  then have "0 \<le> i" using seize_miss [OF assms(1) pos t] assms(2) by fastforce
  with t show ?thesis by blast
qed

lemma seize_giveback:
  assumes "inv p" "0 < items p" "seize r p = Some (i, p')" "0 \<le> i"
  shows "\<exists>p''. giveback p' i = Some p'' \<and> inv p'' \<and> items p'' = items p \<and> free p'' = free p"
proof -
  note h = seize_hit [OF assms]
  have "i < items p'" using h free_range by auto
  from giveback_ok [OF _ assms(4) this] h show ?thesis by (fastforce simp: fun_eq_iff)
qed

lemma free_finite: "finite {i. free p i}"
  by (rule finite_subset [of _ "{0..items p}"]) (auto dest: free_range)

text \<open>As many searches as there are free items take each of them once.\<close>

lemma take_items_all:
  assumes "inv p" "0 < items p" "length rs \<le> card {i. free p i}"
  shows "\<exists>js p'. take_items seize rs p = Some (js, p') \<and> distinct js \<and> length js = length rs \<and>
    set js \<subseteq> {i. free p i} \<and> inv p' \<and> items p' = items p \<and>
    {i. free p' i} = {i. free p i} - set js"
  using assms
proof (induction rs arbitrary: p)
  case Nil
  then show ?case by simp
next
  case (Cons r rs)
  then have "{i. free p i} \<noteq> {}" by (intro notI) simp
  then obtain i p1 where t: "seize r p = Some (i, p1)" "0 \<le> i" using seize_free [OF Cons.prems(1)] by blast
  note h = seize_hit [OF Cons.prems(1,2) t]
  have f: "{j. free p1 j} = {j. free p j} - {i}" using h by auto
  have "length rs \<le> card {j. free p1 j}" using Cons.prems(3) h unfolding f by (simp add: card_Diff_singleton)
  then obtain js p' where "take_items seize rs p1 = Some (js, p')" "distinct js" "length js = length rs"
      "set js \<subseteq> {j. free p1 j}" "inv p'" "items p' = items p1" "{j. free p' j} = {j. free p1 j} - set js"
    using Cons.IH [of p1] Cons.prems(2) h by auto
  then show ?case using t h unfolding f by (intro exI [of _ "i # js"] exI [of _ p']) (simp, blast)
qed

lemma take_items_exhaust:
  assumes "inv p" "0 < items p" "length rs = card {i. free p i}"
  shows "\<exists>js p' i. take_items seize rs p = Some (js, p') \<and> distinct js \<and> set js = {i. free p i} \<and>
    inv p' \<and> items p' = items p \<and> seize r p' = Some (i, p') \<and> i < 0"
proof -
  obtain js p' where t: "take_items seize rs p = Some (js, p')" "distinct js" "length js = length rs"
      "set js \<subseteq> {i. free p i}" "inv p'" "items p' = items p" "{i. free p' i} = {i. free p i} - set js"
    using take_items_all [OF assms(1,2) eq_refl [OF assms(3)]] by blast
  have s: "set js = {i. free p i}"
    using t(2-4) assms(3) free_finite by (intro card_subset_eq) (auto simp: distinct_card)
  obtain i q where q: "seize r p' = Some (i, q)" using seize_total t(5,6) assms(2) by metis
  have "\<not> free p' i" using s t(7) by blast
  then have "i < 0" using seize_hit [OF t(5) _ q] t(6) assms(2) by force
  with seize_miss [OF t(5) _ q] t s q assms(2) show ?thesis by auto
qed

end

end
