(* ===== verification/Pool.thy ===== *)
theory Pool
  imports Pool_Spec
begin

text \<open>
  The lock pool of \<open>src/proxy_pool.c\<close>: an array of availability flags from which client
  threads, backend connections and backend threads are taken. The operations are functions on
  the structure; each is one critical section under the mutex of the pool, so it is one step of
  the thread system below. The random start of the search is an argument. Calls of malloc are
  taken to succeed, as the code assumes.

  The theory shows which item a search takes, that taking and returning keep the flags and the
  counter consistent, that two threads never hold the same item, that resizing keeps the
  states of the items, and what removal and the wait for an item really do.
\<close>

section \<open>Data and operations\<close>

record pool_t =
  pool_size :: int
  pool_alloc :: int
  pool_locked :: int
  avail :: "bool list"

text \<open>
  The loop \<open>while (alloc < size) alloc <<= 1\<close>. It has no result when the shift overflows.
\<close>

partial_function (option) grow_alloc :: "int \<Rightarrow> int \<Rightarrow> int option" where
  "grow_alloc alloc sz =
     (if alloc < sz then do { alloc \<leftarrow> shl_int alloc 1; grow_alloc alloc sz } else Some alloc)"

definition proxy_pool_new :: "int \<Rightarrow> pool_t option option" where
  "proxy_pool_new sz =
     (if sz \<le> 0 then Some None
      else do {
        alloc \<leftarrow> grow_alloc 1 sz;
        a \<leftarrow> for_each [0..alloc - 1] (\<lambda>i a. write_at a i True) (replicate (nat alloc) False);
        Some (Some \<lparr>pool_size = sz, pool_alloc = alloc, pool_locked = 0, avail = a\<rparr>)
      })"

definition proxy_pool_set_size :: "pool_t \<Rightarrow> int \<Rightarrow> pool_t option" where
  "proxy_pool_set_size pool sz =
     (if sz = pool_size pool then Some pool
      else do {
        alloc \<leftarrow> grow_alloc 1 sz;
        pool \<leftarrow>
          (if alloc \<noteq> pool_alloc pool then do {
             let pool = (if pool_size pool > alloc then pool\<lparr>pool_size := alloc\<rparr> else pool);
             a \<leftarrow> for_each [0..pool_size pool - 1]
                   (\<lambda>i a. do { b \<leftarrow> read_at (avail pool) i; write_at a i b })
                   (replicate (nat alloc) False);
             a \<leftarrow> for_each [pool_size pool..alloc - 1] (\<lambda>i a. write_at a i True) a;
             Some (pool\<lparr>avail := a, pool_alloc := alloc\<rparr>)
           }
           else Some pool);
        Some (pool\<lparr>pool_size := sz\<rparr>)
      })"

definition proxy_pool_remove :: "pool_t \<Rightarrow> int \<Rightarrow> pool_t option" where
  "proxy_pool_remove pool idx =
     (if idx \<ge> pool_size pool then Some pool
      else do {
        pool \<leftarrow> proxy_pool_set_size pool (pool_size pool - 1);
        a \<leftarrow> for_each [idx..pool_size pool - 1 - 1]
              (\<lambda>i a. do { b \<leftarrow> read_at a (i + 1); write_at a i b }) (avail pool);
        Some (pool\<lparr>avail := a\<rparr>)
      })"

text \<open>The search loop: \<open>n\<close> iterations are left.\<close>

fun pool_try_loop :: "nat \<Rightarrow> int \<Rightarrow> pool_t \<Rightarrow> (int \<times> pool_t) option" where
  "pool_try_loop 0 pi pool = Some (-1, pool)"
| "pool_try_loop (Suc n) pi pool =
     do {
       let pi = (pi + 1) mod pool_size pool;
       free \<leftarrow> read_at (avail pool) pi;
       if free then do {
         a \<leftarrow> write_at (avail pool) pi False;
         Some (pi, pool\<lparr>avail := a, pool_locked := pool_locked pool + 1\<rparr>)
       }
       else pool_try_loop n pi pool
     }"

definition pool_try_locks :: "nat \<Rightarrow> pool_t \<Rightarrow> (int \<times> pool_t) option" where
  "pool_try_locks rand pool =
     (if pool_size pool = 0 then None
      else pool_try_loop (nat (pool_size pool)) (int rand mod pool_size pool) pool)"

text \<open>
  Waiting for an item: each time the thread is woken the other threads have changed the pool
  (a function), and the search starts at a new random place. The call is still waiting when the
  list of wake-ups ends without an item.
\<close>

datatype get_result = Got int pool_t | Still_waiting pool_t

fun pool_get_wait :: "((pool_t \<Rightarrow> pool_t) \<times> nat) list \<Rightarrow> pool_t \<Rightarrow> get_result option" where
  "pool_get_wait [] pool = Some (Still_waiting pool)"
| "pool_get_wait ((others, rand) # wakes) pool =
     do {
       (idx, pool) \<leftarrow> pool_try_locks rand (others pool);
       if idx \<ge> 0 then Some (Got idx pool) else pool_get_wait wakes pool
     }"

definition proxy_pool_get ::
  "nat \<Rightarrow> ((pool_t \<Rightarrow> pool_t) \<times> nat) list \<Rightarrow> pool_t \<Rightarrow> get_result option" where
  "proxy_pool_get rand wakes pool =
     do {
       (idx, pool) \<leftarrow> pool_try_locks rand pool;
       if idx \<ge> 0 then Some (Got idx pool) else pool_get_wait wakes pool
     }"

definition proxy_pool_is_free :: "pool_t \<Rightarrow> int \<Rightarrow> bool option" where
  "proxy_pool_is_free pool idx =
     (if idx > pool_size pool then Some False else read_at (avail pool) idx)"

fun pool_locked_loop :: "int list \<Rightarrow> pool_t \<Rightarrow> int option" where
  "pool_locked_loop [] pool = Some (-1)"
| "pool_locked_loop (i # is) pool =
     do { b \<leftarrow> read_at (avail pool) i; if \<not> b then Some i else pool_locked_loop is pool }"

definition proxy_pool_get_locked :: "pool_t \<Rightarrow> int option" where
  "proxy_pool_get_locked pool = pool_locked_loop [0..pool_size pool - 1] pool"

text \<open>Returning an item; the signal that follows is a step of its own in the thread system.\<close>

definition proxy_pool_return :: "pool_t \<Rightarrow> int \<Rightarrow> pool_t option" where
  "proxy_pool_return pool idx =
     do {
       free \<leftarrow> read_at (avail pool) idx;
       if free then Some pool
       else do {
         a \<leftarrow> write_at (avail pool) idx True;
         Some (pool\<lparr>pool_locked := pool_locked pool - 1, avail := a\<rparr>)
       }
     }"

section \<open>The size of the array\<close>

lemma grow_alloc_step:
  "alloc < sz \<Longrightarrow> 0 < alloc \<Longrightarrow> 2 * alloc \<le> INT_MAX \<Longrightarrow> grow_alloc alloc sz = grow_alloc (2 * alloc) sz"
  by (subst grow_alloc.simps) (simp add: shl_int_def mult.commute)

lemma grow_alloc_stop: "sz \<le> alloc \<Longrightarrow> grow_alloc alloc sz = Some alloc"
  by (subst grow_alloc.simps) simp

text \<open>From \<open>2 ^ j\<close> the loop reaches the least power of two that is large enough.\<close>

lemma grow_alloc_power:
  assumes "2 ^ j < sz \<or> j = 0" "sz \<le> 2 ^ 30"
  shows "\<exists>m. grow_alloc (2 ^ j) sz = Some (2 ^ m) \<and> sz \<le> 2 ^ m \<and> m \<le> 30 \<and> (2 ^ m < 2 * sz \<or> m = 0)"
  using assms
proof (induction "30 - j" arbitrary: j)
  case 0
  then have "(2::int) ^ 30 \<le> 2 ^ j" by (intro power_increasing) auto
  with 0 show ?case by (auto dest!: less_le_trans)
next
  case (Suc n)
  show ?case
  proof (cases "2 ^ j < sz")
    case True
    have j: "j < 30" using Suc.hyps(2) by simp
    then have "(2::int) ^ Suc j \<le> 2 ^ 30" by (intro power_increasing) auto
    then have step: "grow_alloc (2 ^ j) sz = grow_alloc (2 ^ Suc j) sz"
      using True by (subst grow_alloc_step) auto
    show ?thesis
    proof (cases "2 ^ Suc j < sz")
      case True
      moreover have "n = 30 - Suc j" using Suc.hyps(2) by simp
      ultimately show ?thesis using Suc.hyps(1) [of "Suc j"] Suc.prems(2) unfolding step by blast
    next
      case False
      then have "grow_alloc (2 ^ Suc j) sz = Some (2 ^ Suc j)" by (intro grow_alloc_stop) simp
      with step False \<open>2 ^ j < sz\<close> j show ?thesis by (intro exI [of _ "Suc j"]) auto
    qed
  next
    case False
    with Suc.prems have "j = 0" by simp
    with False show ?thesis by (intro exI [of _ 0]) (auto intro: grow_alloc_stop)
  qed
qed

lemma grow_alloc_total:
  assumes "sz \<le> 2 ^ 30"
  shows "\<exists>m. grow_alloc 1 sz = Some (2 ^ m) \<and> sz \<le> 2 ^ m \<and> (2 ^ m < 2 * sz \<or> m = 0)"
  using grow_alloc_power [of 0 sz] assms by auto

section \<open>The invariant\<close>

abbreviation used :: "bool list \<Rightarrow> nat" where
  "used a \<equiv> length (filter Not a)"

text \<open>
  The flags of the items in use are counted by \<open>pool_locked\<close>, and the flags beyond the size,
  which a later growth without reallocation exposes, are all set.
\<close>

definition pool_inv :: "pool_t \<Rightarrow> bool" where
  "pool_inv p \<longleftrightarrow> 0 \<le> pool_size p \<and> pool_size p \<le> pool_alloc p \<and>
     int (length (avail p)) = pool_alloc p \<and>
     pool_locked p = int (used (take (nat (pool_size p)) (avail p))) \<and>
     (\<forall>i. pool_size p \<le> i \<and> i < pool_alloc p \<longrightarrow> avail p ! nat i)"

text \<open>The availability of item \<open>i\<close>, for items of the pool.\<close>

definition item_free :: "pool_t \<Rightarrow> int \<Rightarrow> bool" where
  "item_free p i \<longleftrightarrow> 0 \<le> i \<and> i < pool_size p \<and> avail p ! nat i"

lemma for_each_set_all:
  "0 \<le> n \<Longrightarrow> for_each [0..n - 1] (\<lambda>i a. write_at a i True) (replicate (nat n) b) = Some (replicate (nat n) True)"
  using for_each_write [of 0 n "replicate (nat n) b" "\<lambda>_. True"]
  by (simp add: map_replicate_const)

lemma proxy_pool_new_correct:
  assumes "0 < sz" "sz \<le> 2 ^ 30"
  obtains m where "proxy_pool_new sz =
      Some (Some \<lparr>pool_size = sz, pool_alloc = 2 ^ m, pool_locked = 0, avail = replicate (2 ^ m) True\<rparr>)"
    and "sz \<le> 2 ^ m" and "2 ^ m < 2 * sz"
proof -
  obtain m where m: "grow_alloc 1 sz = Some (2 ^ m)" "sz \<le> 2 ^ m" "2 ^ m < 2 * sz \<or> m = 0"
    using grow_alloc_total [OF assms(2)] by blast
  have "2 ^ m < 2 * sz" using m(3) assms(1) by auto
  moreover have "nat (2 ^ m) = (2 ^ m :: nat)" by (simp add: nat_power_eq)
  ultimately show ?thesis using that m assms(1) for_each_set_all [of "2 ^ m" False]
    by (auto simp: proxy_pool_new_def)
qed

lemma used_replicate [simp]: "used (replicate n True) = 0"
  by (induction n) auto

lemma pool_inv_new:
  assumes "proxy_pool_new sz = Some (Some p)" "sz \<le> 2 ^ 30"
  shows "pool_inv p \<and> pool_size p = sz \<and> (\<forall>i. 0 \<le> i \<and> i < sz \<longrightarrow> item_free p i)"
proof -
  have "0 < sz" using assms(1) by (auto simp: proxy_pool_new_def split: if_splits)
  then show ?thesis using assms
    by (elim proxy_pool_new_correct [of sz]) (auto simp: pool_inv_def item_free_def nat_less_iff)
qed

section \<open>Searching, returning\<close>

lemma pool_try_loop_spec:
  assumes "0 < pool_size p" "pool_size p \<le> int (length (avail p))"
  shows "pool_try_loop n pi p =
    (case filter (\<lambda>j. avail p ! nat j) (map (\<lambda>d. (pi + 1 + int d) mod pool_size p) [0..<n]) of
       [] \<Rightarrow> Some (-1, p)
     | j # _ \<Rightarrow> Some (j, p\<lparr>avail := (avail p)[nat j := False], pool_locked := pool_locked p + 1\<rparr>))"
proof (induction n arbitrary: pi)
  case 0
  then show ?case by simp
next
  case (Suc n)
  let ?j = "(pi + 1) mod pool_size p"
  have j: "0 \<le> ?j" "?j < int (length (avail p))"
    using assms(2) pos_mod_sign [OF assms(1)] pos_mod_bound [OF assms(1), of "pi + 1"]
    by (simp, linarith)
  have "(?j + (1 + int d)) mod pool_size p = (pi + 1 + (1 + int d)) mod pool_size p" for d
    by (rule mod_add_left_eq)
  then have "map (\<lambda>d. (pi + 1 + int d) mod pool_size p) [0..<Suc n] =
      ?j # map (\<lambda>d. (?j + 1 + int d) mod pool_size p) [0..<n]"
    unfolding upt_conv_Cons [OF zero_less_Suc] map_Suc_upt [symmetric]
    by (simp add: comp_def add.assoc)
  then show ?case using j Suc.IH [of ?j] by (simp add: Let_def)
qed

lemma rotation_covers:
  assumes "0 \<le> i" "i < (n :: int)"
  shows "\<exists>d<nat n. (pi + 1 + int d) mod n = i"
proof (intro exI conjI)
  let ?d = "(i - pi - 1) mod n"
  have d: "0 \<le> ?d" "?d < n" using assms by simp_all
  then show "nat ?d < nat n" using assms by simp
  have "(pi + 1 + ?d) mod n = i mod n" by (simp add: mod_add_right_eq)
  then show "(pi + 1 + int (nat ?d)) mod n = i" using assms d by simp
qed

lemma pool_inv_lock:
  assumes "pool_inv p" "item_free p i"
  shows "pool_inv (p\<lparr>avail := (avail p)[nat i := False], pool_locked := pool_locked p + 1\<rparr>)"
proof -
  have i: "0 \<le> i" "i < pool_size p" "avail p ! nat i" using assms(2) by (auto simp: item_free_def)
  then have "nat i < length (take (nat (pool_size p)) (avail p))" using assms(1) by (auto simp: pool_inv_def)
  from length_filter_update [OF this, of Not False] i assms(1) show ?thesis
    by (auto simp: pool_inv_def take_update_swap nth_list_update)
qed

lemma pool_inv_unlock:
  assumes "pool_inv p" "0 \<le> i" "i < pool_size p" "\<not> avail p ! nat i"
  shows "pool_inv (p\<lparr>pool_locked := pool_locked p - 1, avail := (avail p)[nat i := True]\<rparr>)"
proof -
  have "nat i < length (take (nat (pool_size p)) (avail p))" using assms by (auto simp: pool_inv_def)
  from length_filter_update [OF this, of Not True] assms show ?thesis
    by (auto simp: pool_inv_def take_update_swap nth_list_update)
qed

lemma pool_try_locks_cases:
  assumes inv: "pool_inv p" and pos: "0 < pool_size p"
  obtains (found) d where
      "pool_try_locks r p = Some ((int r mod pool_size p + 1 + int d) mod pool_size p,
         p\<lparr>avail := (avail p)[nat ((int r mod pool_size p + 1 + int d) mod pool_size p) := False],
           pool_locked := pool_locked p + 1\<rparr>)"
      and "item_free p ((int r mod pool_size p + 1 + int d) mod pool_size p)"
      and "\<forall>c<d. \<not> item_free p ((int r mod pool_size p + 1 + int c) mod pool_size p)"
  | (none) "pool_try_locks r p = Some (-1, p)" and "\<forall>i. \<not> item_free p i"
proof -
  let ?n = "pool_size p" and ?rot = "\<lambda>d. (int r mod pool_size p + 1 + int d) mod pool_size p"
  let ?l = "map ?rot [0..<nat ?n]"
  have len: "?n \<le> int (length (avail p))" using inv by (simp add: pool_inv_def)
  have free: "item_free p (?rot d) \<longleftrightarrow> avail p ! nat (?rot d)" for d
    using pos by (simp add: item_free_def)
  have eq: "pool_try_locks r p = (case filter (\<lambda>j. avail p ! nat j) ?l of
       [] \<Rightarrow> Some (-1, p)
     | j # _ \<Rightarrow> Some (j, p\<lparr>avail := (avail p)[nat j := False], pool_locked := pool_locked p + 1\<rparr>))"
    using pos by (simp add: pool_try_locks_def pool_try_loop_spec [OF pos len])
  show ?thesis
  proof (cases "filter (\<lambda>j. avail p ! nat j) ?l")
    case Nil
    have "\<not> item_free p i" for i
    proof
      assume f: "item_free p i"
      then obtain d where "d < nat ?n" "?rot d = i"
        using rotation_covers [of i ?n] by (auto simp: item_free_def)
      then have "i \<in> set ?l" by force
      with Nil f show False by (auto simp: filter_empty_conv item_free_def)
    qed
    with Nil eq none show ?thesis by simp
  next
    case (Cons j js)
    then obtain us vs where l: "?l = us @ j # vs" "\<forall>u\<in>set us. \<not> avail p ! nat u" "avail p ! nat j"
      by (auto simp: filter_eq_Cons_iff)
    have nth: "?l ! c = ?rot c" if "c \<le> length us" for c
    proof -
      have "length ?l = length us + Suc (length vs)" using l(1) by (metis length_Cons length_append)
      then have "c < nat ?n" using that by simp
      then show ?thesis by simp
    qed
    have j: "j = ?rot (length us)" using nth [of "length us"] l(1) by (metis le_refl nth_append_length)
    have "\<not> item_free p (?rot c)" if "c < length us" for c
      using nth [of c] l(1,2) that unfolding free by (metis less_imp_le nth_append nth_mem)
    with found [of "length us"] eq Cons l(3) j show ?thesis unfolding free by auto
  qed
qed

lemma proxy_pool_return_correct:
  assumes "pool_inv p" "0 \<le> i" "i < pool_size p"
  shows "proxy_pool_return p i =
      Some (if avail p ! nat i then p
            else p\<lparr>pool_locked := pool_locked p - 1, avail := (avail p)[nat i := True]\<rparr>)"
  using assms by (auto simp: proxy_pool_return_def pool_inv_def)

lemma pool_locked_loop_spec:
  "(\<forall>i\<in>set is. 0 \<le> i \<and> i < int (length (avail p))) \<Longrightarrow>
     pool_locked_loop is p = Some (case filter (\<lambda>i. \<not> avail p ! nat i) is of [] \<Rightarrow> -1 | i # _ \<Rightarrow> i)"
  by (induction "is") auto

section \<open>Resizing\<close>

lemma proxy_pool_set_size_eq:
  assumes inv: "pool_inv p" and sz: "sz \<noteq> pool_size p" and ga: "grow_alloc 1 sz = Some al" and "0 < al"
  shows "proxy_pool_set_size p sz = Some (p\<lparr>pool_size := sz, pool_alloc := al,
      avail := (if al = pool_alloc p then avail p
                else take (nat (min (pool_size p) al)) (avail p) @
                     replicate (nat al - nat (min (pool_size p) al)) True)\<rparr>)"
proof (cases "al = pool_alloc p")
  case True
  with sz ga show ?thesis by (simp add: proxy_pool_set_size_def)
next
  case False
  let ?m = "min (pool_size p) al"
  have m: "0 \<le> ?m" "?m \<le> al" "nat ?m \<le> length (avail p)"
    using inv \<open>0 < al\<close> by (auto simp: pool_inv_def)
  have copy: "for_each [0..?m - 1] (\<lambda>i a. do { b \<leftarrow> read_at (avail p) i; write_at a i b }) a =
      for_each [0..?m - 1] (\<lambda>i a. write_at a i (avail p ! nat i)) a" for a
  proof -
    have "for_each is (\<lambda>i a. do { b \<leftarrow> read_at (avail p) i; write_at a i b }) a =
        for_each is (\<lambda>i a. write_at a i (avail p ! nat i)) a"
      if "\<forall>i\<in>set is. 0 \<le> i \<and> i < int (length (avail p))" for "is" a
      using that by (induction "is" arbitrary: a) (auto split: Option.bind_split)
    moreover have "\<forall>i\<in>set [0..?m - 1]. 0 \<le> i \<and> i < int (length (avail p))"
      using m(3) by (auto simp: nat_le_iff)
    ultimately show ?thesis by blast
  qed
  have "map (\<lambda>i. avail p ! i) [0..<nat ?m] = take (nat ?m) (avail p)"
    using m(3) by (simp add: list_eq_iff_nth_eq)
  then have w1: "for_each [0..?m - 1] (\<lambda>i a. write_at a i (avail p ! nat i)) (replicate (nat al) False) =
      Some (take (nat ?m) (avail p) @ replicate (nat al - nat ?m) False)"
    using for_each_write [of 0 ?m "replicate (nat al) False" "\<lambda>i. avail p ! nat i"] m by simp
  have w2: "for_each [?m..al - 1] (\<lambda>i a. write_at a i True) (take (nat ?m) (avail p) @ replicate (nat al - nat ?m) False) =
      Some (take (nat ?m) (avail p) @ replicate (nat al - nat ?m) True)"
    using for_each_write [of ?m al "take (nat ?m) (avail p) @ replicate (nat al - nat ?m) False" "\<lambda>_. True"] m
    by (simp add: min_def map_replicate_const nat_diff_distrib)
  show ?thesis
  proof (cases "pool_size p > al")
    case True
    with False sz ga copy [of "replicate (nat al) False"] w1 w2 show ?thesis
      by (simp add: proxy_pool_set_size_def Let_def)
  next
    case nle: False
    with False sz ga copy [of "replicate (nat al) False"] w1 w2 show ?thesis
      by (simp add: proxy_pool_set_size_def Let_def)
  qed
qed

lemma used_append [simp]: "used (xs @ ys) = used xs + used ys"
  by simp

lemma used_take_rest:
  assumes "\<forall>i. k \<le> i \<and> i < length a \<longrightarrow> a ! i"
  shows "used (take k a) = used a"
proof -
  have "filter Not (drop k a) = []" using assms by (auto simp: filter_empty_conv in_set_conv_nth)
  then have "used (take k a @ drop k a) = used (take k a)" unfolding used_append by simp
  then show ?thesis by simp
qed

lemma pool_inv_beyond:
  assumes "pool_inv p" "pool_size p \<le> int i" "i < length (avail p)"
  shows "avail p ! i"
proof -
  have "\<forall>i. pool_size p \<le> i \<and> i < pool_alloc p \<longrightarrow> avail p ! nat i" and "int i < pool_alloc p"
    using assms by (auto simp: pool_inv_def)
  from spec [OF this(1), of "int i"] this(2) assms(2) show ?thesis by simp
qed

lemma pool_inv_all_used: "pool_inv p \<Longrightarrow> pool_locked p = int (used (avail p))"
proof -
  assume inv: "pool_inv p"
  have "avail p ! i" if "nat (pool_size p) \<le> i" "i < length (avail p)" for i
    using pool_inv_beyond [OF inv] that by simp
  then show ?thesis using inv used_take_rest [of "nat (pool_size p)" "avail p"] by (simp add: pool_inv_def)
qed

lemma pool_invI:
  assumes "0 \<le> pool_size p" "pool_size p \<le> pool_alloc p" "int (length (avail p)) = pool_alloc p"
    "pool_locked p = int (used (avail p))" "\<And>i. nat (pool_size p) \<le> i \<Longrightarrow> i < length (avail p) \<Longrightarrow> avail p ! i"
  shows "pool_inv p"
proof -
  have "avail p ! nat i" if "pool_size p \<le> i" "i < pool_alloc p" for i
    using assms(1,3) that by (intro assms(5)) auto
  moreover have "used (take (nat (pool_size p)) (avail p)) = used (avail p)"
    using assms(5) by (intro used_take_rest) auto
  ultimately show ?thesis using assms(1-4) by (simp add: pool_inv_def)
qed

lemma proxy_pool_set_size_correct:
  assumes inv: "pool_inv p" and "0 \<le> sz" "sz \<le> 2 ^ 30"
    and cut: "\<forall>i. sz \<le> i \<and> i < pool_size p \<longrightarrow> item_free p i"
  obtains p' where "proxy_pool_set_size p sz = Some p'" "pool_inv p'" "pool_size p' = sz"
    "pool_locked p' = pool_locked p"
    "\<And>i. item_free p' i \<longleftrightarrow> 0 \<le> i \<and> i < sz \<and> (i < pool_size p \<longrightarrow> item_free p i)"
proof (cases "sz = pool_size p")
  case True
  with inv show ?thesis by (intro that [of p]) (auto simp: proxy_pool_set_size_def item_free_def)
next
  case False
  obtain al where m: "grow_alloc 1 sz = Some al" "sz \<le> al" "0 < al"
    using grow_alloc_total [OF assms(3)] by fastforce
  let ?k = "nat (min (pool_size p) al)"
  define a where "a = (if al = pool_alloc p then avail p
     else take ?k (avail p) @ replicate (nat al - ?k) True)"
  let ?p = "p\<lparr>pool_size := sz, pool_alloc := al, avail := a\<rparr>"
  have sz: "0 \<le> pool_size p" "pool_size p \<le> pool_alloc p" "int (length (avail p)) = pool_alloc p"
    using inv by (auto simp: pool_inv_def)
  have hi: "avail p ! i" if "sz \<le> int i" "i < length (avail p)" for i
  proof (cases "int i < pool_size p")
    case True
    then show ?thesis using cut that by (auto simp: item_free_def dest: spec [of _ "int i"])
  next
    case False
    then show ?thesis using pool_inv_beyond [OF inv] that by simp
  qed
  have len: "int (length a) = al" using sz m(3) by (auto simp: a_def min_def)
  have nth: "a ! i \<longleftrightarrow> (int i < pool_size p \<longrightarrow> avail p ! i)" if "int i < al" for i
  proof (cases "al = pool_alloc p")
    case True
    then show ?thesis using that sz pool_inv_beyond [OF inv, of i] by (auto simp: a_def)
  next
    case False
    then show ?thesis using that sz by (auto simp: a_def nth_append min_def)
  qed
  have "used a = used (avail p)"
  proof (cases "al = pool_alloc p")
    case False
    have "used (take ?k (avail p)) = used (avail p)"
    proof (rule used_take_rest, intro allI impI)
      fix i assume i: "?k \<le> i \<and> i < length (avail p)"
      show "avail p ! i"
      proof (cases "sz \<le> int i")
        case True
        then show ?thesis using hi i by blast
      next
        case False
        then have "pool_size p \<le> int i" using i m(2) by (auto simp: min_def split: if_splits)
        then show ?thesis using pool_inv_beyond [OF inv] i by simp
      qed
    qed
    with False show ?thesis by (simp add: a_def)
  qed (simp add: a_def)
  then have u: "pool_locked p = int (used a)" using pool_inv_all_used [OF inv] by simp
  have "a ! i" if "nat sz \<le> i" "i < length a" for i
  proof -
    have i: "int i < al" "sz \<le> int i" using len that by linarith+
    then have "avail p ! i" if "int i < pool_size p" using hi [OF i(2)] sz that by simp
    then show ?thesis using nth [OF i(1)] by blast
  qed
  then have "pool_inv ?p"
    using len assms(2) m(2) u by (intro pool_invI) simp_all
  moreover have "proxy_pool_set_size p sz = Some ?p"
    using proxy_pool_set_size_eq [OF inv False m(1,3)] by (simp add: a_def)
  moreover have "item_free ?p i \<longleftrightarrow> 0 \<le> i \<and> i < sz \<and> (i < pool_size p \<longrightarrow> item_free p i)" for i
    using nth [of "nat i"] m(2) by (auto simp: item_free_def)
  ultimately show ?thesis by (intro that [of ?p]) auto
qed

section \<open>The contract of the pool\<close>

lemma item_free_range: "item_free p i \<Longrightarrow> 0 \<le> i \<and> i < pool_size p"
  by (simp add: item_free_def)

lemma item_free_lock:
  assumes "pool_inv p" "item_free p i"
  shows "item_free (p\<lparr>avail := (avail p)[nat i := False], pool_locked := k\<rparr>) = (item_free p)(i := False)"
  using assms by (auto simp: item_free_def fun_eq_iff nth_list_update pool_inv_def nat_eq_iff)

lemma item_free_unlock:
  assumes "pool_inv p" "0 \<le> i" "i < pool_size p"
  shows "item_free (p\<lparr>pool_locked := k, avail := (avail p)[nat i := True]\<rparr>) = (item_free p)(i := True)"
  using assms by (auto simp: item_free_def fun_eq_iff nth_list_update pool_inv_def nat_eq_iff)

lemma pool_try_locks_hit:
  assumes "pool_inv p" "0 < pool_size p" "pool_try_locks r p = Some (i, p')" "0 \<le> i"
  shows "pool_inv p' \<and> pool_size p' = pool_size p \<and> item_free p i \<and> item_free p' = (item_free p)(i := False)"
  using assms(1,2)
proof (cases rule: pool_try_locks_cases [of p r])
  case (found d)
  then show ?thesis using assms pool_inv_lock item_free_lock by fastforce
next
  case none
  then show ?thesis using assms by simp
qed

lemma pool_try_locks_miss:
  assumes "pool_inv p" "0 < pool_size p" "pool_try_locks r p = Some (i, p')" "i < 0"
  shows "p' = p \<and> (\<forall>i. \<not> item_free p i)"
  using assms(1,2)
proof (cases rule: pool_try_locks_cases [of p r])
  case (found d)
  then have "0 \<le> i" using assms(3) item_free_range by auto
  with assms(4) show ?thesis by simp
next
  case none
  then show ?thesis using assms by simp
qed

lemma proxy_pool_return_free:
  assumes "pool_inv p" "0 \<le> i" "i < pool_size p"
  shows "\<exists>p'. proxy_pool_return p i = Some p' \<and> pool_inv p' \<and> pool_size p' = pool_size p \<and>
    item_free p' = (item_free p)(i := True)"
proof (cases "avail p ! nat i")
  case True
  then show ?thesis
    using proxy_pool_return_correct [OF assms] assms by (auto simp: item_free_def fun_eq_iff)
next
  case False
  then show ?thesis
    using proxy_pool_return_correct [OF assms] pool_inv_unlock [OF assms] item_free_unlock [OF assms] by auto
qed

interpretation lp: lock_pool pool_inv pool_size item_free pool_try_locks proxy_pool_return
proof unfold_locales
  show "0 \<le> i \<and> i < pool_size p" if "item_free p i" for p i
    using that by (simp add: item_free_def)
  show "\<exists>i p'. pool_try_locks r p = Some (i, p')" if "pool_inv p" "0 < pool_size p" for p r
    by (rule pool_try_locks_cases [OF that, of r]) blast+
qed (use pool_try_locks_hit pool_try_locks_miss proxy_pool_return_free in blast)+

text \<open>
  The test of one item is right for the items of the pool. For the index after the last item
  the guard of the code lets the access through: it reads beyond the array when the array is
  full.
\<close>

lemma proxy_pool_is_free_item:
  assumes "pool_inv p" "0 \<le> i" "i < pool_size p"
  shows "proxy_pool_is_free p i = Some (item_free p i)"
  using assms by (simp add: proxy_pool_is_free_def item_free_def pool_inv_def)

lemma proxy_pool_is_free_beyond:
  assumes "pool_inv p" "pool_size p = pool_alloc p"
  shows "proxy_pool_is_free p (pool_size p) = None"
  using assms by (simp add: proxy_pool_is_free_def pool_inv_def)

lemma all_nat_int: "(\<forall>j<nat n. P j) \<longleftrightarrow> (\<forall>i. 0 \<le> i \<and> i < n \<longrightarrow> P (nat i))"
proof
  assume r: "\<forall>i. 0 \<le> i \<and> i < n \<longrightarrow> P (nat i)"
  show "\<forall>j<nat n. P j"
  proof (intro allI impI)
    fix j assume "j < nat n"
    then show "P j" using r [rule_format, of "int j"] by simp
  qed
qed simp

lemma proxy_pool_get_locked_first:
  assumes "pool_inv p"
  shows "\<exists>i. proxy_pool_get_locked p = Some i \<and>
    (if pool_locked p = 0 then i = -1 else 0 \<le> i \<and> i < pool_size p \<and> \<not> item_free p i)"
proof -
  let ?f = "filter (\<lambda>i. \<not> avail p ! nat i) [0..pool_size p - 1]"
  have r: "0 \<le> pool_size p" "pool_size p \<le> int (length (avail p))" using assms by (auto simp: pool_inv_def)
  have e: "proxy_pool_get_locked p = Some (case ?f of [] \<Rightarrow> -1 | i # _ \<Rightarrow> i)"
    unfolding proxy_pool_get_locked_def using r by (intro pool_locked_loop_spec) auto
  have "pool_locked p = 0 \<longleftrightarrow> (\<forall>b\<in>set (take (nat (pool_size p)) (avail p)). b)"
    using assms by (simp add: pool_inv_def filter_empty_conv)
  also have "\<dots> \<longleftrightarrow> ?f = []"
  proof -
    have "(\<forall>b\<in>set (take (nat (pool_size p)) (avail p)). b) \<longleftrightarrow> (\<forall>j<nat (pool_size p). avail p ! j)"
      using r by (simp add: all_set_conv_all_nth)
    also have "\<dots> \<longleftrightarrow> (\<forall>i. 0 \<le> i \<and> i < pool_size p \<longrightarrow> avail p ! nat i)"
      by (rule all_nat_int)
    finally show ?thesis by (auto simp: filter_empty_conv)
  qed
  finally have z: "pool_locked p = 0 \<longleftrightarrow> ?f = []" .
  show ?thesis
  proof (cases ?f)
    case (Cons i is')
    then have "i \<in> set ?f" by simp
    then have "0 \<le> i" "i < pool_size p" "\<not> item_free p i" by (auto simp: item_free_def)
    with Cons e z show ?thesis by simp
  qed (use e z in simp)
qed

section \<open>What the operations do\<close>

text \<open>
  C9: the search takes the first free item in cyclic order after a random start, changes
  nothing else, and fails exactly when no item of the pool is free.
\<close>

theorem pool_try_locks_first_free:
  fixes r :: nat
  assumes "pool_inv p" "0 < pool_size p"
  defines "item d \<equiv> (int r mod pool_size p + 1 + int d) mod pool_size p"
  shows "(\<exists>d. item_free p (item d) \<and> (\<forall>c<d. \<not> item_free p (item c)) \<and>
            pool_try_locks r p = Some (item d, p\<lparr>avail := (avail p)[nat (item d) := False],
                                                 pool_locked := pool_locked p + 1\<rparr>)) \<or>
         ((\<forall>i. \<not> item_free p i) \<and> pool_try_locks r p = Some (-1, p))"
  using assms(1,2)
  by (cases rule: pool_try_locks_cases [of p r]) (auto simp: item_def)

theorem pool_try_locks_first_free_witness:
  "let p = \<lparr>pool_size = 3, pool_alloc = 4, pool_locked = 1, avail = [True, True, False, True]\<rparr> in
     pool_try_locks 1 p = Some (0, p\<lparr>avail := [False, True, False, True], pool_locked := 2\<rparr>)"
proof -
  let ?p = "\<lparr>pool_size = 3, pool_alloc = 4, pool_locked = 1, avail = [True, True, False, True]\<rparr>"
  have i: "pool_inv ?p"
    by (auto simp: pool_inv_def eval_nat_numeral dest!: order_antisym [of 3])
  have "item_free ?p 0" by (simp add: item_free_def)
  with pool_try_locks_first_free [OF i, of 1] show ?thesis
    by (auto simp: Let_def pool_try_locks_def eval_nat_numeral)
qed

text \<open>
  From a new pool of \<open>n\<close> items, \<open>n\<close> searches with any random numbers give the items
  \<open>0, \<dots>, n - 1\<close>, each once, and one more search finds nothing.
\<close>

theorem proxy_pool_new_hands_out_each_item_once:
  assumes "0 < n" "n \<le> 2 ^ 30" "length rs = nat n"
  shows "\<exists>p idxs p'. proxy_pool_new n = Some (Some p) \<and>
    take_items pool_try_locks rs p = Some (idxs, p') \<and> distinct idxs \<and> set idxs = {0..<n} \<and>
    pool_try_locks r p' = Some (-1, p')"
proof -
  obtain p where p: "proxy_pool_new n = Some (Some p)"
    by (rule proxy_pool_new_correct [OF assms(1,2)]) blast
  from pool_inv_new [OF p assms(2)] have i: "pool_inv p" "pool_size p = n" "{i. item_free p i} = {0..<n}"
    by (auto dest: item_free_range)
  then have "length rs = card {i. item_free p i}" using assms(3) by simp
  then obtain js p' k where t: "take_items pool_try_locks rs p = Some (js, p')" "distinct js"
      "set js = {0..<n}" "pool_inv p'" "pool_size p' = n" "pool_try_locks r p' = Some (k, p')" "k < 0"
    using lp.take_items_exhaust [OF i(1), of rs r] i assms(1) by auto
  have "0 < pool_size p'" using t(5) assms(1) by simp
  then have "k = -1"
    using t(6,7) by (cases rule: pool_try_locks_cases [OF t(4), of r]) (auto dest: item_free_range)
  with p t show ?thesis by blast
qed

theorem proxy_pool_new_hands_out_each_item_once_witness:
  "\<exists>p idxs p'. proxy_pool_new 3 = Some (Some p) \<and>
    take_items pool_try_locks [7, 0, 7] p = Some (idxs, p') \<and> distinct idxs \<and> set idxs = {0..<3} \<and>
    pool_try_locks 5 p' = Some (-1, p')"
  using proxy_pool_new_hands_out_each_item_once [of 3 "[7, 0, 7]" 5] by simp

lemma pool_get_wait_returns:
  assumes "\<forall>(f, r)\<in>set wakes. \<forall>q. pool_inv q \<and> 0 < pool_size q \<longrightarrow> pool_inv (f q) \<and> 0 < pool_size (f q)"
    and "\<exists>(f, r)\<in>set wakes. \<forall>q. \<exists>i. item_free (f q) i"
    and "pool_inv p" "0 < pool_size p"
  shows "\<exists>i q q'. pool_get_wait wakes p = Some (Got i q') \<and> pool_inv q \<and> pool_inv q' \<and>
    item_free q i \<and> item_free q' = (item_free q)(i := False)"
  using assms
proof (induction wakes arbitrary: p)
  case Nil
  then show ?case by simp
next
  case (Cons w wakes)
  obtain f r where w: "w = (f, r)" by force
  have f: "pool_inv (f p)" "0 < pool_size (f p)" using Cons.prems(1,3,4) w by auto
  obtain i q' where t: "pool_try_locks r (f p) = Some (i, q')" using lp.seize_total [OF f] by blast
  show ?case
  proof (cases "0 \<le> i")
    case True
    with pool_try_locks_hit [OF f t] t f w show ?thesis
      by (intro exI [of _ i] exI [of _ "f p"] exI [of _ q']) simp
  next
    case False
    then have m: "q' = f p" "\<forall>i. \<not> item_free (f p) i" using pool_try_locks_miss [OF f t] by auto
    have "\<exists>(f, r)\<in>set wakes. \<forall>q. \<exists>i. item_free (f q) i"
      using Cons.prems(2) m(2) w by auto
    from Cons.IH [OF _ this f] Cons.prems(1) show ?thesis using w t m False by simp
  qed
qed

text \<open>
  C10: a call that waits for an item returns one as soon as it is woken in a state with a free
  item, whatever the other threads did before, if they keep the pool consistent. The item was
  free, and is the only one the call changes.
\<close>

theorem proxy_pool_get_returns:
  assumes "pool_inv p" "0 < pool_size p"
    and "\<forall>(f, r)\<in>set wakes. \<forall>q. pool_inv q \<and> 0 < pool_size q \<longrightarrow> pool_inv (f q) \<and> 0 < pool_size (f q)"
    and "(\<exists>i. item_free p i) \<or> (\<exists>(f, r)\<in>set wakes. \<forall>q. \<exists>i. item_free (f q) i)"
  shows "\<exists>i q q'. proxy_pool_get r wakes p = Some (Got i q') \<and> pool_inv q \<and> pool_inv q' \<and>
    item_free q i \<and> item_free q' = (item_free q)(i := False)"
proof -
  obtain i q' where t: "pool_try_locks r p = Some (i, q')" using lp.seize_total [OF assms(1,2)] by blast
  show ?thesis
  proof (cases "0 \<le> i")
    case True
    with pool_try_locks_hit [OF assms(1,2) t] t assms(1) show ?thesis
      by (intro exI [of _ i] exI [of _ p] exI [of _ q']) (simp add: proxy_pool_get_def)
  next
    case False
    then have m: "q' = p" "\<forall>i. \<not> item_free p i" using pool_try_locks_miss [OF assms(1,2) t] by auto
    then have "proxy_pool_get r wakes p = pool_get_wait wakes p" using t False by (simp add: proxy_pool_get_def)
    then show ?thesis using pool_get_wait_returns [OF assms(3) _ assms(1,2)] assms(4) m(2) by auto
  qed
qed

theorem proxy_pool_get_returns_witness:
  "let p = \<lparr>pool_size = 1, pool_alloc = 1, pool_locked = 1, avail = [False]\<rparr>;
       q = \<lparr>pool_size = 1, pool_alloc = 1, pool_locked = 0, avail = [True]\<rparr> in
     \<exists>i q1 q'. proxy_pool_get 3 [(id, 4), (\<lambda>_. q, 5)] p = Some (Got i q') \<and> pool_inv q1 \<and> pool_inv q' \<and>
       item_free q1 i \<and> item_free q' = (item_free q1)(i := False)"
proof -
  let ?p = "\<lparr>pool_size = 1, pool_alloc = 1, pool_locked = 1, avail = [False]\<rparr>"
  let ?q = "\<lparr>pool_size = 1, pool_alloc = 1, pool_locked = 0, avail = [True]\<rparr>"
  have "pool_inv ?p" "pool_inv ?q" "item_free ?q 0" by (auto simp: pool_inv_def item_free_def)
  with proxy_pool_get_returns [of ?p "[(id, 4), (\<lambda>_. ?q, 5)]" 3] show ?thesis by (auto simp: Let_def)
qed

text \<open>
  C11: changing the size keeps the state of every item that remains, adds only free items, and
  keeps the count of items in use, provided that no item that is cut off is in use. The array
  is always large enough, also when it is reallocated.
\<close>

theorem proxy_pool_set_size_keeps_items:
  assumes "pool_inv p" "0 \<le> sz" "sz \<le> 2 ^ 30"
    and "\<forall>i. sz \<le> i \<and> i < pool_size p \<longrightarrow> item_free p i"
  shows "\<exists>p'. proxy_pool_set_size p sz = Some p' \<and> pool_inv p' \<and> pool_size p' = sz \<and>
    pool_locked p' = pool_locked p \<and>
    (\<forall>i. item_free p' i \<longleftrightarrow> 0 \<le> i \<and> i < sz \<and> (i < pool_size p \<longrightarrow> item_free p i))"
  by (rule proxy_pool_set_size_correct [OF assms]) blast

theorem proxy_pool_set_size_keeps_items_witness:
  "let p = \<lparr>pool_size = 2, pool_alloc = 2, pool_locked = 1, avail = [True, False]\<rparr> in
     \<exists>p'. proxy_pool_set_size p 3 = Some p' \<and> pool_inv p' \<and> pool_size p' = 3 \<and> \<not> item_free p' 1 \<and> item_free p' 2"
proof -
  let ?p = "\<lparr>pool_size = 2, pool_alloc = 2, pool_locked = 1, avail = [True, False]\<rparr>"
  have i: "pool_inv ?p" by (simp add: pool_inv_def eval_nat_numeral)
  have n: "\<not> item_free ?p 1" by (simp add: item_free_def)
  have "\<forall>i. 3 \<le> i \<and> i < pool_size ?p \<longrightarrow> item_free ?p i" by auto
  from proxy_pool_set_size_keeps_items [OF i _ _ this] obtain p' where
    "proxy_pool_set_size ?p 3 = Some p'" "pool_inv p'" "pool_size p' = 3"
    and f: "\<forall>i. item_free p' i \<longleftrightarrow> 0 \<le> i \<and> i < 3 \<and> (i < pool_size ?p \<longrightarrow> item_free ?p i)" by auto
  moreover have "\<not> item_free p' 1" "item_free p' 2" using n by (simp_all add: f [rule_format])
  ultimately show ?thesis unfolding Let_def by blast
qed

lemma for_each_shift:
  assumes "0 \<le> a" "a \<le> b" "b < int (length xs)"
  shows "\<exists>ys. for_each [a..b - 1] (\<lambda>i s. do { x \<leftarrow> read_at s (i + 1); write_at s i x }) xs = Some ys \<and>
    length ys = length xs \<and>
    (\<forall>j<length xs. ys ! j = (if a \<le> int j \<and> int j < b then xs ! Suc j else xs ! j))"
  using assms
proof (induction "nat (b - a)" arbitrary: b)
  case 0
  then show ?case by auto
next
  case (Suc n)
  let ?b = "b - 1"
  have b: "a \<le> ?b" "?b < int (length xs)" "n = nat (?b - a)" using Suc.hyps(2) Suc.prems by auto
  obtain ys where ys: "for_each [a..?b - 1] (\<lambda>i s. do { x \<leftarrow> read_at s (i + 1); write_at s i x }) xs = Some ys"
    "length ys = length xs" "\<forall>j<length xs. ys ! j = (if a \<le> int j \<and> int j < ?b then xs ! Suc j else xs ! j)"
    using Suc.hyps(1) [OF b(3) Suc.prems(1) b(1,2)] by blast
  have up: "[a..b - 1] = [a..?b - 1] @ [?b]" using b(1) upto_rec2 [of a ?b] by simp
  have nb: "nat b = Suc (nat ?b)" "nat b < length xs" using b(1) Suc.prems by auto
  have "ys ! nat b = xs ! nat b" using ys(3) nb by auto
  then have "for_each [a..b - 1] (\<lambda>i s. do { x \<leftarrow> read_at s (i + 1); write_at s i x }) xs =
      Some (ys[nat ?b := xs ! Suc (nat ?b)])"
    using ys(1,2) b Suc.prems nb by (simp add: up for_each_append)
  moreover have "ys[nat ?b := xs ! Suc (nat ?b)] ! j = (if a \<le> int j \<and> int j < b then xs ! Suc j else xs ! j)"
    if "j < length xs" for j
    using ys(2,3) that b Suc.prems by (cases "j = nat ?b") auto
  ultimately show ?case using ys(2) by simp
qed

lemma proxy_pool_set_size_states:
  assumes inv: "pool_inv p" and "0 \<le> sz" "sz \<le> 2 ^ 30"
  obtains q where "proxy_pool_set_size p sz = Some q" "pool_size q = sz" "pool_locked q = pool_locked p"
    "sz \<le> int (length (avail q))"
    "\<And>i. 0 \<le> i \<Longrightarrow> i < sz \<Longrightarrow> item_free q i \<longleftrightarrow> (i < pool_size p \<longrightarrow> item_free p i)"
proof (cases "sz = pool_size p")
  case True
  show ?thesis
  proof (rule that [of p])
    show "sz \<le> int (length (avail p))" using inv True by (simp add: pool_inv_def)
  qed (simp_all add: True proxy_pool_set_size_def)
next
  case False
  obtain al where m: "grow_alloc 1 sz = Some al" "sz \<le> al" "0 < al"
    using grow_alloc_total [OF assms(3)] by fastforce
  let ?k = "nat (min (pool_size p) al)"
  define a where "a = (if al = pool_alloc p then avail p
     else take ?k (avail p) @ replicate (nat al - ?k) True)"
  have len: "int (length (avail p)) = pool_alloc p" "pool_size p \<le> pool_alloc p" "0 \<le> pool_size p"
    using inv by (auto simp: pool_inv_def)
  then have la: "sz \<le> int (length a)" using m by (auto simp: a_def min_def)
  have nth: "a ! nat i \<longleftrightarrow> (i < pool_size p \<longrightarrow> avail p ! nat i)" if "0 \<le> i" "i < sz" for i
  proof (cases "al = pool_alloc p")
    case True
    then show ?thesis using that m(2) len pool_inv_beyond [OF inv, of "nat i"] by (auto simp: a_def)
  next
    case False
    then show ?thesis using that m(2) len by (auto simp: a_def nth_append min_def)
  qed
  have eq: "proxy_pool_set_size p sz = Some (p\<lparr>pool_size := sz, pool_alloc := al, avail := a\<rparr>)"
    using proxy_pool_set_size_eq [OF inv False m(1,3)] by (simp add: a_def)
  show ?thesis by (rule that [OF eq]) (simp_all add: la nth item_free_def)
qed

text \<open>
  What removing an item does to the others. The shift stops one item early: the items
  after the removed one move down by one, except that the last remaining place keeps the state
  it had, so that the state of the last item of the pool is lost. The count of the items in
  use is not changed, even if the removed item was in use.
\<close>

theorem proxy_pool_remove_shift:
  assumes inv: "pool_inv p" and "0 \<le> idx" "idx < pool_size p" "pool_size p \<le> 2 ^ 30"
  shows "\<exists>p'. proxy_pool_remove p idx = Some p' \<and> pool_size p' = pool_size p - 1 \<and>
    pool_locked p' = pool_locked p \<and>
    (\<forall>i. 0 \<le> i \<and> i < pool_size p - 1 \<longrightarrow>
       item_free p' i = item_free p (if idx \<le> i \<and> i < pool_size p - 2 then i + 1 else i))"
proof -
  let ?sz = "pool_size p - 1"
  obtain q where q: "proxy_pool_set_size p ?sz = Some q" "pool_size q = ?sz" "pool_locked q = pool_locked p"
      "?sz \<le> int (length (avail q))"
      and states: "\<And>i. 0 \<le> i \<Longrightarrow> i < ?sz \<Longrightarrow> item_free q i \<longleftrightarrow> (i < pool_size p \<longrightarrow> item_free p i)"
    using proxy_pool_set_size_states [OF inv, of ?sz] assms by auto
  show ?thesis
  proof (cases "idx < ?sz")
    case True
    then obtain a where a: "for_each [idx..?sz - 1 - 1] (\<lambda>i s. do { x \<leftarrow> read_at s (i + 1); write_at s i x })
          (avail q) = Some a"
        "length a = length (avail q)"
        and nth: "\<forall>j<length (avail q). a ! j =
          (if idx \<le> int j \<and> int j < ?sz - 1 then avail q ! Suc j else avail q ! j)"
      using for_each_shift [OF assms(2), of "?sz - 1" "avail q"] q(4) by auto
    have "item_free (q\<lparr>avail := a\<rparr>) i = item_free p (if idx \<le> i \<and> i < pool_size p - 2 then i + 1 else i)"
      if i: "0 \<le> i" "i < ?sz" for i
    proof -
      have "a ! nat i = (if idx \<le> i \<and> i < ?sz - 1 then avail q ! nat (i + 1) else avail q ! nat i)"
        using nth [rule_format, of "nat i"] i q(4) by (simp add: nat_add_distrib)
      then have "item_free (q\<lparr>avail := a\<rparr>) i = item_free q (if idx \<le> i \<and> i < pool_size p - 2 then i + 1 else i)"
        using i q(2) by (simp add: item_free_def)
      then show ?thesis using states [of i] states [of "i + 1"] i by simp
    qed
    then show ?thesis using a(1) q(1-3) assms(3)
      by (intro exI [of _ "q\<lparr>avail := a\<rparr>"]) (simp add: proxy_pool_remove_def)
  next
    case False
    then have "proxy_pool_remove p idx = Some q" using q(1,2) assms(3) by (simp add: proxy_pool_remove_def)
    then show ?thesis using q(2,3) states False by (intro exI [of _ q]) auto
  qed
qed

theorem proxy_pool_remove_shift_witness:
  "let p = \<lparr>pool_size = 3, pool_alloc = 4, pool_locked = 1, avail = [True, True, False, True]\<rparr> in
     \<exists>p'. proxy_pool_remove p 0 = Some p' \<and> pool_locked p' = 1 \<and> item_free p' 0 \<and> item_free p' 1"
proof -
  let ?p = "\<lparr>pool_size = 3, pool_alloc = 4, pool_locked = 1, avail = [True, True, False, True]\<rparr>"
  have i: "pool_inv ?p"
    by (auto simp: pool_inv_def eval_nat_numeral dest!: order_antisym [of 3])
  have n: "item_free ?p 1" by (simp add: item_free_def)
  from proxy_pool_remove_shift [OF i, of 0] obtain p' where
    "proxy_pool_remove ?p 0 = Some p'" "pool_locked p' = 1"
    and f: "\<forall>i. 0 \<le> i \<and> i < pool_size ?p - 1 \<longrightarrow>
      item_free p' i = item_free ?p (if 0 \<le> i \<and> i < pool_size ?p - 2 then i + 1 else i)" by auto
  moreover have "item_free p' 0" "item_free p' 1" using n f [rule_format, of 0] f [rule_format, of 1] by simp_all
  ultimately show ?thesis unfolding Let_def by blast
qed

end
