(* ===== verification/Pool_Threads.thy ===== *)
theory Pool_Threads
  imports Pool
begin

text \<open>
  Threads that share one pool (\<open>src/proxy_pool.c\<close>). A thread is inside or outside one of
  the calls \<open>proxy_pool_get\<close> and \<open>proxy_pool_return\<close>; each access to the flags is one
  step under the mutex of the pool, and the wait on the condition variable and its signal are
  steps of their own, in the order the code has them. The mutex is recursive, and
  \<open>proxy_pool_lock\<close> and \<open>proxy_pool_unlock\<close> take and release it explicitly.

  The mutex of the condition variable is held during exactly one of these steps at a time
  (entering the wait, the search after a wake-up, the signal), so it is not a part of the
  state. Wake-ups without a signal, which POSIX allows, are possible.
\<close>

section \<open>The system\<close>

text \<open>
  Where a thread is: outside, after a first search without result, on the condition variable,
  woken up, holding an item, or between giving an item back and the signal.
\<close>

datatype pc = Outside | Before_wait | Waiting | Woken | Holding int | Before_signal

record pool_sys =
  shared :: pool_t
  at :: "nat \<Rightarrow> pc"
  owner :: "(nat \<times> nat) option"

text \<open>A thread can enter the mutex of the pool: it is free or its own.\<close>

definition may_enter :: "pool_sys \<Rightarrow> nat \<Rightarrow> bool" where
  "may_enter s t \<longleftrightarrow> (case owner s of None \<Rightarrow> True | Some (u, d) \<Rightarrow> u = t)"

definition proxy_pool_lock :: "pool_sys \<Rightarrow> nat \<Rightarrow> pool_sys" where
  "proxy_pool_lock s t =
     s\<lparr>owner := Some (t, case owner s of None \<Rightarrow> 1 | Some (u, d) \<Rightarrow> Suc d)\<rparr>"

definition proxy_pool_unlock :: "pool_sys \<Rightarrow> nat \<Rightarrow> pool_sys" where
  "proxy_pool_unlock s t =
     s\<lparr>owner := (case owner s of None \<Rightarrow> None | Some (u, d) \<Rightarrow> if d \<le> 1 then None else Some (u, d - 1))\<rparr>"

inductive pool_step :: "nat \<Rightarrow> pool_sys \<Rightarrow> pool_sys \<Rightarrow> bool" where
  get_hit:
    "at s t = Outside \<Longrightarrow> may_enter s t \<Longrightarrow> pool_try_locks r (shared s) = Some (i, p) \<Longrightarrow> 0 \<le> i \<Longrightarrow>
     pool_step t s (s\<lparr>shared := p, at := (at s)(t := Holding i)\<rparr>)"
| get_miss:
    "at s t = Outside \<Longrightarrow> may_enter s t \<Longrightarrow> pool_try_locks r (shared s) = Some (i, p) \<Longrightarrow> i < 0 \<Longrightarrow>
     pool_step t s (s\<lparr>shared := p, at := (at s)(t := Before_wait)\<rparr>)"
| wait:
    "at s t = Before_wait \<Longrightarrow> pool_step t s (s\<lparr>at := (at s)(t := Waiting)\<rparr>)"
| spurious:
    "at s t = Waiting \<Longrightarrow> pool_step t s (s\<lparr>at := (at s)(t := Woken)\<rparr>)"
| woken_hit:
    "at s t = Woken \<Longrightarrow> may_enter s t \<Longrightarrow> pool_try_locks r (shared s) = Some (i, p) \<Longrightarrow> 0 \<le> i \<Longrightarrow>
     pool_step t s (s\<lparr>shared := p, at := (at s)(t := Holding i)\<rparr>)"
| woken_miss:
    "at s t = Woken \<Longrightarrow> may_enter s t \<Longrightarrow> pool_try_locks r (shared s) = Some (i, p) \<Longrightarrow> i < 0 \<Longrightarrow>
     pool_step t s (s\<lparr>shared := p, at := (at s)(t := Before_wait)\<rparr>)"
| giveback:
    "at s t = Holding i \<Longrightarrow> may_enter s t \<Longrightarrow> proxy_pool_return (shared s) i = Some p \<Longrightarrow>
     pool_step t s (s\<lparr>shared := p, at := (at s)(t := Before_signal)\<rparr>)"
| signal_one:
    "at s t = Before_signal \<Longrightarrow> at s u = Waiting \<Longrightarrow>
     pool_step t s (s\<lparr>at := (at s)(t := Outside, u := Woken)\<rparr>)"
| signal_none:
    "at s t = Before_signal \<Longrightarrow> \<forall>u. at s u \<noteq> Waiting \<Longrightarrow>
     pool_step t s (s\<lparr>at := (at s)(t := Outside)\<rparr>)"
| lock:
    "may_enter s t \<Longrightarrow> at s t = Outside \<or> at s t = Holding i \<Longrightarrow> pool_step t s (proxy_pool_lock s t)"
| unlock:
    "owner s = Some (t, d) \<Longrightarrow> at s t = Outside \<or> at s t = Holding i \<Longrightarrow> pool_step t s (proxy_pool_unlock s t)"
| grow:
    "may_enter s t \<Longrightarrow> at s t = Outside \<or> at s t = Holding i \<Longrightarrow> pool_size (shared s) \<le> sz \<Longrightarrow> sz \<le> 2 ^ 30 \<Longrightarrow>
     proxy_pool_set_size (shared s) sz = Some p \<Longrightarrow> pool_step t s (s\<lparr>shared := p\<rparr>)"

definition pool_start :: "pool_t \<Rightarrow> pool_sys" where
  "pool_start p = \<lparr>shared = p, at = (\<lambda>_. Outside), owner = None\<rparr>"

text \<open>The states reached from a new pool of \<open>n\<close> items.\<close>

inductive pool_reach :: "int \<Rightarrow> pool_sys \<Rightarrow> bool" for n where
  start: "proxy_pool_new n = Some (Some p) \<Longrightarrow> pool_reach n (pool_start p)"
| step: "pool_reach n s \<Longrightarrow> pool_step t s s' \<Longrightarrow> pool_reach n s'"

inductive_cases pool_stepE: "pool_step t s s'"

section \<open>The invariant\<close>

definition sys_inv :: "pool_sys \<Rightarrow> bool" where
  "sys_inv s \<longleftrightarrow> pool_inv (shared s) \<and> 0 < pool_size (shared s) \<and>
     (\<forall>i. item_free (shared s) i \<longleftrightarrow> 0 \<le> i \<and> i < pool_size (shared s) \<and> (\<forall>t. at s t \<noteq> Holding i)) \<and>
     (\<forall>t i. at s t = Holding i \<longrightarrow> 0 \<le> i \<and> i < pool_size (shared s)) \<and>
     (\<forall>t u i. at s t = Holding i \<and> at s u = Holding i \<longrightarrow> t = u)"

lemma sys_invI:
  assumes "pool_inv (shared s)" "0 < pool_size (shared s)"
    and "\<And>i. item_free (shared s) i \<longleftrightarrow> 0 \<le> i \<and> i < pool_size (shared s) \<and> (\<forall>t. at s t \<noteq> Holding i)"
    and "\<And>t i. at s t = Holding i \<Longrightarrow> 0 \<le> i \<and> i < pool_size (shared s)"
    and "\<And>t u i. at s t = Holding i \<Longrightarrow> at s u = Holding i \<Longrightarrow> t = u"
  shows "sys_inv s"
  using assms unfolding sys_inv_def by blast

lemma sys_invD:
  assumes "sys_inv s"
  shows "pool_inv (shared s)" "0 < pool_size (shared s)"
    and "item_free (shared s) i \<longleftrightarrow> 0 \<le> i \<and> i < pool_size (shared s) \<and> (\<forall>t. at s t \<noteq> Holding i)"
    and "at s t = Holding i \<Longrightarrow> 0 \<le> i \<and> i < pool_size (shared s)"
    and "at s t = Holding i \<Longrightarrow> at s u = Holding i \<Longrightarrow> t = u"
  using assms unfolding sys_inv_def by blast+

abbreviation holds_none :: "pc \<Rightarrow> bool" where
  "holds_none c \<equiv> (\<forall>i. c \<noteq> Holding i)"

lemma nobody_update:
  assumes "holds_none (at s t) \<or> at s t = Holding i" "holds_none c \<or> c = Holding i" "i \<noteq> j"
  shows "(\<forall>u. ((at s)(t := c)) u \<noteq> Holding j) \<longleftrightarrow> (\<forall>u. at s u \<noteq> Holding j)"
proof -
  have "c \<noteq> Holding j" "at s t \<noteq> Holding j" using assms by auto
  then have "((at s)(t := c)) u = Holding j \<longleftrightarrow> at s u = Holding j" for u by (cases "u = t") simp_all
  then show ?thesis by simp
qed

lemma holder_update_unique:
  assumes inv: "sys_inv s" and c: "holds_none c \<or> (\<forall>u. at s u \<noteq> c)"
    and u: "((at s)(t := c)) u = Holding j" and v: "((at s)(t := c)) v = Holding j"
  shows "u = v"
proof (cases "c = Holding j")
  case True
  then have no: "at s w \<noteq> Holding j" for w using c by blast
  have "u = t" using u no [of u] by (cases "u = t") simp_all
  moreover have "v = t" using v no [of v] by (cases "v = t") simp_all
  ultimately show ?thesis by simp
next
  case False
  then have "at s u = Holding j" "at s v = Holding j" using u v by (auto simp: fun_upd_apply split: if_splits)
  then show ?thesis by (rule sys_invD(5) [OF inv])
qed

lemma sys_inv_move:
  assumes inv: "sys_inv s" and "holds_none (at s t)" "holds_none c"
  shows "sys_inv (s\<lparr>at := (at s)(t := c)\<rparr>)"
proof (rule sys_invI)
  show "item_free (shared (s\<lparr>at := (at s)(t := c)\<rparr>)) i \<longleftrightarrow> 0 \<le> i \<and>
      i < pool_size (shared (s\<lparr>at := (at s)(t := c)\<rparr>)) \<and> (\<forall>u. at (s\<lparr>at := (at s)(t := c)\<rparr>) u \<noteq> Holding i)" for i
    using sys_invD(3) [OF inv, of i] nobody_update [of s t "i + 1" c i] assms(2,3) by simp
  show "0 \<le> j \<and> j < pool_size (shared (s\<lparr>at := (at s)(t := c)\<rparr>))"
    if "at (s\<lparr>at := (at s)(t := c)\<rparr>) u = Holding j" for u j
    using that assms(3) sys_invD(4) [OF inv, of u j] by (auto split: if_splits)
  show "u = v" if "at (s\<lparr>at := (at s)(t := c)\<rparr>) u = Holding j"
    "at (s\<lparr>at := (at s)(t := c)\<rparr>) v = Holding j" for u v j
    using that holder_update_unique [OF inv, of c t u j v] assms(3) by simp
qed (use sys_invD(1,2) [OF inv] in simp_all)

lemma sys_inv_take:
  assumes inv: "sys_inv s" and t: "holds_none (at s t)"
    and take: "pool_try_locks r (shared s) = Some (i, p)" "0 \<le> i"
  shows "sys_inv (s\<lparr>shared := p, at := (at s)(t := Holding i)\<rparr>)"
proof -
  note h = pool_try_locks_hit [OF sys_invD(1,2) [OF inv] take]
  then have i: "i < pool_size (shared s)" "\<And>u. at s u \<noteq> Holding i"
    using sys_invD(3) [OF inv, of i] by auto
  have f: "item_free p j \<longleftrightarrow> 0 \<le> j \<and> j < pool_size p \<and> (\<forall>u. ((at s)(t := Holding i)) u \<noteq> Holding j)" for j
  proof (cases "j = i")
    case False
    then show ?thesis using h sys_invD(3) [OF inv, of j] nobody_update [of s t i "Holding i" j] t by simp
  qed (use h in auto)
  show ?thesis
  proof (rule sys_invI)
    show "0 \<le> j \<and> j < pool_size (shared (s\<lparr>shared := p, at := (at s)(t := Holding i)\<rparr>))"
      if "at (s\<lparr>shared := p, at := (at s)(t := Holding i)\<rparr>) u = Holding j" for u j
      using that h i take(2) sys_invD(4) [OF inv, of u j] by (auto split: if_splits)
    show "u = v" if "at (s\<lparr>shared := p, at := (at s)(t := Holding i)\<rparr>) u = Holding j"
      "at (s\<lparr>shared := p, at := (at s)(t := Holding i)\<rparr>) v = Holding j" for u v j
      using that holder_update_unique [OF inv, of "Holding i" t u j v] i(2) by simp
  qed (use h f sys_invD(2) [OF inv] in simp_all)
qed

lemma sys_inv_give:
  assumes inv: "sys_inv s" and t: "at s t = Holding i"
    and ret: "proxy_pool_return (shared s) i = Some p" and c: "holds_none c"
  shows "sys_inv (s\<lparr>shared := p, at := (at s)(t := c)\<rparr>)"
proof -
  have i: "0 \<le> i" "i < pool_size (shared s)" using sys_invD(4) [OF inv t] by auto
  have h: "pool_inv p" "pool_size p = pool_size (shared s)" "item_free p = (item_free (shared s))(i := True)"
    using proxy_pool_return_free [OF sys_invD(1) [OF inv] i] ret by auto
  have f: "item_free p j \<longleftrightarrow> 0 \<le> j \<and> j < pool_size p \<and> (\<forall>u. ((at s)(t := c)) u \<noteq> Holding j)" for j
  proof (cases "j = i")
    case True
    have "((at s)(t := c)) u \<noteq> Holding i" for u
      using sys_invD(5) [OF inv t, of u] c by (auto simp: fun_upd_apply)
    then show ?thesis using True h i by simp
  next
    case False
    then show ?thesis using h sys_invD(3) [OF inv, of j] nobody_update [of s t i c j] t c by simp
  qed
  show ?thesis
  proof (rule sys_invI)
    show "0 \<le> j \<and> j < pool_size (shared (s\<lparr>shared := p, at := (at s)(t := c)\<rparr>))"
      if "at (s\<lparr>shared := p, at := (at s)(t := c)\<rparr>) u = Holding j" for u j
      using that h c sys_invD(4) [OF inv, of u j] by (auto split: if_splits)
    show "u = v" if "at (s\<lparr>shared := p, at := (at s)(t := c)\<rparr>) u = Holding j"
      "at (s\<lparr>shared := p, at := (at s)(t := c)\<rparr>) v = Holding j" for u v j
      using that holder_update_unique [OF inv, of c t u j v] c by simp
  qed (use h f sys_invD(2) [OF inv] in simp_all)
qed

lemma sys_inv_grow:
  assumes inv: "sys_inv s" and sz: "pool_size (shared s) \<le> sz" "sz \<le> 2 ^ 30"
    and set: "proxy_pool_set_size (shared s) sz = Some p"
  shows "sys_inv (s\<lparr>shared := p\<rparr>)"
proof -
  note pos = sys_invD(2) [OF inv]
  have cut: "\<forall>i. sz \<le> i \<and> i < pool_size (shared s) \<longrightarrow> item_free (shared s) i" using sz by auto
  have "0 \<le> sz" using pos sz(1) by simp
  then obtain q where q: "proxy_pool_set_size (shared s) sz = Some q" "pool_inv q" "pool_size q = sz"
    "pool_locked q = pool_locked (shared s)"
    and fr: "\<And>i. item_free q i \<longleftrightarrow> 0 \<le> i \<and> i < sz \<and> (i < pool_size (shared s) \<longrightarrow> item_free (shared s) i)"
    by (rule proxy_pool_set_size_correct [OF sys_invD(1) [OF inv] _ sz(2) cut]) blast
  have f: "item_free p i \<longleftrightarrow> 0 \<le> i \<and> i < sz \<and> (\<forall>t. at s t \<noteq> Holding i)" for i
    using fr [of i] q(1) set sys_invD(3) [OF inv, of i] sys_invD(4) [OF inv, of _ i] by auto
  show ?thesis
  proof (rule sys_invI)
    show "0 \<le> j \<and> j < pool_size (shared (s\<lparr>shared := p\<rparr>))" if "at (s\<lparr>shared := p\<rparr>) u = Holding j" for u j
      using that q set sz(1) sys_invD(4) [OF inv, of u j] by simp
    show "u = v" if "at (s\<lparr>shared := p\<rparr>) u = Holding j" "at (s\<lparr>shared := p\<rparr>) v = Holding j" for u v j
      using that by (intro sys_invD(5) [OF inv]) simp_all
  qed (use q set f pos sz(1) in simp_all)
qed

lemma sys_inv_owner: "sys_inv s \<Longrightarrow> sys_inv (s\<lparr>owner := o'\<rparr>)"
  by (simp add: sys_inv_def)

theorem pool_step_keeps_inv:
  assumes "pool_step t s s'" "sys_inv s"
  shows "sys_inv s'"
  using assms
proof (induction rule: pool_step.induct)
  case (get_miss s t r i p)
  then have "p = shared s" using pool_try_locks_miss [OF sys_invD(1,2)] by blast
  with get_miss show ?case using sys_inv_move [of s t Before_wait] by simp
next
  case (woken_miss s t r i p)
  then have "p = shared s" using pool_try_locks_miss [OF sys_invD(1,2)] by blast
  with woken_miss show ?case using sys_inv_move [of s t Before_wait] by simp
next
  case (signal_one s t u)
  then have "sys_inv (s\<lparr>at := (at s)(t := Outside)\<rparr>)" by (intro sys_inv_move) auto
  from sys_inv_move [OF this, of u Woken] signal_one show ?case by (auto simp: fun_upd_apply)
next
  case (lock s t i)
  then show ?case by (simp add: proxy_pool_lock_def sys_inv_owner)
next
  case (unlock s t d i)
  then show ?case by (simp add: proxy_pool_unlock_def sys_inv_owner)
next
  case (get_hit s t r i p)
  then show ?case by (intro sys_inv_take) simp_all
next
  case (woken_hit s t r i p)
  then show ?case by (intro sys_inv_take) simp_all
next
  case (giveback s t i p)
  then show ?case by (intro sys_inv_give) simp_all
next
  case (grow s t i sz p)
  then show ?case by (intro sys_inv_grow)
qed (intro sys_inv_move; simp)+

lemma sys_inv_start:
  assumes "proxy_pool_new n = Some (Some p)" "n \<le> 2 ^ 30"
  shows "sys_inv (pool_start p)"
proof -
  have "0 < n" using assms(1) by (auto simp: proxy_pool_new_def split: if_splits)
  with pool_inv_new [OF assms] show ?thesis
    by (auto simp: sys_inv_def pool_start_def dest: item_free_range)
qed

lemma pool_reach_inv:
  assumes "pool_reach n s" "n \<le> 2 ^ 30"
  shows "sys_inv s"
  using assms(1)
proof (induction rule: pool_reach.induct)
  case (start p)
  then show ?case using sys_inv_start assms(2) by blast
qed (rule pool_step_keeps_inv)

section \<open>Properties\<close>

lemma pool_locked_card:
  assumes inv: "pool_inv p"
  shows "pool_locked p = int (card {i. 0 \<le> i \<and> i < pool_size p \<and> \<not> item_free p i})"
proof -
  let ?n = "nat (pool_size p)"
  have r: "0 \<le> pool_size p" "pool_size p \<le> int (length (avail p))" using inv by (auto simp: pool_inv_def)
  have "{i. 0 \<le> i \<and> i < pool_size p \<and> \<not> item_free p i} = int ` {j. j < ?n \<and> \<not> avail p ! j}"
  proof (intro set_eqI iffI)
    fix i assume "i \<in> {i. 0 \<le> i \<and> i < pool_size p \<and> \<not> item_free p i}"
    then show "i \<in> int ` {j. j < ?n \<and> \<not> avail p ! j}"
      by (intro image_eqI [of _ _ "nat i"]) (auto simp: item_free_def)
  qed (auto simp: item_free_def)
  then have "card {i. 0 \<le> i \<and> i < pool_size p \<and> \<not> item_free p i} = card {j. j < ?n \<and> \<not> avail p ! j}"
    by (simp add: card_image)
  also have "{j. j < ?n \<and> \<not> avail p ! j} =
      {j. j < length (take ?n (avail p)) \<and> \<not> take ?n (avail p) ! j}"
    using r by auto
  also have "card \<dots> = used (take ?n (avail p))"
    by (simp only: length_filter_conv_card)
  finally show ?thesis using inv by (simp add: pool_inv_def)
qed

lemma pool_locked_holders:
  assumes inv: "sys_inv s"
  shows "finite {t. \<exists>i. at s t = Holding i}"
    and "pool_locked (shared s) = int (card {t. \<exists>i. at s t = Holding i})"
proof -
  let ?I = "{i. 0 \<le> i \<and> i < pool_size (shared s) \<and> \<not> item_free (shared s) i}"
  let ?T = "{t. \<exists>i. at s t = Holding i}"
  let ?h = "\<lambda>t. THE i. at s t = Holding i"
  have h: "?h t = i" if "at s t = Holding i" for t i using that by (intro the_equality) auto
  have "bij_betw ?h ?T ?I"
  proof (intro bij_betw_imageI inj_onI set_eqI iffI)
    fix t u assume "t \<in> ?T" "u \<in> ?T" "?h t = ?h u"
    then show "t = u" using h sys_invD(5) [OF inv] by fastforce
  next
    fix i assume "i \<in> ?h ` ?T"
    then obtain t where "at s t = Holding i" using h by auto
    then show "i \<in> ?I" using sys_invD(3) [OF inv, of i] sys_invD(4) [OF inv] by blast
  next
    fix i assume "i \<in> ?I"
    then obtain t where "at s t = Holding i" using sys_invD(3) [OF inv, of i] by blast
    then show "i \<in> ?h ` ?T" using h by force
  qed
  moreover have "finite ?I" by (rule finite_subset [of _ "{0..pool_size (shared s)}"]) auto
  ultimately show "finite ?T" "pool_locked (shared s) = int (card ?T)"
    using pool_locked_card [OF sys_invD(1) [OF inv]] by (auto simp: bij_betw_finite bij_betw_same_card)
qed

text \<open>
  C3: in every interleaving of any number of threads that get, wait for and return items, lock
  and enlarge the pool, no two threads hold the same item, an item is marked in use exactly
  when a thread holds it, and the counter of the pool is the number of threads that hold one.
\<close>

theorem pool_mutual_exclusion:
  assumes "pool_reach n s" "n \<le> 2 ^ 30"
  shows "(\<forall>t u i. at s t = Holding i \<and> at s u = Holding i \<longrightarrow> t = u) \<and>
    (\<forall>i. 0 \<le> i \<and> i < pool_size (shared s) \<longrightarrow>
       (item_free (shared s) i \<longleftrightarrow> \<not> (\<exists>t. at s t = Holding i))) \<and>
    pool_locked (shared s) = int (card {t. \<exists>i. at s t = Holding i})"
proof -
  note inv = pool_reach_inv [OF assms]
  show ?thesis using sys_invD(3,5) [OF inv] pool_locked_holders(2) [OF inv] by blast
qed

lemma pool_reach_one:
  "pool_reach 1 (pool_start \<lparr>pool_size = 1, pool_alloc = 1, pool_locked = 0, avail = [True]\<rparr>)"
  by (rule pool_reach.start) (simp add: proxy_pool_new_def grow_alloc_stop upto.simps)

lemma pool_reach_one_held:
  "pool_reach 1 \<lparr>shared = \<lparr>pool_size = 1, pool_alloc = 1, pool_locked = 1, avail = [False]\<rparr>,
     at = (\<lambda>_. Outside)(0 := Holding 0), owner = None\<rparr>"
proof (rule pool_reach.step [OF pool_reach_one])
  show "pool_step 0 (pool_start \<lparr>pool_size = 1, pool_alloc = 1, pool_locked = 0, avail = [True]\<rparr>)
    \<lparr>shared = \<lparr>pool_size = 1, pool_alloc = 1, pool_locked = 1, avail = [False]\<rparr>,
     at = (\<lambda>_. Outside)(0 := Holding 0), owner = None\<rparr>"
    using pool_step.get_hit [of "pool_start \<lparr>pool_size = 1, pool_alloc = 1, pool_locked = 0, avail = [True]\<rparr>" 0 0]
    by (simp add: pool_start_def may_enter_def pool_try_locks_def)
qed

theorem pool_mutual_exclusion_witness:
  "\<exists>s. pool_reach 1 s \<and> at s 0 = Holding 0 \<and> \<not> item_free (shared s) 0 \<and> (\<forall>u. at s u = Holding 0 \<longrightarrow> u = 0) \<and>
     pool_locked (shared s) = int (card {t. \<exists>i. at s t = Holding i})"
proof (intro exI conjI)
  have "(1 :: int) \<le> 2 ^ 30" by simp
  note m = pool_mutual_exclusion [OF pool_reach_one_held this, THEN conjunct2, THEN conjunct2]
  let ?s = "\<lparr>shared = \<lparr>pool_size = 1, pool_alloc = 1, pool_locked = 1, avail = [False]\<rparr>,
     at = (\<lambda>_. Outside)(0 := Holding 0), owner = None\<rparr>"
  show "pool_reach 1 ?s" by (rule pool_reach_one_held)
  show "pool_locked (shared ?s) = int (card {t. \<exists>i. at ?s t = Holding i})" by (rule m)
  show "\<not> item_free (shared ?s) 0" by (simp add: item_free_def)
qed simp_all

text \<open>
  While a thread is between \<open>proxy_pool_lock\<close> and \<open>proxy_pool_unlock\<close>, no step of
  another thread changes the pool, and no other thread gets or loses an item.
\<close>

theorem proxy_pool_lock_excludes:
  assumes "pool_step t s s'" "owner s = Some (u, d)" "t \<noteq> u"
  shows "shared s' = shared s \<and> owner s' = owner s \<and> (\<forall>v i. at s' v = Holding i \<longleftrightarrow> at s v = Holding i)"
  using assms by (cases rule: pool_step.cases) (auto simp: may_enter_def)

theorem proxy_pool_lock_excludes_witness:
  "\<exists>s s'. owner s = Some (0, 1) \<and> at s 1 = Before_wait \<and> pool_step 1 s s' \<and>
     shared s' = shared s \<and> owner s' = owner s \<and> (\<forall>v i. at s' v = Holding i \<longleftrightarrow> at s v = Holding i)"
proof -
  let ?s = "proxy_pool_lock \<lparr>shared = \<lparr>pool_size = 1, pool_alloc = 1, pool_locked = 1, avail = [False]\<rparr>,
     at = (\<lambda>_. Outside)(0 := Holding 0, 1 := Before_wait), owner = None\<rparr> 0"
  have o: "owner ?s = Some (0, 1)" "at ?s 1 = Before_wait" by (simp_all add: proxy_pool_lock_def)
  have st: "pool_step 1 ?s (?s\<lparr>at := (at ?s)(1 := Waiting)\<rparr>)" by (rule pool_step.wait [OF o(2)])
  from proxy_pool_lock_excludes [OF this o(1)] o st show ?thesis by blast
qed

text \<open>
  C12: the wait can miss the signal it waits for. A thread that found no item waits on the
  condition variable without looking at the pool again, so a state is reached in which the only
  item is free, no thread holds or wants it, and the thread still waits.
\<close>

theorem proxy_pool_get_lost_wakeup:
  "\<exists>s. pool_reach 1 s \<and> item_free (shared s) 0 \<and> at s = (\<lambda>_. Outside)(1 := Waiting) \<and> owner s = None"
proof -
  let ?f = "\<lparr>pool_size = 1, pool_alloc = 1, pool_locked = 0, avail = [True]\<rparr>"
  let ?u = "\<lparr>pool_size = 1, pool_alloc = 1, pool_locked = 1, avail = [False]\<rparr>"
  let ?s1 = "\<lparr>shared = ?u, at = (\<lambda>_. Outside)(0 := Holding 0), owner = None\<rparr>"
  let ?s2 = "?s1\<lparr>at := (at ?s1)(1 := Before_wait)\<rparr>"
  let ?s3 = "?s2\<lparr>shared := ?f, at := (at ?s2)(0 := Before_signal)\<rparr>"
  let ?s4 = "?s3\<lparr>at := (at ?s3)(0 := Outside)\<rparr>"
  let ?s5 = "?s4\<lparr>at := (at ?s4)(1 := Waiting)\<rparr>"
  have "pool_step 1 ?s1 (?s1\<lparr>shared := ?u, at := (at ?s1)(1 := Before_wait)\<rparr>)"
    by (rule pool_step.get_miss [of _ _ 0 "-1"]) (simp_all add: may_enter_def pool_try_locks_def)
  then have "pool_reach 1 ?s2" using pool_reach.step [OF pool_reach_one_held] by simp
  moreover have "pool_step 0 ?s2 ?s3"
    by (rule pool_step.giveback [of _ _ 0]) (simp_all add: may_enter_def proxy_pool_return_def)
  moreover have "pool_step 0 ?s3 ?s4" by (rule pool_step.signal_none) simp_all
  moreover have "pool_step 1 ?s4 ?s5" by (rule pool_step.wait) simp
  ultimately have "pool_reach 1 ?s5" by (meson pool_reach.step)
  moreover have "at ?s5 = (\<lambda>_. Outside)(1 := Waiting)" by (simp add: fun_eq_iff)
  moreover have "item_free (shared ?s5) 0" by (simp add: item_free_def)
  ultimately show ?thesis by (intro exI [of _ ?s5]) simp
qed

end
