(* ===== verification/C_String.thy ===== *)
theory C_String
  imports Prelude
begin

text \<open>
  Strings as C has them: a buffer is the list of the bytes of a char array, a pointer into it
  is an offset, and the string at an offset ends before the first NUL byte. The functions of
  the C library that the proxy calls are defined on buffers, so that the tokenizer, which
  writes into the buffer, has its effect on later reads; a read outside the buffer is
  undefined. Numbers are printed and read in base ten, with the range errors of \<open>strtol\<close>.

  The theory shows what one call of the tokenizer does on the shapes of text the proxy sends
  and receives, that tokenizing a whole buffer gives the words of its string, and that reading
  a printed number gives the number back.
\<close>

section \<open>Buffers and strings\<close>

type_synonym cbuf = "char list"

abbreviation NUL :: char where "NUL \<equiv> CHR 0x00"

definition rd :: "cbuf \<Rightarrow> nat \<Rightarrow> char option" where
  "rd b i = (if i < length b then Some (b ! i) else None)"

definition wr :: "cbuf \<Rightarrow> nat \<Rightarrow> char \<Rightarrow> cbuf option" where
  "wr b i c = (if i < length b then Some (b[i := c]) else None)"

text \<open>A block of bytes written at an offset, as \<open>memcpy\<close> does.\<close>

definition put :: "cbuf \<Rightarrow> nat \<Rightarrow> string \<Rightarrow> cbuf option" where
  "put b i bs = (if i + length bs \<le> length b then Some (take i b @ bs @ drop (i + length bs) b) else None)"

text \<open>The string at an offset, undefined when no NUL ends it inside the buffer.\<close>

definition cstr :: "cbuf \<Rightarrow> nat \<Rightarrow> string option" where
  "cstr b i = (if NUL \<in> set (drop i b) then Some (takeWhile (\<lambda>c. c \<noteq> NUL) (drop i b)) else None)"

text \<open>Offsets of the first and of the last occurrence of a character in a string.\<close>

fun find_first :: "char \<Rightarrow> string \<Rightarrow> nat option" where
  "find_first c [] = None"
| "find_first c (x # xs) = (if x = c then Some 0 else map_option Suc (find_first c xs))"

fun find_last :: "char \<Rightarrow> string \<Rightarrow> nat option" where
  "find_last c [] = None"
| "find_last c (x # xs) =
     (case find_last c xs of Some k \<Rightarrow> Some (Suc k) | None \<Rightarrow> if x = c then Some 0 else None)"

definition strchr :: "cbuf \<Rightarrow> nat \<Rightarrow> char \<Rightarrow> nat option option" where
  "strchr b i c = do { s \<leftarrow> cstr b i; Some (map_option (\<lambda>k. i + k) (find_first c s)) }"

definition strrchr :: "cbuf \<Rightarrow> nat \<Rightarrow> char \<Rightarrow> nat option option" where
  "strrchr b i c = do { s \<leftarrow> cstr b i; Some (map_option (\<lambda>k. i + k) (find_last c s)) }"

section \<open>Comparison without case\<close>

definition to_lower :: "char \<Rightarrow> char" where
  "to_lower c = (if 65 \<le> (of_char c :: nat) \<and> (of_char c :: nat) \<le> 90 then char_of ((of_char c :: nat) + 32) else c)"

text \<open>
  \<open>strncasecmp(s, lit, strlen(lit)) == 0\<close> for a literal: character by character, stopping at
  the first difference (the literal has no NUL, so the end of \<open>s\<close> is a difference).
\<close>

fun strncaseeq :: "cbuf \<Rightarrow> nat \<Rightarrow> string \<Rightarrow> bool option" where
  "strncaseeq b i [] = Some True"
| "strncaseeq b i (c # cs) =
     do { x \<leftarrow> rd b i; if to_lower x = to_lower c then strncaseeq b (Suc i) cs else Some False }"

text \<open>The macro of the proxy, with the given length compared to that of the literal first.\<close>

definition strprefix :: "cbuf \<Rightarrow> nat \<Rightarrow> string \<Rightarrow> ulong \<Rightarrow> bool option" where
  "strprefix b i lit len = (if of_nat (length lit) > len then Some False else strncaseeq b i lit)"

section \<open>The tokenizer\<close>

text \<open>
  \<open>strtok_r\<close>: without a start the saved pointer is used. Leading delimiters are skipped; at
  the end of the string there is no token, otherwise the delimiter after the token is
  overwritten with NUL and the saved pointer moves behind it.
\<close>

definition strtok_r :: "string \<Rightarrow> cbuf \<Rightarrow> nat option \<Rightarrow> nat option \<Rightarrow> (nat option \<times> nat option \<times> cbuf) option" where
  "strtok_r ds b str save =
     (case (case str of None \<Rightarrow> save | Some i \<Rightarrow> Some i) of
        None \<Rightarrow> None
      | Some i \<Rightarrow>
          do {
            s \<leftarrow> cstr b i;
            let start = i + length (takeWhile (\<lambda>c. c \<in> set ds) s);
            let rest = dropWhile (\<lambda>c. c \<in> set ds) s;
            let tok = takeWhile (\<lambda>c. c \<notin> set ds) rest;
            let fin = start + length tok;
            if rest = [] then Some (None, Some start, b)
            else if tok = rest then Some (Some start, Some fin, b)
            else Some (Some start, Some (Suc fin), b[fin := NUL])
          })"

text \<open>All tokens of a string: its maximal runs without delimiters.\<close>

function words_of :: "string \<Rightarrow> string \<Rightarrow> string list" where
  "words_of ds s =
     (case dropWhile (\<lambda>c. c \<in> set ds) s of
        [] \<Rightarrow> []
      | c # cs \<Rightarrow> (c # takeWhile (\<lambda>c. c \<notin> set ds) cs) # words_of ds (dropWhile (\<lambda>c. c \<notin> set ds) cs))"
  by pat_completeness auto
termination
proof (relation "measure (\<lambda>(ds, s). length s)")
  fix ds s c cs
  assume "dropWhile (\<lambda>c. c \<in> set ds) s = c # cs"
  then have "length (c # cs) \<le> length s" by (metis length_dropWhile_le)
  then show "((ds, dropWhile (\<lambda>c. c \<notin> set ds) cs), ds, s) \<in> measure (\<lambda>(ds, s). length s)"
    using length_dropWhile_le [of "\<lambda>c. c \<notin> set ds" cs] by simp
qed simp

declare words_of.simps [simp del]

section \<open>Numbers\<close>

definition is_space :: "char \<Rightarrow> bool" where
  "is_space c \<longleftrightarrow> c = CHR '' '' \<or> (9 \<le> (of_char c :: nat) \<and> (of_char c :: nat) \<le> 13)"

definition is_digit :: "char \<Rightarrow> bool" where
  "is_digit c \<longleftrightarrow> 48 \<le> (of_char c :: nat) \<and> (of_char c :: nat) \<le> 57"

definition digits_value :: "string \<Rightarrow> int" where
  "digits_value ds = foldl (\<lambda>n c. 10 * n + (of_char c - 48)) 0 ds"

text \<open>\<open>strtol(s, NULL, 10)\<close>: the value, clamped to the range of long, and whether errno was set.\<close>

definition strtol :: "string \<Rightarrow> int \<times> bool" where
  "strtol s =
     (let s = dropWhile is_space s;
          (neg, s) = (case s of
             [] \<Rightarrow> (False, [])
           | c # cs \<Rightarrow> if c = CHR ''-'' then (True, cs) else if c = CHR ''+'' then (False, cs) else (False, s));
          v = digits_value (takeWhile is_digit s);
          v = (if neg then - v else v)
      in if v > LONG_MAX then (LONG_MAX, True) else if v < LONG_MIN then (LONG_MIN, True) else (v, False))"

definition atoi :: "string \<Rightarrow> int" where
  "atoi s = int_of_long (fst (strtol s))"

text \<open>Printing with \<open>%lu\<close> and \<open>%d\<close>.\<close>

definition digit :: "nat \<Rightarrow> char" where
  "digit n = char_of (48 + n)"

fun print_nat :: "nat \<Rightarrow> string" where
  "print_nat n = (if n < 10 then [digit n] else print_nat (n div 10) @ [digit (n mod 10)])"

declare print_nat.simps [simp del]

definition print_int :: "int \<Rightarrow> string" where
  "print_int i = (if i < 0 then CHR ''-'' # print_nat (nat (- i)) else print_nat (nat i))"

definition print_ulong :: "ulong \<Rightarrow> string" where
  "print_ulong x = print_nat (unat x)"

section \<open>Facts on strings in buffers\<close>

lemma takeWhile_NUL [simp]: "NUL \<notin> set s \<Longrightarrow> takeWhile (\<lambda>c. c \<noteq> NUL) (s @ NUL # post) = s"
  by (induction s) auto

lemma cstr_append [cstr_simps]: "NUL \<notin> set s \<Longrightarrow> cstr (pre @ s @ NUL # post) (length pre) = Some s"
  by (simp add: cstr_def)

lemma cstr_drop: "drop i b = s @ NUL # post \<Longrightarrow> NUL \<notin> set s \<Longrightarrow> cstr b i = Some s"
  by (simp add: cstr_def)

lemma cstr_SomeD:
  assumes "cstr b i = Some s"
  shows "NUL \<notin> set s \<and> (\<exists>post. drop i b = s @ NUL # post)"
proof -
  let ?d = "drop i b"
  have n: "NUL \<in> set ?d" and s: "s = takeWhile (\<lambda>c. c \<noteq> NUL) ?d"
    using assms by (auto simp: cstr_def split: if_splits)
  have "dropWhile (\<lambda>c. c \<noteq> NUL) ?d \<noteq> []" using n by simp
  then obtain x post where d: "dropWhile (\<lambda>c. c \<noteq> NUL) ?d = x # post" by (cases "dropWhile (\<lambda>c. c \<noteq> NUL) ?d") auto
  moreover have "x = NUL" using hd_dropWhile [of "\<lambda>c. c \<noteq> NUL" ?d] d by simp
  ultimately have "?d = s @ NUL # post" using takeWhile_dropWhile_id [of "\<lambda>c. c \<noteq> NUL" ?d] s by simp
  moreover have "NUL \<notin> set s" unfolding s by (auto dest: set_takeWhileD)
  ultimately show ?thesis by blast
qed

lemma find_last_None: "find_last c s = None \<longleftrightarrow> c \<notin> set s"
  by (induction s) (auto split: option.splits)

lemma find_last_append: "c \<notin> set ys \<Longrightarrow> find_last c (xs @ c # ys) = Some (length xs)"
  by (induction xs) (auto simp: find_last_None split: option.splits)

lemma find_first_None: "find_first c s = None \<longleftrightarrow> c \<notin> set s"
  by (induction s) auto

lemma find_first_append: "c \<notin> set xs \<Longrightarrow> find_first c (xs @ c # ys) = Some (length xs)"
  by (induction xs) auto

lemma find_first_Some:
  "find_first c s = Some k \<Longrightarrow> k < length s \<and> s ! k = c \<and> c \<notin> set (take k s)"
  by (induction s arbitrary: k) (auto split: if_splits)

lemma strncaseeq_append:
  "strncaseeq (pre @ s @ post) (length pre) lit =
     (if length lit \<le> length s then Some (map to_lower (take (length lit) s) = map to_lower lit)
      else strncaseeq (pre @ s @ post) (length pre) lit)"
proof (cases "length lit \<le> length s")
  case True
  then show ?thesis
  proof (induction lit arbitrary: pre s)
    case Nil
    then show ?case by simp
  next
    case (Cons c cs)
    then obtain x xs where s: "s = x # xs" by (cases s) auto
    have "strncaseeq ((pre @ [x]) @ xs @ post) (length (pre @ [x])) cs =
        Some (map to_lower (take (length cs) xs) = map to_lower cs)"
      using Cons.IH [of xs "pre @ [x]"] Cons.prems s by simp
    with s Cons.prems show ?case by (simp add: rd_def)
  qed
qed simp

text \<open>A string shorter than the literal is not a match when it ends inside the buffer.\<close>

lemma to_lower_NUL [simp]: "to_lower NUL = NUL"
  by (simp add: to_lower_def)

lemma to_lower_eq_NUL [simp]: "to_lower c = NUL \<longleftrightarrow> c = NUL"
proof
  assume a: "to_lower c = NUL"
  show "c = NUL"
  proof (cases "65 \<le> (of_char c :: nat) \<and> (of_char c :: nat) \<le> 90")
    case True
    then have "to_lower c = char_of ((of_char c :: nat) + 32)" by (simp add: to_lower_def)
    then have "(of_char (char_of ((of_char c :: nat) + 32) :: char) :: nat) = of_char NUL" using a by simp
    then have "((of_char c :: nat) + 32) mod 256 = 0" by simp
    with True show ?thesis by simp
  next
    case False
    with a show ?thesis by (simp add: to_lower_def split: if_splits)
  qed
qed simp

lemma strncaseeq_cstr:
  assumes "cstr b i = Some s" "NUL \<notin> set lit"
  shows "strncaseeq b i lit = Some (length lit \<le> length s \<and> map to_lower (take (length lit) s) = map to_lower lit)"
  using assms
proof (induction lit arbitrary: i s)
  case Nil
  then show ?case by simp
next
  case (Cons c cs)
  from cstr_SomeD [OF Cons.prems(1)] obtain post where d: "drop i b = s @ NUL # post" "NUL \<notin> set s" by blast
  then have i: "i < length b" by (metis append_is_Nil_conv drop_eq_Nil list.distinct(1) not_le)
  have nth: "b ! i = hd (s @ NUL # post)" using d(1) i by (metis hd_drop_conv_nth)
  show ?case
  proof (cases s)
    case Nil
    then show ?thesis using i nth Cons.prems(2) by (auto simp: rd_def) (metis to_lower_NUL to_lower_eq_NUL)
  next
    case (Cons x xs)
    have "drop (Suc i) b = xs @ NUL # post" using d(1) Cons by (metis append_Cons drop_Suc list.sel(3) tl_drop)
    then have "cstr b (Suc i) = Some xs" using d(2) Cons by (intro cstr_drop) auto
    then show ?thesis using Cons.IH [of "Suc i" xs] Cons.prems(2) i nth Cons by (auto simp: rd_def)
  qed
qed

section \<open>Facts on the tokenizer\<close>

lemma takeWhile_run: "(\<And>x. x \<in> set xs \<Longrightarrow> P x) \<Longrightarrow> \<not> P y \<Longrightarrow> takeWhile P (xs @ y # ys) = xs"
  by (induction xs) auto

lemma dropWhile_run: "(\<And>x. x \<in> set xs \<Longrightarrow> P x) \<Longrightarrow> \<not> P y \<Longrightarrow> dropWhile P (xs @ y # ys) = y # ys"
  by (induction xs) auto

lemma strtok_r_start: "strtok_r ds b None (Some i) = strtok_r ds b (Some i) save"
  by (simp add: strtok_r_def)

text \<open>A token that a delimiter follows: the delimiter is cut out of the buffer.\<close>

lemma strtok_r_token:
  assumes "cstr b i = Some (sp @ tok @ d # rest)" "set sp \<subseteq> set ds" "set tok \<inter> set ds = {}" "tok \<noteq> []" "d \<in> set ds"
  shows "strtok_r ds b (Some i) save =
    Some (Some (i + length sp), Some (i + length sp + length tok + 1), b[i + length sp + length tok := NUL])"
proof -
  obtain t ts where t: "tok = t # ts" using assms(4) by (cases tok) auto
  have sp: "takeWhile (\<lambda>c. c \<in> set ds) (sp @ t # ts @ d # rest) = sp"
    "dropWhile (\<lambda>c. c \<in> set ds) (sp @ t # ts @ d # rest) = t # ts @ d # rest"
    using assms(2,3) t by (intro takeWhile_run dropWhile_run; auto)+
  have tk: "takeWhile (\<lambda>c. c \<notin> set ds) (t # ts @ d # rest) = t # ts"
    unfolding append_Cons [symmetric] using assms(3,5) t by (intro takeWhile_run; auto)
  show ?thesis unfolding strtok_r_def Let_def using assms(1,3) t
    by (simp add: sp tk del: takeWhile.simps dropWhile.simps takeWhile_eq_all_conv)
qed

text \<open>The last token of the string: the buffer stays as it is.\<close>

lemma strtok_r_last:
  assumes "cstr b i = Some (sp @ tok)" "set sp \<subseteq> set ds" "set tok \<inter> set ds = {}" "tok \<noteq> []"
  shows "strtok_r ds b (Some i) save = Some (Some (i + length sp), Some (i + length sp + length tok), b)"
proof -
  obtain t ts where t: "tok = t # ts" using assms(4) by (cases tok) auto
  have sp: "takeWhile (\<lambda>c. c \<in> set ds) (sp @ t # ts) = sp" "dropWhile (\<lambda>c. c \<in> set ds) (sp @ t # ts) = t # ts"
    using assms(2,3) t by (intro takeWhile_run dropWhile_run; auto)+
  have tk: "takeWhile (\<lambda>c. c \<notin> set ds) (t # ts) = t # ts"
    unfolding takeWhile_eq_all_conv using assms(3) t by auto
  show ?thesis unfolding strtok_r_def Let_def using assms(1,3) t
    by (simp add: sp tk del: takeWhile.simps dropWhile.simps takeWhile_eq_all_conv)
qed

text \<open>Only delimiters are left: no token.\<close>

lemma strtok_r_none:
  assumes "cstr b i = Some sp" "set sp \<subseteq> set ds"
  shows "strtok_r ds b (Some i) save = Some (None, Some (i + length sp), b)"
proof -
  have tw: "takeWhile (\<lambda>c. c \<in> set ds) sp = sp" unfolding takeWhile_eq_all_conv using assms(2) by auto
  have dw: "dropWhile (\<lambda>c. c \<in> set ds) sp = []" unfolding dropWhile_eq_Nil_conv using assms(2) by auto
  show ?thesis unfolding strtok_r_def Let_def using assms(1) by (simp add: tw dw del: dropWhile_eq_Nil_conv)
qed

lemma cstr_cut:
  assumes "drop i b = s @ c # rest" "NUL \<notin> set s"
  shows "cstr (b[i + length s := NUL]) i = Some s"
proof (rule cstr_drop)
  show "drop i (b[i + length s := NUL]) = s @ NUL # rest"
    using assms(1) by (simp add: drop_update_swap list_update_append)
qed (fact assms(2))

lemma cstr_cut_after:
  assumes "j < i"
  shows "cstr (b[j := c]) i = cstr b i"
  using assms by (simp add: cstr_def)

section \<open>Facts on numbers\<close>

lemma of_char_digit [simp]: "n < 10 \<Longrightarrow> (of_char (digit n) :: nat) = 48 + n"
  by (simp add: digit_def)

lemma of_char_digit_int [simp]: "n < 10 \<Longrightarrow> (of_char (digit n) :: int) = 48 + int n"
proof -
  assume "n < 10"
  then have "int (of_char (digit n)) = 48 + int n" by simp
  then show ?thesis by (simp only: of_nat_of_char)
qed

lemma is_digit_digit [simp]: "n < 10 \<Longrightarrow> is_digit (digit n)"
  by (simp add: is_digit_def)

lemma print_nat_digits: "\<forall>c\<in>set (print_nat n). is_digit c"
  by (induction n rule: print_nat.induct) (subst print_nat.simps, auto)

lemma print_nat_not_Nil [simp]: "print_nat n \<noteq> []"
  by (subst print_nat.simps) simp

lemma length_print_nat: "0 < k \<Longrightarrow> n < 10 ^ k \<Longrightarrow> length (print_nat n) \<le> k"
proof (induction k arbitrary: n)
  case (Suc k)
  show ?case
  proof (cases "n < 10")
    case True
    then show ?thesis by (subst print_nat.simps) simp
  next
    case False
    then have "0 < k" "n div 10 < 10 ^ k" using Suc.prems by (auto intro!: Nat.gr0I simp: less_mult_imp_div_less mult.commute)
    then show ?thesis using False Suc.IH by (subst print_nat.simps) simp
  qed
qed simp

lemma digits_value_snoc: "digits_value (ds @ [c]) = 10 * digits_value ds + (of_char c - 48)"
  by (simp add: digits_value_def)

lemma digits_value_print_nat: "digits_value (print_nat n) = int n"
proof (induction n rule: print_nat.induct)
  case (1 n)
  show ?case
  proof (cases "n < 10")
    case True
    then show ?thesis by (subst print_nat.simps) (simp add: digits_value_def)
  next
    case False
    then have "digits_value (print_nat n) = 10 * int (n div 10) + int (n mod 10)"
      using 1 by (subst print_nat.simps) (simp add: digits_value_snoc)
    then show ?thesis by (metis mult_div_mod_eq of_nat_add of_nat_mult of_nat_numeral)
  qed
qed

lemma digit_chars:
  assumes "is_digit c"
  shows "\<not> is_space c" "c \<noteq> CHR ''-''" "c \<noteq> CHR ''+''" "c \<noteq> NUL" "c \<noteq> CHR '' ''" "c \<noteq> CHR '':''" "c \<noteq> CHR '';''"
  using assms by (auto simp: is_digit_def is_space_def)

text \<open>A run of digits that something else follows is read as its value, clamped at the top.\<close>

lemma strtol_digits:
  assumes "ds \<noteq> []" "\<forall>c\<in>set ds. is_digit c" "rest = [] \<or> \<not> is_digit (hd rest)" "0 \<le> digits_value ds"
  shows "strtol (ds @ rest) = (if digits_value ds > LONG_MAX then (LONG_MAX, True) else (digits_value ds, False))"
proof -
  obtain c cs where ds: "ds = c # cs" using assms(1) by (cases ds) auto
  then have c: "\<not> is_space c" "c \<noteq> CHR ''-''" "c \<noteq> CHR ''+''" using digit_chars assms(2) by auto
  have "takeWhile is_digit (ds @ rest) = ds @ takeWhile is_digit rest" using assms(2) by (simp add: takeWhile_append2)
  also have "takeWhile is_digit rest = []" using assms(3) by (cases rest) auto
  finally have "takeWhile is_digit (c # cs @ rest) = c # cs" using ds by simp
  then show ?thesis using c assms(4) ds by (simp add: strtol_def del: takeWhile.simps)
qed

lemma strtol_print_nat:
  assumes "rest = [] \<or> \<not> is_digit (hd rest)"
  shows "strtol (print_nat n @ rest) = (if int n > LONG_MAX then (LONG_MAX, True) else (int n, False))"
  using strtol_digits [OF print_nat_not_Nil print_nat_digits assms] by (simp add: digits_value_print_nat)

lemma strtol_print_int:
  assumes "INT_MIN \<le> n" "n \<le> INT_MAX"
  shows "strtol (print_int n) = (n, False)"
proof (cases "n < 0")
  case True
  have tw: "takeWhile is_digit (print_nat m) = print_nat m" for m
    unfolding takeWhile_eq_all_conv using print_nat_digits by blast
  show ?thesis using True assms by (simp add: print_int_def strtol_def is_space_def tw digits_value_print_nat)
next
  case False
  then show ?thesis using strtol_print_nat [of "[]" "nat n"] assms by (simp add: print_int_def)
qed

lemma print_nat_chars:
  "NUL \<notin> set (print_nat n)" "CHR '' '' \<notin> set (print_nat n)" "CHR '':'' \<notin> set (print_nat n)"
  "CHR '';'' \<notin> set (print_nat n)" "CHR ''-'' \<notin> set (print_nat n)"
  using print_nat_digits [of n] by (auto simp: is_digit_def)

section \<open>Splitting a string into words\<close>

lemma words_of_Nil: "words_of ds s = [] \<longleftrightarrow> dropWhile (\<lambda>c. c \<in> set ds) s = []"
  by (subst words_of.simps) (cases "dropWhile (\<lambda>c. c \<in> set ds) s"; simp del: dropWhile_eq_Nil_conv)

lemma words_of_Cons:
  assumes "words_of ds s = w # ws"
  shows "\<exists>c cs. dropWhile (\<lambda>c. c \<in> set ds) s = c # cs \<and> w = c # takeWhile (\<lambda>c. c \<notin> set ds) cs \<and>
    ws = words_of ds (dropWhile (\<lambda>c. c \<notin> set ds) cs)"
  using assms by (subst (asm) words_of.simps) (cases "dropWhile (\<lambda>c. c \<in> set ds) s"; simp)

lemma words_of_skip: "c \<in> set ds \<Longrightarrow> words_of ds (c # s) = words_of ds s"
  by (subst words_of.simps, subst (2) words_of.simps) simp

lemma words_of_tokens:
  assumes "cstr b i = Some s"
  shows "words_of ds s = [] \<Longrightarrow> \<exists>sv. strtok_r ds b (Some i) save = Some (None, sv, b)"
    and "words_of ds s = w # ws \<Longrightarrow> \<exists>st sv b' s'. strtok_r ds b (Some i) save = Some (Some st, Some sv, b') \<and>
      cstr b' st = Some w \<and> cstr b' sv = Some s' \<and> words_of ds s' = ws \<and> length b' = length b"
proof -
  obtain post where d: "drop i b = s @ NUL # post" and nn: "NUL \<notin> set s" using cstr_SomeD [OF assms] by blast
  let ?sp = "takeWhile (\<lambda>c. c \<in> set ds) s" and ?r = "dropWhile (\<lambda>c. c \<in> set ds) s"
  have sp: "set ?sp \<subseteq> set ds" by (auto dest: set_takeWhileD)
  show "\<exists>sv. strtok_r ds b (Some i) save = Some (None, sv, b)" if "words_of ds s = []"
  proof -
    have "?r = []" using that unfolding words_of_Nil .
    then have "?sp = s" using takeWhile_dropWhile_id [of "\<lambda>c. c \<in> set ds" s] by (metis append_Nil2)
    then have "set s \<subseteq> set ds" using sp by metis
    then show ?thesis using strtok_r_none [OF assms] by blast
  qed
  show "\<exists>st sv b' s'. strtok_r ds b (Some i) save = Some (Some st, Some sv, b') \<and>
      cstr b' st = Some w \<and> cstr b' sv = Some s' \<and> words_of ds s' = ws \<and> length b' = length b"
    if wo: "words_of ds s = w # ws"
  proof -
    obtain c cs where r: "?r = c # cs" "w = c # takeWhile (\<lambda>c. c \<notin> set ds) cs"
        "ws = words_of ds (dropWhile (\<lambda>c. c \<notin> set ds) cs)"
      using words_of_Cons [OF wo] by blast
    define rest where "rest = dropWhile (\<lambda>c. c \<notin> set ds) cs"
    have c: "c \<notin> set ds" using hd_dropWhile [of "\<lambda>c. c \<in> set ds" s] r(1) by simp
    have s: "s = ?sp @ w @ rest"
      using takeWhile_dropWhile_id [of "\<lambda>c. c \<in> set ds" s] takeWhile_dropWhile_id [of "\<lambda>c. c \<notin> set ds" cs] r(1,2)
      by (simp add: rest_def)
    have w: "set w \<inter> set ds = {}" "w \<noteq> []" using r(2) c by (auto dest: set_takeWhileD)
    have di: "drop (i + length ?sp) b = w @ rest @ NUL # post"
    proof -
      have "drop (length ?sp) (drop i b) = w @ rest @ NUL # post" unfolding d by (subst s) simp
      then show ?thesis by (simp add: add.commute)
    qed
    have nw: "NUL \<notin> set w" "NUL \<notin> set rest" using nn s by (metis Un_iff set_append)+
    show ?thesis
    proof (cases rest)
      case Nil
      then have "cstr b i = Some (?sp @ w)" using assms s by simp
      note t = strtok_r_last [OF this sp w]
      have "cstr b (i + length ?sp) = Some w" using di Nil nw by (intro cstr_drop) auto
      moreover have "drop (i + length ?sp + length w) b = [] @ NUL # post"
        using arg_cong [OF di, of "drop (length w)"] Nil by (simp add: add.commute)
      then have "cstr b (i + length ?sp + length w) = Some []" by (intro cstr_drop) auto
      moreover have "words_of ds [] = ws" using r(3) Nil unfolding rest_def [symmetric] by simp
      ultimately show ?thesis using t by blast
    next
      case (Cons x xs)
      have "dropWhile (\<lambda>c. c \<notin> set ds) cs = x # xs" using Cons rest_def by simp
      then have x: "x \<in> set ds" using hd_dropWhile [of "\<lambda>c. c \<notin> set ds" cs] by (metis list.distinct(1) list.sel(1))
      have "cstr b i = Some (?sp @ w @ x # xs)" using assms s Cons by simp
      note t = strtok_r_token [OF this sp w x]
      have "cstr (b[i + length ?sp + length w := NUL]) (i + length ?sp) = Some w"
        using di Cons nw(1) by (intro cstr_cut) auto
      moreover have "drop (i + length ?sp + length w + 1) b = xs @ NUL # post"
        using arg_cong [OF di, of "drop (length w + 1)"] Cons by (simp add: add.commute)
      then have "cstr (b[i + length ?sp + length w := NUL]) (i + length ?sp + length w + 1) = Some xs"
        using nw(2) Cons by (subst cstr_cut_after) (auto intro!: cstr_drop)
      moreover have "words_of ds xs = ws"
        using r(3) x Cons words_of_skip unfolding rest_def [symmetric] by simp
      ultimately show ?thesis using t by (metis length_list_update)
    qed
  qed
qed

text \<open>A delimiter separates the words before it from those after it.\<close>

lemma words_of_append:
  assumes "d \<in> set ds"
  shows "words_of ds (l @ d # r) = words_of ds l @ words_of ds r"
proof (induction l rule: length_induct)
  case (1 s)
  show ?case
  proof (cases "dropWhile (\<lambda>c. c \<in> set ds) s")
      case Nil
      then have "\<forall>c\<in>set s. c \<in> set ds" by simp
      then have "words_of ds (s @ d # r) = words_of ds r"
      proof (induction s)
        case (Cons c s)
        then show ?case by (simp add: words_of_skip)
      qed (simp add: assms words_of_skip)
      then show ?thesis using Nil unfolding words_of_Nil [symmetric] by simp
    next
      case (Cons c cs)
      let ?t = "takeWhile (\<lambda>c. c \<notin> set ds)" and ?d = "dropWhile (\<lambda>c. c \<notin> set ds)"
      have s: "words_of ds s = (c # ?t cs) # words_of ds (?d cs)" by (subst words_of.simps) (simp add: Cons)
      have "\<exists>x\<in>set s. x \<notin> set ds" using Cons by (metis dropWhile_eq_Nil_conv list.distinct(1))
      then have "dropWhile (\<lambda>c. c \<in> set ds) (s @ d # r) = c # cs @ d # r"
        using Cons by (auto simp: dropWhile_append1)
      then have a: "words_of ds (s @ d # r) = (c # ?t (cs @ d # r)) # words_of ds (?d (cs @ d # r))"
        by (subst words_of.simps) simp
      show ?thesis
      proof (cases "\<exists>x\<in>set cs. x \<in> set ds")
        case True
        then have "?t (cs @ d # r) = ?t cs" "?d (cs @ d # r) = ?d cs @ d # r"
          by (auto simp: takeWhile_append1 dropWhile_append1)
        moreover have "length (?d cs) < length s"
          using length_dropWhile_le [of "\<lambda>c. c \<in> set ds" s] length_dropWhile_le [of "\<lambda>c. c \<notin> set ds" cs] Cons by simp
        then have "words_of ds (?d cs @ d # r) = words_of ds (?d cs) @ words_of ds r" using 1 by blast
        ultimately show ?thesis using a s by simp
      next
        case False
        then have t: "?t (cs @ d # r) = cs" "?d (cs @ d # r) = d # r"
          using assms by (auto simp: takeWhile_append2 dropWhile_append2)
        have cs: "?t cs = cs" "?d cs = []"
          unfolding takeWhile_eq_all_conv dropWhile_eq_Nil_conv using False by auto
        have "words_of ds [] = []" by (simp add: words_of_Nil)
        then show ?thesis using a s unfolding t cs by (simp add: words_of_skip assms)
      qed
  qed
qed

lemma words_of_word:
  assumes "w \<noteq> []" "set w \<inter> set ds = {}"
  shows "words_of ds w = [w]"
proof -
  obtain c cs where w: "w = c # cs" using assms(1) by (cases w) auto
  have cs: "takeWhile (\<lambda>c. c \<notin> set ds) cs = cs" "dropWhile (\<lambda>c. c \<notin> set ds) cs = []"
    unfolding takeWhile_eq_all_conv dropWhile_eq_Nil_conv using assms(2) w by auto
  have "words_of ds [] = []" by (simp add: words_of_Nil)
  moreover have "dropWhile (\<lambda>c. c \<in> set ds) w = c # cs" using assms(2) w by simp
  ultimately show ?thesis unfolding w by (subst words_of.simps) (simp add: cs w)
qed

end
