(* ===== verification/Backend_File.thy ===== *)
theory Backend_File
  imports C_String
begin

text \<open>
  Reading the list of backends from a file (\<open>backend_read_file\<close> in
  \<open>src/proxy_backend.c\<close>). The file system is an argument: the contents of the file, or
  that it cannot be opened or read. The result is the array of host pointers that the code
  allocates, where an unused place is a null pointer.

  The theory shows how many hosts are read and which, that every place of the array is filled
  when the file has no NUL, and that reading a printed list of hosts gives the list back.
\<close>

section \<open>The code\<close>

record proxy_host_t =
  host :: string
  port :: int

datatype host_file = No_file | Unreadable | File string

text \<open>The characters the loop skips when it looks for non-empty lines, and the newline.\<close>

definition newline :: char where "newline = CHR 0x0A"
definition blanks :: string where "blanks = [CHR 0x0D, CHR 0x09, CHR '' '']"
definition host_delims :: string where "host_delims = [CHR '' '', CHR 0x0D, newline, CHR 0x09]"

text \<open>The counting loop over the file; \<open>c\<close> is an unsigned counter of the current line.\<close>

fun count_hosts :: "string \<Rightarrow> uint \<Rightarrow> int \<Rightarrow> int" where
  "count_hosts [] c num = num"
| "count_hosts (x # xs) c num =
     (if x = newline then if c \<noteq> 0 then count_hosts xs 0 (num + 1) else count_hosts xs c num
      else if x \<notin> set blanks then count_hosts xs (c + 1) num
      else count_hosts xs c num)"

definition read_host :: "cbuf \<Rightarrow> nat \<Rightarrow> proxy_host_t option" where
  "read_host b pch =
     do {
       buf2 \<leftarrow> strchr b pch (CHR '':'');
       s \<leftarrow> cstr b pch;
       case buf2 of
         Some q \<Rightarrow> do { p \<leftarrow> cstr b (q + 1); Some \<lparr>host = take (q - pch) s, port = atoi p\<rparr> }
       | None \<Rightarrow> Some \<lparr>host = s, port = 3306\<rparr>
     }"

text \<open>The loop over the tokens, with the places that are left.\<close>

fun read_hosts :: "nat \<Rightarrow> cbuf \<Rightarrow> nat option \<Rightarrow> nat option \<Rightarrow> proxy_host_t list option" where
  "read_hosts 0 b pch save = Some []"
| "read_hosts (Suc n) b None save = Some []"
| "read_hosts (Suc n) b (Some pch) save =
     do {
       h \<leftarrow> read_host b pch;
       (pch, save, b) \<leftarrow> strtok_r host_delims b None save;
       hs \<leftarrow> read_hosts n b pch save;
       Some (h # hs)
     }"

text \<open>
  The number of backends and the array, a null pointer on errors. The counters of the code are
  32 bits wide, so the loop only ends for files below that size.
\<close>

definition backend_read_file :: "string option \<Rightarrow> host_file \<Rightarrow> (int \<times> proxy_host_t option list option) option" where
  "backend_read_file filename f =
     (case filename of
        None \<Rightarrow> Some (-1, None)
      | Some _ \<Rightarrow>
          (case f of
             No_file \<Rightarrow> Some (-1, None)
           | Unreadable \<Rightarrow> Some (-1, None)
           | File s \<Rightarrow>
               if length s \<ge> 2 ^ 32 then None
               else do {
                 let buf = s @ [NUL];
                 let num = count_hosts s 0 0;
                 if num = 0 then Some (0, None)
                 else do {
                   (pch, save, buf) \<leftarrow> strtok_r host_delims buf (Some 0) None;
                   hs \<leftarrow> read_hosts (nat num) buf pch save;
                   Some (num, Some (map Some hs @ replicate (nat num - length hs) None))
                 }
               }))"

section \<open>Which hosts are read\<close>

text \<open>The lines of a text that a newline ends.\<close>

fun full_lines :: "string \<Rightarrow> string \<Rightarrow> string list" where
  "full_lines l [] = []"
| "full_lines l (x # xs) = (if x = newline then l # full_lines [] xs else full_lines (l @ [x]) xs)"

definition blank_line :: "string \<Rightarrow> bool" where
  "blank_line l \<longleftrightarrow> set l \<subseteq> set blanks"

definition parse_backend :: "string \<Rightarrow> proxy_host_t" where
  "parse_backend w =
     (case find_first (CHR '':'') w of
        Some k \<Rightarrow> \<lparr>host = take k w, port = atoi (drop (Suc k) w)\<rparr>
      | None \<Rightarrow> \<lparr>host = w, port = 3306\<rparr>)"

lemma count_hosts_lines:
  assumes "length (filter (\<lambda>x. x \<notin> set blanks) l) + length xs < 2 ^ 32"
  shows "count_hosts xs (of_nat (length (filter (\<lambda>x. x \<notin> set blanks) l))) num =
    num + int (length (filter (\<lambda>l. \<not> blank_line l) (full_lines l xs)))"
  using assms
proof (induction xs arbitrary: l num)
  case Nil
  then show ?case by simp
next
  case (Cons x xs)
  let ?n = "length (filter (\<lambda>x. x \<notin> set blanks) l)"
  have z: "(of_nat ?n :: uint) \<noteq> 0 \<longleftrightarrow> \<not> blank_line l"
  proof -
    have "(of_nat ?n :: uint) = 0 \<longleftrightarrow> ?n = 0"
      using Cons.prems by (simp add: word_unat_eq_iff unat_of_nat)
    then show ?thesis by (auto simp: blank_line_def filter_empty_conv)
  qed
  show ?case
  proof (cases "x = newline")
    case True
    have "count_hosts xs 0 m = m + int (length (filter (\<lambda>l. \<not> blank_line l) (full_lines [] xs)))" for m
      using Cons.IH [of "[]" m] Cons.prems by simp
    then show ?thesis
      using True z by (cases "blank_line l") simp_all
  next
    case False
    have "count_hosts xs (of_nat ?n + (if x \<in> set blanks then 0 else 1)) num =
        num + int (length (filter (\<lambda>l. \<not> blank_line l) (full_lines (l @ [x]) xs)))"
      using Cons.IH [of "l @ [x]" num] Cons.prems by (auto simp: add.commute)
    then show ?thesis using False by (cases "x \<in> set blanks") (simp_all add: add.commute)
  qed
qed

lemma full_lines_words:
  assumes "newline \<notin> set l"
  shows "length (filter (\<lambda>l. \<not> blank_line l) (full_lines l xs)) \<le> length (words_of host_delims (l @ xs))"
  using assms
proof (induction xs arbitrary: l)
  case Nil
  then show ?case by simp
next
  case (Cons x xs)
  show ?case
  proof (cases "x = newline")
    case True
    have d: "newline \<in> set host_delims" by (simp add: host_delims_def)
    have "words_of host_delims l \<noteq> []" if "\<not> blank_line l"
      using that Cons.prems by (auto simp: words_of_Nil blank_line_def host_delims_def blanks_def)
    then have "(if blank_line l then 0 else 1) \<le> length (words_of host_delims l)"
      by (cases "words_of host_delims l") auto
    then show ?thesis
      using Cons.IH [of "[]"] True by (cases "blank_line l") (simp_all add: words_of_append [OF d])
  next
    case False
    then show ?thesis using Cons.IH [of "l @ [x]"] Cons.prems by simp
  qed
qed

lemma read_host_word:
  assumes "cstr b pch = Some w"
  shows "read_host b pch = Some (parse_backend w)"
proof (cases "find_first (CHR '':'') w")
  case None
  then show ?thesis using assms by (simp add: read_host_def strchr_def parse_backend_def)
next
  case (Some k)
  obtain post where d: "drop pch b = w @ NUL # post" "NUL \<notin> set w" using cstr_SomeD [OF assms] by blast
  have k: "k < length w" using find_first_Some [OF Some] by simp
  have "drop (pch + k + 1) b = drop (Suc k) w @ NUL # post"
    using arg_cong [OF d(1), of "drop (Suc k)"] k by (simp add: add.commute)
  then have "cstr b (pch + k + 1) = Some (drop (Suc k) w)"
    using d(2) by (intro cstr_drop) (auto dest: in_set_dropD)
  then show ?thesis using Some assms by (simp add: read_host_def strchr_def parse_backend_def)
qed

lemma read_hosts_words:
  assumes "cstr b i = Some s" "strtok_r host_delims b st sv = Some (pch, save, b')"
    "(case st of None \<Rightarrow> sv | Some j \<Rightarrow> Some j) = Some i"
  shows "read_hosts n b' pch save = Some (map parse_backend (take n (words_of host_delims s)))"
  using assms
proof (induction n arbitrary: b i s st sv pch save b')
  case 0
  then show ?case by simp
next
  case (Suc n)
  have start: "strtok_r host_delims b (Some i) None = Some (pch, save, b')"
    using Suc.prems(2,3) by (simp add: strtok_r_def)
  show ?case
  proof (cases "words_of host_delims s")
    case Nil
    then have "pch = None" using words_of_tokens(1) [OF Suc.prems(1) Nil, of None] start by auto
    then show ?thesis using Nil by simp
  next
    case (Cons w ws)
    obtain p q s' where t: "pch = Some p" "save = Some q" "cstr b' p = Some w" "cstr b' q = Some s'"
        "words_of host_delims s' = ws"
      using words_of_tokens(2) [OF Suc.prems(1) Cons, of None] start by auto
    obtain pch' save' b'' where n: "strtok_r host_delims b' None (Some q) = Some (pch', save', b'')"
      using words_of_tokens [OF t(4), of host_delims] strtok_r_start [of host_delims b' q None]
      by (cases "words_of host_delims s'") fastforce+
    have "read_hosts n b'' pch' save' = Some (map parse_backend (take n ws))"
      using Suc.IH [OF t(4) n] t(5) by simp
    then show ?thesis using t n Cons read_host_word [OF t(3)] by simp
  qed
qed

lemma backend_read_file_hosts_lemma:
  assumes "NUL \<notin> set s" "length s < 2 ^ 32"
  defines "n \<equiv> length (filter (\<lambda>l. \<not> blank_line l) (full_lines [] s))"
  shows "backend_read_file (Some name) (File s) =
    Some (int n, if n = 0 then None else Some (map (Some \<circ> parse_backend) (take n (words_of host_delims s)))) \<and>
    n \<le> length (words_of host_delims s)"
proof -
  have num: "count_hosts s 0 0 = int n" using count_hosts_lines [of "[]" s 0] assms by simp
  have le: "n \<le> length (words_of host_delims s)" using full_lines_words [of "[]" s] by (simp add: n_def)
  have c: "cstr (s @ [NUL]) 0 = Some s" using cstr_append [OF assms(1), of "[]" "[]"] by simp
  obtain pch save b where t: "strtok_r host_delims (s @ [NUL]) (Some 0) None = Some (pch, save, b)"
    using words_of_tokens [OF c, of host_delims] by (cases "words_of host_delims s") fastforce+
  have "read_hosts n b pch save = Some (map parse_backend (take n (words_of host_delims s)))"
    using read_hosts_words [OF c t] by simp
  then show ?thesis using num le t assms(2) by (simp add: backend_read_file_def Let_def)
qed



text \<open>A list of hosts as a file, one per line.\<close>

definition print_hosts :: "proxy_host_t list \<Rightarrow> string" where
  "print_hosts hs = concat (map (\<lambda>h. host h @ CHR '':'' # print_int (port h) @ [newline]) hs)"

definition host_ok :: "proxy_host_t \<Rightarrow> bool" where
  "host_ok h \<longleftrightarrow> host h \<noteq> [] \<and> set (host h) \<inter> set (NUL # CHR '':'' # host_delims) = {} \<and>
     0 \<le> port h \<and> port h \<le> INT_MAX"

lemma print_int_delims:
  assumes "0 \<le> n"
  shows "set (print_int n) \<inter> set (NUL # CHR '':'' # host_delims) = {}"
  using assms print_nat_digits [of "nat n"]
  by (auto simp: print_int_def host_delims_def newline_def is_digit_def)

lemma parse_backend_print:
  assumes "host_ok h"
  shows "parse_backend (host h @ CHR '':'' # print_int (port h)) = h"
proof -
  have "find_first (CHR '':'') (host h @ CHR '':'' # print_int (port h)) = Some (length (host h))"
    using assms by (intro find_first_append) (auto simp: host_ok_def)
  moreover have "atoi (print_int (port h)) = port h"
    using assms strtol_print_int [of "port h"] by (simp add: atoi_def host_ok_def)
  ultimately show ?thesis by (simp add: parse_backend_def)
qed

lemma words_of_print_hosts:
  assumes "\<forall>h\<in>set hs. host_ok h"
  shows "words_of host_delims (print_hosts hs) = map (\<lambda>h. host h @ CHR '':'' # print_int (port h)) hs"
  using assms
proof (induction hs)
  case Nil
  then show ?case by (simp add: print_hosts_def words_of_Nil)
next
  case (Cons h hs)
  let ?w = "host h @ CHR '':'' # print_int (port h)"
  have d: "newline \<in> set host_delims" by (simp add: host_delims_def)
  have "print_hosts (h # hs) = ?w @ newline # print_hosts hs" by (simp add: print_hosts_def)
  moreover have "words_of host_delims ?w = [?w]"
  proof (rule words_of_word)
    show "set ?w \<inter> set host_delims = {}"
      using Cons.prems print_int_delims [of "port h"] by (auto simp: host_ok_def host_delims_def newline_def)
  qed simp
  ultimately show ?case using Cons words_of_append [OF d, of ?w "print_hosts hs"] by simp
qed

lemma full_lines_step: "newline \<notin> set w \<Longrightarrow> full_lines l (w @ newline # xs) = (l @ w) # full_lines [] xs"
  by (induction w arbitrary: l) auto

lemma full_lines_print_hosts:
  assumes "\<forall>h\<in>set hs. host_ok h"
  shows "filter (\<lambda>l. \<not> blank_line l) (full_lines [] (print_hosts hs)) =
    map (\<lambda>h. host h @ CHR '':'' # print_int (port h)) hs"
  using assms
proof (induction hs)
  case Nil
  then show ?case by (simp add: print_hosts_def)
next
  case (Cons h hs)
  let ?w = "host h @ CHR '':'' # print_int (port h)"
  have "print_hosts (h # hs) = ?w @ newline # print_hosts hs" by (simp add: print_hosts_def)
  moreover have "newline \<notin> set ?w"
    using Cons.prems print_int_delims [of "port h"] by (auto simp: host_ok_def host_delims_def newline_def)
  moreover have "\<not> blank_line ?w" by (simp add: blank_line_def blanks_def)
  ultimately show ?case using Cons full_lines_step [of ?w "[]" "print_hosts hs"] by simp
qed

text \<open>C15: reading back a printed, non-empty list of hosts gives exactly these hosts.\<close>

theorem backend_read_file_roundtrip:
  assumes "hs \<noteq> []" "\<forall>h\<in>set hs. host_ok h" "length (print_hosts hs) < 2 ^ 32"
  shows "backend_read_file (Some name) (File (print_hosts hs)) = Some (int (length hs), Some (map Some hs))"
proof -
  have "NUL \<notin> set (print_hosts hs)"
    using assms(2)
  proof (induction hs)
    case (Cons h hs)
    then show ?case using print_int_delims [of "port h"] by (auto simp: print_hosts_def host_ok_def newline_def)
  qed (simp add: print_hosts_def)
  note r = backend_read_file_hosts_lemma [OF this assms(3), of name]
  have "map (Some \<circ> parse_backend) (map (\<lambda>h. host h @ CHR '':'' # print_int (port h)) hs) = map Some hs"
    using assms(2) by (simp add: parse_backend_print)
  then show ?thesis
    using r assms(1) unfolding words_of_print_hosts [OF assms(2)] full_lines_print_hosts [OF assms(2)] by simp
qed

theorem backend_read_file_roundtrip_witness:
  "backend_read_file (Some ''f'') (File (print_hosts [\<lparr>host = ''a'', port = 1\<rparr>, \<lparr>host = ''b'', port = 33\<rparr>])) =
     Some (2, Some [Some \<lparr>host = ''a'', port = 1\<rparr>, Some \<lparr>host = ''b'', port = 33\<rparr>])"
proof -
  let ?hs = "[\<lparr>host = ''a'', port = 1\<rparr>, \<lparr>host = ''b'', port = 33\<rparr>]"
  have "length (print_hosts ?hs) = 9" by code_simp
  moreover have "\<forall>h\<in>set ?hs. host_ok h" by (simp add: host_ok_def host_delims_def newline_def)
  ultimately show ?thesis using backend_read_file_roundtrip [of ?hs "''f''"] by simp
qed

end
