(* ===== verification/Commit.thy ===== *)
theory Commit
  imports C_String
begin

unbundle bit_operations_syntax

text \<open>
  The data of two-phase commit over the backends of one coordinator
  (\<open>src/proxy_backend.c\<close>): the bit each backend sets in the result word, the test that all
  of them did, and the identifier that tags replicated queries, which the proxies read back
  from the end of the query text.
\<close>

section \<open>The result word\<close>

text \<open>\<open>bi == 0 ? 1 : 2 << (bi-1)\<close>, computed in int.\<close>

definition result_bit :: "int \<Rightarrow> int option" where
  "result_bit bi = (if bi = 0 then Some 1 else if bi < 0 then None else shl_int 2 (nat (bi - 1)))"

text \<open>\<open>(2 << (backends-1)) - 1\<close>, computed in int and converted to unsigned long long.\<close>

definition all_results :: "int \<Rightarrow> ulong option" where
  "all_results backends =
     (if backends < 1 then None
      else do { m \<leftarrow> shl_int 2 (nat (backends - 1)); Some (of_int (m - 1)) })"

text \<open>Recording the success of one backend (\<open>backend_query_wait\<close>).\<close>

definition record_result :: "ulong \<Rightarrow> int \<Rightarrow> bool \<Rightarrow> ulong option" where
  "record_result results bi success =
     (if success then do { b \<leftarrow> result_bit bi; Some (results OR of_int b) } else Some results)"

text \<open>The decision at the end of \<open>backend_check_commit\<close>.\<close>

definition commit_decision :: "ulong \<Rightarrow> int \<Rightarrow> bool \<Rightarrow> bool option" where
  "commit_decision results backends success =
     do { m \<leftarrow> all_results backends; Some (success \<and> results = m) }"

text \<open>The test of the bits after the query (\<open>proxy_backend_query\<close>).\<close>

fun any_failed :: "ulong \<Rightarrow> int list \<Rightarrow> bool \<Rightarrow> bool option" where
  "any_failed results [] error = Some error"
| "any_failed results (i # is) error =
     do { b \<leftarrow> result_bit i; any_failed results is (error \<or> results AND of_int b = 0) }"

lemma result_bit_power: "0 \<le> bi \<Longrightarrow> bi \<le> 30 \<Longrightarrow> result_bit bi = Some (2 ^ nat bi)"
proof -
  assume b: "0 \<le> bi" "bi \<le> 30"
  show ?thesis
  proof (cases "bi = 0")
    case False
    define n where "n = nat (bi - 1)"
    have n: "nat bi = Suc n" "n \<le> 29" using b False by (auto simp: n_def)
    then have "(2::int) ^ Suc n \<le> 2 ^ 30" by (intro power_increasing) auto
    then show ?thesis using b False n by (simp add: result_bit_def shl_int_def n_def [symmetric])
  qed (simp add: result_bit_def)
qed

lemma result_bit_overflow: "30 < bi \<Longrightarrow> result_bit bi = None"
proof -
  assume b: "30 < bi"
  then have "(2::int) ^ 30 \<le> 2 ^ nat (bi - 1)" by (intro power_increasing) auto
  with b show ?thesis by (auto simp: result_bit_def shl_int_def)
qed

lemma all_results_mask: "1 \<le> n \<Longrightarrow> n \<le> 30 \<Longrightarrow> all_results (int n) = Some (mask n)"
proof -
  assume n: "1 \<le> n" "n \<le> 30"
  then have "(2::int) ^ n \<le> 2 ^ 30" by (intro power_increasing) auto
  moreover have "(2::int) * 2 ^ (n - 1) = 2 ^ n" using n by (metis Suc_diff_le diff_Suc_1 power_Suc)
  moreover have "nat (int n - 1) = n - 1" using n by simp
  ultimately have "shl_int 2 (nat (int n - 1)) = Some (2 ^ n)" using n by (simp add: shl_int_def)
  then show ?thesis using n by (simp add: all_results_def mask_eq_exp_minus_1)
qed

text \<open>A word in which exactly the bits of a set of backends are set.\<close>

definition result_set :: "ulong \<Rightarrow> nat set \<Rightarrow> bool" where
  "result_set w A \<longleftrightarrow> (\<forall>i. bit w i \<longleftrightarrow> i \<in> A)"

lemma result_set_empty: "result_set 0 {}"
  by (simp add: result_set_def)

lemma record_result_set:
  assumes "result_set w A" "i \<le> 30"
  shows "\<exists>w'. record_result w (int i) s = Some w' \<and> result_set w' (if s then insert i A else A)"
  using assms result_bit_power [of "int i"]
  by (auto simp: record_result_def result_set_def bit_or_iff bit_exp_iff)

lemma commit_decision_all:
  assumes "result_set w A" "A \<subseteq> {..<n}" "1 \<le> n" "n \<le> 30"
  shows "commit_decision w (int n) s = Some (s \<and> A = {..<n})"
proof -
  have "w = mask n \<longleftrightarrow> (\<forall>i. bit w i \<longleftrightarrow> i < n)"
  proof
    assume "\<forall>i. bit w i \<longleftrightarrow> i < n"
    then show "w = mask n" using assms(4) by (intro bit_word_eqI) (simp add: bit_mask_iff)
  qed (use assms(4) in \<open>auto simp: bit_mask_iff\<close>)
  also have "\<dots> \<longleftrightarrow> A = {..<n}" using assms(1) by (auto simp: result_set_def)
  finally show ?thesis using all_results_mask [OF assms(3,4)] by (simp add: commit_decision_def)
qed

section \<open>The identifier of a query\<close>

text \<open>The size reserved for the tag (\<open>proxy_net.h\<close>).\<close>

definition LONG_LEN :: nat where "LONG_LEN = 20"
definition ID_SIZE :: nat where "ID_SIZE = 3 + LONG_LEN"

text \<open>
  Tagging: \<open>sprintf(query + length, "-- %lu", id)\<close>. The text and its NUL are written behind
  the query, which must fit into the buffer.
\<close>

definition tag_query :: "cbuf \<Rightarrow> nat \<Rightarrow> ulong \<Rightarrow> (cbuf \<times> nat) option" where
  "tag_query query len tid =
     (let t = ''-- '' @ print_ulong tid in
      if len + length t < length query
      then Some (take len query @ t @ NUL # drop (len + length t + 1) query, len + length t)
      else None)"

definition id_from_query :: "cbuf \<Rightarrow> ulong option" where
  "id_from_query query =
     do {
       tok \<leftarrow> strrchr query 0 (CHR ''-'');
       case tok of
         None \<Rightarrow> Some 0
       | Some tok \<Rightarrow>
           do {
             s \<leftarrow> cstr query (tok + 1);
             let (v, err) = strtol s;
             Some (if err then 0 else of_int v)
           }
     }"

lemma strtol_skip_space: "strtol (CHR '' '' # s) = strtol s"
  by (simp add: strtol_def is_space_def)

lemma id_from_query_text:
  assumes "NUL \<notin> set q"
  shows "id_from_query (q @ ''-- '' @ print_ulong tid @ NUL # post) = Some (if uint tid \<le> LONG_MAX then tid else 0)"
proof -
  let ?s = "q @ ''-- '' @ print_ulong tid"
  have n: "NUL \<notin> set ?s" "CHR ''-'' \<notin> set (CHR '' '' # print_ulong tid)"
    using assms print_nat_chars by (auto simp: print_ulong_def)
  have c: "cstr (?s @ NUL # post) 0 = Some ?s" using cstr_append [OF n(1), of "[]"] by simp
  have "?s = (q @ ''-'') @ CHR ''-'' # CHR '' '' # print_ulong tid" by simp
  then have "find_last (CHR ''-'') ?s = Some (length q + 1)"
    using find_last_append [OF n(2), of "q @ ''-''"] by simp
  then have r: "strrchr (?s @ NUL # post) 0 (CHR ''-'') = Some (Some (length q + 1))"
    using c by (simp add: strrchr_def)
  have "cstr ((q @ ''--'') @ (CHR '' '' # print_ulong tid) @ NUL # post) (length (q @ ''--'')) =
      Some (CHR '' '' # print_ulong tid)"
    using n by (intro cstr_append) auto
  then have "cstr (?s @ NUL # post) (length q + 2) = Some (CHR '' '' # print_ulong tid)" by simp
  moreover have "strtol (CHR '' '' # print_ulong tid) =
      (if int (unat tid) > LONG_MAX then (LONG_MAX, True) else (int (unat tid), False))"
    using strtol_print_nat [of "[]" "unat tid"] by (simp add: strtol_skip_space print_ulong_def)
  ultimately show ?thesis using r by (auto simp: id_from_query_def)
qed

lemma tag_query_text:
  assumes "NUL \<notin> set q" "length q + 3 + length (print_ulong tid) < length (q @ room)"
  shows "tag_query (q @ room) (length q) tid =
    Some (q @ ''-- '' @ print_ulong tid @ NUL # drop (4 + length (print_ulong tid)) room,
          length q + 3 + length (print_ulong tid))"
proof -
  let ?t = "''-- '' @ print_ulong tid"
  have lt: "length q + length ?t < length (q @ room)" using assms(2) by simp
  have d: "drop (length q + length ?t + 1) (q @ room) = drop (4 + length (print_ulong tid)) room" by simp
  show ?thesis unfolding tag_query_def Let_def if_P [OF lt] d by simp
qed

text \<open>
  C16: the identifier that a proxy appends to a query is the one that is read back from it,
  whatever the text of the query is, up to the largest signed long; the \<open>ID_SIZE\<close> bytes
  reserved behind the query are enough for it.
\<close>

theorem query_id_roundtrip:
  assumes "NUL \<notin> set q" "uint tid \<le> LONG_MAX" "ID_SIZE \<le> length room"
  shows "\<exists>b len. tag_query (q @ room) (length q) tid = Some (b, len) \<and>
    cstr b 0 = Some (q @ ''-- '' @ print_ulong tid) \<and> len = length (q @ ''-- '' @ print_ulong tid) \<and>
    id_from_query b = Some tid"
proof -
  have "int (unat tid) < int (10 ^ 19)" using assms(2) by simp
  then have "unat tid < 10 ^ 19" by (simp only: of_nat_less_iff)
  then have l: "length (print_ulong tid) \<le> 19" by (simp add: print_ulong_def length_print_nat)
  let ?b = "q @ ''-- '' @ print_ulong tid @ NUL # drop (4 + length (print_ulong tid)) room"
  have t: "tag_query (q @ room) (length q) tid = Some (?b, length q + 3 + length (print_ulong tid))"
    using l assms(3) by (intro tag_query_text [OF assms(1)]) (simp add: ID_SIZE_def LONG_LEN_def)
  have "NUL \<notin> set (q @ ''-- '' @ print_ulong tid)" using assms(1) print_nat_chars by (simp add: print_ulong_def)
  note c = cstr_append [OF this, of "[]" "drop (4 + length (print_ulong tid)) room"]
  show ?thesis using t c id_from_query_text [OF assms(1)] assms(2) by simp
qed

theorem query_id_roundtrip_witness:
  "\<exists>b len. tag_query (''DELETE FROM t '' @ replicate 23 NUL) (length ''DELETE FROM t '') 7 = Some (b, len) \<and>
    cstr b 0 = Some (''DELETE FROM t -- 7'') \<and> id_from_query b = Some 7"
proof -
  have "print_ulong 7 = ''7''" by code_simp
  then show ?thesis
    using query_id_roundtrip [of "''DELETE FROM t ''" 7 "replicate 23 NUL"]
    by (auto simp: ID_SIZE_def LONG_LEN_def)
qed

end
