(* ===== verification/Two_Phase.thy ===== *)
theory Two_Phase
  imports Commit
begin

text \<open>
  One replicated query on a coordinator with two-phase commit (\<open>src/proxy_backend.c\<close>): the
  client thread runs the case \<open>QUERY_MAP_ALL\<close> of \<open>proxy_backend_query\<close>, one backend thread
  per backend runs \<open>backend_query\<close> with \<open>backend_check_commit\<close> and \<open>backend_query_wait\<close>, and
  the thread of a \<open>PROXY CLONE\<close> command runs the part of \<open>net_clone\<close>
  (\<open>src/proxy_cmd.c\<close>) that waits for the commit phase to end, asks the master for clones and
  waits for them with \<open>proxy_clone_wait\<close> (\<open>src/proxy_clone.c\<close>). Each access to shared data is
  a step of its own, in the order of the code. The barrier lets its threads go when the backend
  threads and the client thread have all arrived. The outcome of a query on a backend and the
  result of the transaction on new clones are not determined. The number of backends is fixed
  during the query.

  The theory shows that a backend commits only when every backend executed the query with
  success, that without a clone in between the backends and the client agree on it, when the
  client goes on, that the counter of committing threads is exact, and that the query comes to
  its end under every schedule unless a clone request interferes; and that a clone request can
  block a query for ever, overlap with the commit phase, and break the agreement. An executable
  version of the steps computes the states that show the latter.
\<close>

section \<open>The threads\<close>

text \<open>
  A backend thread: waiting for work; before the clone generation is read and before the query
  is executed; at the first test before the commit phase, then in the loop that waits for a
  cloning operation, in the loop inside it, and in the body of that; before the commit phase;
  counted as committing, after taking the lock \<open>committed\<close>, at the
  barrier, behind it, after the decision, after the answer to the client, after COMMIT or
  ROLLBACK on the backend, after releasing the lock, and finished. The last two constructors
  are the path of a packet error: at the barrier, and finished.
\<close>

datatype bpc =
  B_idle | B_run | B_begun | B_ready | B_waiting | B_polling | B_polled | B_passed | B_counted | B_locked | B_barrier | B_released | B_decided
| B_replied | B_executed | B_unlocked | B_out | E_barrier | E_out

datatype mpc = M_dispatch nat | M_barrier | M_released | M_done

datatype cpc = C_idle | C_waiting | C_cloning | C_joining

record commit_sys =
  client :: mpc
  backend :: "nat \<Rightarrow> bpc"
  proxying :: nat
  success :: "nat \<Rightarrow> bool"
  results :: ulong
  committed :: bool
  commit_committing :: bool
  committing :: int
  cloning :: bool
  cloner :: cpc
  generation :: nat
  started :: "nat \<Rightarrow> nat"
  trans_success :: "bool option"
  cloned :: bool
  vote :: "nat \<Rightarrow> bool"
  outcome :: "nat \<Rightarrow> bool option"
  reply :: "bool option"

text \<open>
  The fields \<open>vote\<close>, \<open>outcome\<close> and \<open>reply\<close> record what the backends answered, what they
  were told at the end, and what the client was told; \<open>cloned\<close> records whether a clone was
  made since the query began. The field \<open>trans_success\<close> is the result of the transaction on
  the new clones, once all of them have reported it.
\<close>

definition commit_start :: commit_sys where
  "commit_start =
     \<lparr>client = M_dispatch 0, backend = (\<lambda>_. B_idle), proxying = 0, success = (\<lambda>_. True), results = 0,
      committed = False, commit_committing = False, committing = 0, cloning = False, cloner = C_idle,
      generation = 0, started = (\<lambda>_. 0), trans_success = None, cloned = False, vote = (\<lambda>_. False), outcome = (\<lambda>_. None), reply = None\<rparr>"

text \<open>The \<open>k\<close>-th backend that gets the query, after a random first choice \<open>r\<close>.\<close>

definition dispatch_order :: "nat \<Rightarrow> nat \<Rightarrow> nat \<Rightarrow> nat" where
  "dispatch_order n r k = (r mod n + 1 + k) mod n"

abbreviation set_backend :: "commit_sys \<Rightarrow> nat \<Rightarrow> bpc \<Rightarrow> commit_sys" where
  "set_backend s i c \<equiv> s\<lparr>backend := (backend s)(i := c)\<rparr>"

inductive commit_step :: "nat \<Rightarrow> nat \<Rightarrow> commit_sys \<Rightarrow> commit_sys \<Rightarrow> bool" for n r where
  dispatch:
    "client s = M_dispatch k \<Longrightarrow> k < n \<Longrightarrow> i = dispatch_order n r k \<Longrightarrow> backend s i = B_idle \<Longrightarrow>
     commit_step n r s (s\<lparr>client := M_dispatch (Suc k), backend := (backend s)(i := B_run),
       proxying := (if k = 0 then i else proxying s), commit_committing := False\<rparr>)"
| arrive: "client s = M_dispatch n \<Longrightarrow> commit_step n r s (s\<lparr>client := M_barrier\<rparr>)"
| begin_query:
    "backend s i = B_run \<Longrightarrow>
     commit_step n r s (s\<lparr>backend := (backend s)(i := B_begun), started := (started s)(i := generation s)\<rparr>)"
| execute:
    "backend s i = B_begun \<Longrightarrow>
     commit_step n r s (s\<lparr>backend := (backend s)(i := B_ready), success := (success s)(i := ok), vote := (vote s)(i := ok)\<rparr>)"
| packet_error:
    "backend s i = B_begun \<Longrightarrow>
     commit_step n r s (s\<lparr>backend := (backend s)(i := E_barrier), vote := (vote s)(i := False)\<rparr>)"
| check_commit:
    "backend s i = B_ready \<Longrightarrow>
     commit_step n r s (set_backend s i (if commit_committing s then B_passed else B_waiting))"
| check_cloning:
    "backend s i = B_waiting \<Longrightarrow> commit_step n r s (set_backend s i (if cloning s then B_polling else B_passed))"
| poll_committing:
    "backend s i = B_polling \<Longrightarrow>
     commit_step n r s (set_backend s i (if committing s \<noteq> 0 then B_polled else B_waiting))"
| poll_commit:
    "backend s i = B_polled \<Longrightarrow>
     commit_step n r s (set_backend s i (if commit_committing s then B_passed else B_polling))"
| count:
    "backend s i = B_passed \<Longrightarrow>
     commit_step n r s (s\<lparr>backend := (backend s)(i := B_counted), committing := committing s + 1, commit_committing := True\<rparr>)"
| lock:
    "backend s i = B_counted \<Longrightarrow> (if i = proxying s then \<not> committed s else True) \<Longrightarrow>
     commit_step n r s (s\<lparr>backend := (backend s)(i := B_locked), committed := (i = proxying s \<or> committed s)\<rparr>)"
| record_vote:
    "backend s i = B_locked \<Longrightarrow> record_result (results s) (int i) (success s i) = Some w \<Longrightarrow>
     commit_step n r s (s\<lparr>backend := (backend s)(i := B_barrier), results := w\<rparr>)"
| release:
    "client s = M_barrier \<Longrightarrow> \<forall>i<n. backend s i = B_barrier \<or> backend s i = E_barrier \<Longrightarrow>
     commit_step n r s (s\<lparr>client := M_released,
       backend := (\<lambda>i. if backend s i = B_barrier then B_released
                       else if backend s i = E_barrier then E_out else backend s i)\<rparr>)"
| decide:
    "backend s i = B_released \<Longrightarrow> generation s = started s i \<Longrightarrow> commit_decision (results s) (int n) (success s i) = Some d \<Longrightarrow>
     commit_step n r s (s\<lparr>backend := (backend s)(i := B_decided), success := (success s)(i := d)\<rparr>)"
| decide_cloned:
    "backend s i = B_released \<Longrightarrow> generation s \<noteq> started s i \<Longrightarrow> trans_success s = Some t \<Longrightarrow>
     commit_decision (results s) (int n) t = Some d \<Longrightarrow>
     commit_step n r s (s\<lparr>backend := (backend s)(i := B_decided), success := (success s)(i := d)\<rparr>)"
| answer:
    "backend s i = B_decided \<Longrightarrow>
     commit_step n r s (s\<lparr>backend := (backend s)(i := B_replied),
       reply := (if i = proxying s then Some (success s i) else reply s)\<rparr>)"
| finish:
    "backend s i = B_replied \<Longrightarrow>
     commit_step n r s (s\<lparr>backend := (backend s)(i := B_executed), outcome := (outcome s)(i \<mapsto> success s i)\<rparr>)"
| unlock:
    "backend s i = B_executed \<Longrightarrow>
     commit_step n r s (s\<lparr>backend := (backend s)(i := B_unlocked), committed := (i \<noteq> proxying s \<and> committed s)\<rparr>)"
| leave:
    "backend s i = B_unlocked \<Longrightarrow>
     commit_step n r s (s\<lparr>backend := (backend s)(i := B_out), committing := committing s - 1\<rparr>)"
| client_done: "client s = M_released \<Longrightarrow> \<not> committed s \<Longrightarrow> commit_step n r s (s\<lparr>client := M_done\<rparr>)"
| clone_request: "cloner s = C_idle \<Longrightarrow> commit_step n r s (s\<lparr>cloner := C_waiting, cloning := True\<rparr>)"
| clone_go: "cloner s = C_waiting \<Longrightarrow> committing s = 0 \<Longrightarrow> commit_step n r s (s\<lparr>cloner := C_cloning\<rparr>)"
| clone_error: "cloner s = C_cloning \<Longrightarrow> commit_step n r s (s\<lparr>cloner := C_idle\<rparr>)"
| clone_made:
    "cloner s = C_cloning \<Longrightarrow>
     commit_step n r s (s\<lparr>cloner := C_joining, generation := Suc (generation s), cloned := True\<rparr>)"
| clone_joined: "cloner s = C_joining \<Longrightarrow> commit_step n r s (s\<lparr>cloner := C_idle, cloning := False\<rparr>)"
| clone_timeout:
    "cloner s = C_joining \<Longrightarrow>
     commit_step n r s (s\<lparr>cloner := C_idle, cloning := False, generation := generation s - 1\<rparr>)"
| trans_result:
    "cloned s \<Longrightarrow> trans_success s = None \<Longrightarrow> commit_step n r s (s\<lparr>trans_success := Some t\<rparr>)"

inductive commit_reach :: "nat \<Rightarrow> nat \<Rightarrow> commit_sys \<Rightarrow> bool" for n r where
  start: "commit_reach n r commit_start"
| step: "commit_reach n r s \<Longrightarrow> commit_step n r s s' \<Longrightarrow> commit_reach n r s'"

section \<open>Invariants\<close>

fun behind_barrier :: "bpc \<Rightarrow> bool" where
  "behind_barrier B_released = True" | "behind_barrier B_decided = True" | "behind_barrier B_replied = True"
| "behind_barrier B_executed = True" | "behind_barrier B_unlocked = True" | "behind_barrier B_out = True"
| "behind_barrier E_out = True" | "behind_barrier _ = False"

fun recorded :: "bpc \<Rightarrow> bool" where
  "recorded E_out = False" | "recorded c \<longleftrightarrow> c = B_barrier \<or> behind_barrier c"

fun voted :: "bpc \<Rightarrow> bool" where
  "voted B_ready = True" | "voted B_waiting = True" | "voted B_polling = True" | "voted B_polled = True"
| "voted B_passed = True" | "voted B_counted = True" | "voted B_locked = True"
| "voted B_barrier = True" | "voted B_released = True" | "voted _ = False"

fun decided :: "bpc \<Rightarrow> bool" where
  "decided B_decided = True" | "decided B_replied = True" | "decided B_executed = True"
| "decided B_unlocked = True" | "decided B_out = True" | "decided _ = False"

fun executed :: "bpc \<Rightarrow> bool" where
  "executed B_executed = True" | "executed B_unlocked = True" | "executed B_out = True" | "executed _ = False"

fun in_commit_phase :: "bpc \<Rightarrow> bool" where
  "in_commit_phase B_counted = True" | "in_commit_phase B_locked = True" | "in_commit_phase B_barrier = True"
| "in_commit_phase B_released = True" | "in_commit_phase B_decided = True" | "in_commit_phase B_replied = True"
| "in_commit_phase B_executed = True" | "in_commit_phase B_unlocked = True" | "in_commit_phase _ = False"

fun lock_held :: "bpc \<Rightarrow> bool" where
  "lock_held B_locked = True" | "lock_held B_barrier = True" | "lock_held B_released = True"
| "lock_held B_decided = True" | "lock_held B_replied = True" | "lock_held B_executed = True" | "lock_held _ = False"

fun client_released :: "mpc \<Rightarrow> bool" where
  "client_released M_released = True" | "client_released M_done = True" | "client_released _ = False"

text \<open>How far the dispatch has come, and who is behind the barrier.\<close>

fun dispatched :: "nat \<Rightarrow> mpc \<Rightarrow> nat" where
  "dispatched n (M_dispatch k) = k" | "dispatched n _ = n"

definition shape_inv :: "nat \<Rightarrow> nat \<Rightarrow> commit_sys \<Rightarrow> bool" where
  "shape_inv n r s \<longleftrightarrow>
     (\<forall>i. behind_barrier (backend s i) \<longleftrightarrow> i < n \<and> client_released (client s)) \<and>
     dispatched n (client s) \<le> n \<and>
     {i. backend s i \<noteq> B_idle} = dispatch_order n r ` {..<dispatched n (client s)} \<and>
     (0 < dispatched n (client s) \<longrightarrow> proxying s = dispatch_order n r 0)"

definition vote_inv :: "nat \<Rightarrow> commit_sys \<Rightarrow> bool" where
  "vote_inv n s \<longleftrightarrow>
     result_set (results s) {i. i < n \<and> recorded (backend s i) \<and> vote s i} \<and>
     (\<forall>i. voted (backend s i) \<longrightarrow> success s i = vote s i) \<and>
     (\<forall>i. backend s i = E_barrier \<or> backend s i = E_out \<longrightarrow> \<not> vote s i)"

text \<open>A decision to commit is always one of all; without a clone in between it is that of all.\<close>

definition agrees :: "nat \<Rightarrow> commit_sys \<Rightarrow> bool \<Rightarrow> bool" where
  "agrees n s d \<longleftrightarrow> (d \<longrightarrow> (\<forall>j<n. vote s j)) \<and> (\<not> cloned s \<longrightarrow> d = (\<forall>j<n. vote s j))"

definition decision_inv :: "nat \<Rightarrow> commit_sys \<Rightarrow> bool" where
  "decision_inv n s \<longleftrightarrow>
     (\<forall>i. decided (backend s i) \<longrightarrow> agrees n s (success s i)) \<and>
     (\<forall>i. outcome s i = (if executed (backend s i) then Some (success s i) else None)) \<and>
     (\<forall>d. reply s = Some d \<longrightarrow> client_released (client s) \<and> agrees n s d)"

definition generation_inv :: "commit_sys \<Rightarrow> bool" where
  "generation_inv s \<longleftrightarrow> \<not> cloned s \<longrightarrow> generation s = 0 \<and> cloner s \<noteq> C_joining \<and> (\<forall>i. started s i = 0)"

definition count_inv :: "commit_sys \<Rightarrow> bool" where
  "count_inv s \<longleftrightarrow> finite {i. in_commit_phase (backend s i)} \<and>
     committing s = int (card {i. in_commit_phase (backend s i)})"

definition lock_inv :: "commit_sys \<Rightarrow> bool" where
  "lock_inv s \<longleftrightarrow> (committed s \<longleftrightarrow> lock_held (backend s (proxying s)))"

lemma rotation_inj_le:
  assumes "k \<le> l" "l < n" "(x + k) mod n = (x + l) mod (n :: nat)"
  shows "k = l"
proof -
  have "n dvd (x + l) - (x + k)" using assms by (intro mod_eq_dvd_iff_nat [THEN iffD1]) simp_all
  then have "n dvd l - k" by simp
  moreover have "l - k < n" using assms by simp
  ultimately have "l - k = 0" by (metis nat_dvd_not_less neq0_conv)
  with assms(1) show ?thesis by simp
qed

lemma dispatch_order_inj: "inj_on (dispatch_order n r) {..<n}"
proof (rule inj_onI)
  fix k l assume k: "k \<in> {..<n}" "l \<in> {..<n}" "dispatch_order n r k = dispatch_order n r l"
  then have "(r mod n + 1 + k) mod n = (r mod n + 1 + l) mod n" by (simp add: dispatch_order_def)
  with k(1,2) show "k = l" using rotation_inj_le [of k l n "r mod n + 1"] rotation_inj_le [of l k n "r mod n + 1"]
    by (cases "k \<le> l") simp_all
qed

lemma dispatch_order_image: "0 < n \<Longrightarrow> dispatch_order n r ` {..<n} = {..<n}"
  using dispatch_order_inj [of n r] by (intro endo_inj_surj) (auto simp: dispatch_order_def)

lemma shape_backend:
  assumes "shape_inv n r s" "client s' = client s" "proxying s' = proxying s"
    "\<And>j. behind_barrier (backend s' j) = behind_barrier (backend s j)"
    "\<And>j. backend s' j = B_idle \<longleftrightarrow> backend s j = B_idle"
  shows "shape_inv n r s'"
  using assms(1) unfolding shape_inv_def assms(2-5) .

lemma step_shape:
  assumes "commit_step n r s s'" "shape_inv n r s" "0 < n"
  shows "shape_inv n r s'"
  using assms
proof (induction rule: commit_step.induct)
  case (dispatch s k i)
  have k: "{i. backend s i \<noteq> B_idle} = dispatch_order n r ` {..<k}" "0 < k \<longrightarrow> proxying s = dispatch_order n r 0"
    and b: "\<And>i. \<not> behind_barrier (backend s i)"
    using dispatch by (auto simp: shape_inv_def)
  have "{j. ((backend s)(i := B_run)) j \<noteq> B_idle} = insert i {i. backend s i \<noteq> B_idle}" by auto
  also have "\<dots> = dispatch_order n r ` {..<Suc k}" using k(1) dispatch.hyps(3) by (simp add: lessThan_Suc)
  finally show ?case using dispatch k(2) b by (simp add: shape_inv_def)
next
  case (arrive s)
  then show ?case by (simp add: shape_inv_def)
next
  case (release s)
  then have a: "{i. backend s i \<noteq> B_idle} = {..<n}" "proxying s = dispatch_order n r 0"
    and b: "\<And>i. \<not> behind_barrier (backend s i)" by (auto simp: shape_inv_def dispatch_order_image)
  let ?b = "\<lambda>i. if backend s i = B_barrier then B_released else if backend s i = E_barrier then E_out else backend s i"
  have idle: "backend s i \<noteq> B_idle \<longleftrightarrow> i < n" for i using a(1) by blast
  have "behind_barrier (?b i) \<longleftrightarrow> i < n" for i
    using release.hyps(2) b [of i] idle [of i] by (cases "i < n") auto
  moreover have "?b i \<noteq> B_idle \<longleftrightarrow> backend s i \<noteq> B_idle" for i by simp
  ultimately show ?case using a by (simp add: shape_inv_def dispatch_order_image [OF release.prems(2)])
next
  case (client_done s)
  then show ?case by (simp add: shape_inv_def)
qed (erule shape_backend; auto)+

lemma shape_index:
  assumes "shape_inv n r s" "backend s i \<noteq> B_idle"
  shows "i < n"
proof -
  have "i \<in> dispatch_order n r ` {..<dispatched n (client s)}" using assms by (auto simp: shape_inv_def)
  moreover have "dispatched n (client s) \<le> n" using assms(1) by (simp add: shape_inv_def)
  ultimately show ?thesis by (auto simp: dispatch_order_def)
qed

lemma shape_released:
  assumes "shape_inv n r s" "behind_barrier (backend s i)" "j < n"
  shows "behind_barrier (backend s j)"
  using assms by (simp add: shape_inv_def)

lemma vote_same:
  assumes "vote_inv n s" "results s' = results s"
    "\<And>j. recorded (backend s' j) \<and> vote s' j \<longleftrightarrow> recorded (backend s j) \<and> vote s j"
    "\<And>j. voted (backend s' j) \<Longrightarrow>
       success s' j = vote s' j \<or> voted (backend s j) \<and> success s' j = success s j \<and> vote s' j = vote s j"
    "\<And>j. backend s' j = E_barrier \<or> backend s' j = E_out \<Longrightarrow>
       \<not> vote s' j \<or> (backend s j = E_barrier \<or> backend s j = E_out) \<and> vote s' j = vote s j"
  shows "vote_inv n s'"
  unfolding vote_inv_def using assms(1) [unfolded vote_inv_def] assms(2,3,4,5) by simp blast

lemma vote_invD:
  assumes "vote_inv n s"
  shows "result_set (results s) {i. i < n \<and> recorded (backend s i) \<and> vote s i}"
    and "voted (backend s i) \<Longrightarrow> success s i = vote s i"
    and "backend s i = E_barrier \<or> backend s i = E_out \<Longrightarrow> \<not> vote s i"
  using assms by (auto simp: vote_inv_def)

lemma step_vote:
  assumes "commit_step n r s s'" "vote_inv n s" "shape_inv n r s" "n \<le> 30"
  shows "vote_inv n s'"
  using assms
proof (induction rule: commit_step.induct)
  case (record_vote s i w)
  note v = vote_invD [OF record_vote.prems(1)]
  have i: "i < n" using shape_index [OF record_vote.prems(2), of i] record_vote.hyps(1) by simp
  have s: "success s i = vote s i" using v(2) record_vote.hyps(1) by simp
  have "{j. j < n \<and> recorded (((backend s)(i := B_barrier)) j) \<and> vote s j} =
      (if vote s i then insert i {j. j < n \<and> recorded (backend s j) \<and> vote s j}
       else {j. j < n \<and> recorded (backend s j) \<and> vote s j})"
    using i record_vote.hyps(1) by auto
  moreover have "i \<le> 30" using i record_vote.prems(3) by simp
  ultimately have "result_set w {j. j < n \<and> recorded (((backend s)(i := B_barrier)) j) \<and> vote s j}"
    using record_result_set [OF v(1), of i "vote s i"] record_vote.hyps(2) s by auto
  then show ?case using v(2,3) s by (auto simp: vote_inv_def)
qed (erule vote_same; auto split: if_splits)+

lemma executed_decided: "executed c \<Longrightarrow> decided c"
  by (cases c) auto

lemma decided_behind: "decided c \<Longrightarrow> behind_barrier c"
  by (cases c) auto

lemma decision_invD:
  assumes "decision_inv n s"
  shows "decided (backend s i) \<Longrightarrow> agrees n s (success s i)"
    and "outcome s i = (if executed (backend s i) then Some (success s i) else None)"
    and "reply s = Some d \<Longrightarrow> client_released (client s) \<and> agrees n s d"
  using assms unfolding decision_inv_def by blast+

lemma agrees_mono:
  assumes "agrees n s d" "vote s' = vote s" "cloned s \<longrightarrow> cloned s'"
  shows "agrees n s' d"
  using assms by (auto simp: agrees_def)

lemma decision_same:
  assumes "decision_inv n s" "vote s' = vote s" "cloned s \<longrightarrow> cloned s'" "reply s' = reply s"
    "client_released (client s) \<Longrightarrow> client_released (client s')"
    "\<And>j. decided (backend s' j) \<longleftrightarrow> decided (backend s j)" "\<And>j. executed (backend s' j) \<longleftrightarrow> executed (backend s j)"
    "\<And>j. decided (backend s j) \<Longrightarrow> success s' j = success s j" "outcome s' = outcome s"
  shows "decision_inv n s'"
proof -
  note d = decision_invD [OF assms(1)] and a = agrees_mono [OF _ assms(2,3)]
  show ?thesis unfolding decision_inv_def assms(4,6,7,9)
  proof (intro conjI allI impI)
    fix i
    show "agrees n s' (success s' i)" if "decided (backend s i)" using a [OF d(1) [OF that]] assms(8) [OF that] by simp
    show "outcome s i = (if executed (backend s i) then Some (success s' i) else None)"
      using d(2) [of i] assms(8) [of i] executed_decided [of "backend s i"] by simp
  qed (use d(3) assms(5) a in blast)+
qed

lemma decision_undecided:
  assumes "decision_inv n s" "shape_inv n r s" "\<not> client_released (client s)"
    "reply s' = reply s" "outcome s' = outcome s" "\<And>j. \<not> behind_barrier (backend s' j)"
  shows "decision_inv n s'"
proof -
  have "\<not> decided (backend s j)" "\<not> decided (backend s' j)" for j
    using assms(2,3,6) decided_behind [of "backend s j"] decided_behind [of "backend s' j"] by (auto simp: shape_inv_def)
  then have "\<not> executed (backend s j)" "\<not> executed (backend s' j)" "\<not> decided (backend s' j)" for j
    using executed_decided by blast+
  moreover have "reply s = None" using assms(1,3) unfolding decision_inv_def by (cases "reply s") auto
  ultimately show ?thesis using assms(1,4,5) by (simp add: decision_inv_def)
qed

lemma all_votes_released:
  assumes "vote_inv n s" "shape_inv n r s" "behind_barrier (backend s i)"
  shows "{j. j < n \<and> recorded (backend s j) \<and> vote s j} = {j. j < n \<and> vote s j}"
proof -
  have "recorded (backend s j)" if "j < n" "vote s j" for j
  proof -
    have "behind_barrier (backend s j)" using shape_released [OF assms(2,3) that(1)] .
    moreover have "backend s j \<noteq> E_out" using vote_invD(3) [OF assms(1), of j] that(2) by blast
    ultimately show ?thesis by (cases "backend s j") auto
  qed
  then show ?thesis by auto
qed

lemma decide_all_votes:
  assumes "vote_inv n s" "shape_inv n r s" "backend s i = B_released" "1 \<le> n" "n \<le> 30"
    "commit_decision (results s) (int n) t = Some d"
  shows "d = (t \<and> (\<forall>j<n. vote s j))"
proof -
  have b: "behind_barrier (backend s i)" using assms(3) by simp
  have "result_set (results s) {j. j < n \<and> vote s j}"
    using vote_invD(1) [OF assms(1)] all_votes_released [OF assms(1,2) b] by simp
  from commit_decision_all [OF this _ assms(4,5), of t] assms(6)
  have "d = (t \<and> {j. j < n \<and> vote s j} = {..<n})" by auto
  then show ?thesis by auto
qed

lemma decision_decided:
  assumes "decision_inv n s" "backend s i = B_released" "agrees n s d"
  shows "decision_inv n (s\<lparr>backend := (backend s)(i := B_decided), success := (success s)(i := d)\<rparr>)" (is "decision_inv n ?s")
proof -
  note a = agrees_mono [of n s _ ?s, simplified]
  show ?thesis unfolding decision_inv_def
  proof (intro conjI allI impI)
    fix j
    show "agrees n ?s (success ?s j)" if "decided (backend ?s j)"
      using that decision_invD(1) [OF assms(1), of j] a assms(3) by (cases "j = i") simp_all
    show "outcome ?s j = (if executed (backend ?s j) then Some (success ?s j) else None)"
      using decision_invD(2) [OF assms(1), of j] assms(2) by (cases "j = i") simp_all
  qed (use decision_invD(3) [OF assms(1)] a in auto)
qed

lemma shape_not_released:
  assumes "shape_inv n r s" "i < n" "\<not> behind_barrier (backend s i)"
  shows "\<not> client_released (client s)" "\<not> behind_barrier (backend s j)"
  using assms by (auto simp: shape_inv_def)

lemma decision_answer:
  assumes "decision_inv n s" "backend s i = B_decided" "agrees n s (success s i)" "client_released (client s)"
  shows "decision_inv n (s\<lparr>backend := (backend s)(i := B_replied), reply := (if i = proxying s then Some (success s i) else reply s)\<rparr>)"
    (is "decision_inv n ?s")
proof -
  note a = agrees_mono [of n s _ ?s, simplified]
  show ?thesis unfolding decision_inv_def
  proof (intro conjI allI impI)
    fix j
    show "agrees n ?s (success ?s j)" if "decided (backend ?s j)"
      using that decision_invD(1) [OF assms(1), of j] a assms(3) by (cases "j = i") simp_all
    show "outcome ?s j = (if executed (backend ?s j) then Some (success ?s j) else None)"
      using decision_invD(2) [OF assms(1), of j] assms(2) by (cases "j = i") simp_all
    fix d assume "reply ?s = Some d"
    then show "client_released (client ?s)" "agrees n ?s d"
      using decision_invD(3) [OF assms(1), of d] a assms(3,4) by (cases "i = proxying s"; simp)+
  qed
qed

lemma decision_finish:
  assumes "decision_inv n s" "backend s i = B_replied"
  shows "decision_inv n (s\<lparr>backend := (backend s)(i := B_executed), outcome := (outcome s)(i \<mapsto> success s i)\<rparr>)"
    (is "decision_inv n ?s")
proof -
  note a = agrees_mono [of n s _ ?s, simplified]
  show ?thesis unfolding decision_inv_def
  proof (intro conjI allI impI)
    fix j
    show "agrees n ?s (success ?s j)" if "decided (backend ?s j)"
      using that decision_invD(1) [OF assms(1), of j] a assms(2) by (cases "j = i") simp_all
    show "outcome ?s j = (if executed (backend ?s j) then Some (success ?s j) else None)"
      using decision_invD(2) [OF assms(1), of j] assms(2) by (cases "j = i") simp_all
    fix d assume "reply ?s = Some d"
    then show "client_released (client ?s)" "agrees n ?s d" using decision_invD(3) [OF assms(1), of d] a by simp_all
  qed
qed

lemma step_generation:
  assumes "commit_step n r s s'" "generation_inv s"
  shows "generation_inv s'"
  using assms by (induction rule: commit_step.induct) (auto simp: generation_inv_def)

lemma step_decision:
  assumes "commit_step n r s s'" "decision_inv n s" "vote_inv n s" "shape_inv n r s" "generation_inv s" "1 \<le> n" "n \<le> 30"
  shows "decision_inv n s'"
  using assms
proof (induction rule: commit_step.induct)
  case (execute s i ok)
  have "i < n" using shape_index [OF execute.prems(3), of i] execute.hyps by simp
  note nr = shape_not_released [OF execute.prems(3) this]
  show ?case by (rule decision_undecided [OF execute.prems(1,3)]) (use nr execute.hyps in auto)
next
  case (packet_error s i)
  have "i < n" using shape_index [OF packet_error.prems(3), of i] packet_error.hyps by simp
  note nr = shape_not_released [OF packet_error.prems(3) this]
  show ?case by (rule decision_undecided [OF packet_error.prems(1,3)]) (use nr packet_error.hyps in auto)
next
  case (decide s i d)
  have "i < n" using shape_index [OF decide.prems(3), of i] decide.hyps by simp
  moreover have "success s i = vote s i" using vote_invD(2) [OF decide.prems(2), of i] decide.hyps(1) by simp
  ultimately have "agrees n s d"
    using decide_all_votes [OF decide.prems(2,3) decide.hyps(1) decide.prems(5,6) decide.hyps(3)] by (auto simp: agrees_def)
  then show ?case by (rule decision_decided [OF decide.prems(1) decide.hyps(1)])
next
  case (decide_cloned s i t d)
  have "cloned s" using decide_cloned.prems(4) decide_cloned.hyps(2) by (auto simp: generation_inv_def)
  then have "agrees n s d"
    using decide_all_votes [OF decide_cloned.prems(2,3) decide_cloned.hyps(1) decide_cloned.prems(5,6) decide_cloned.hyps(4)]
    by (auto simp: agrees_def)
  then show ?case by (rule decision_decided [OF decide_cloned.prems(1) decide_cloned.hyps(1)])
next
  case (answer s i)
  note i = decision_invD [OF answer.prems(1)]
  have "i < n" using shape_index [OF answer.prems(3), of i] answer.hyps by simp
  then have "client_released (client s)" using answer.prems(3) answer.hyps unfolding shape_inv_def
    by (metis behind_barrier.simps(2))
  moreover have "agrees n s (success s i)" using i(1) [of i] answer.hyps by simp
  ultimately show ?case by (intro decision_answer answer.prems answer.hyps)
next
  case (finish s i)
  show ?case by (rule decision_finish [OF finish.prems(1) finish.hyps])
qed (erule decision_same; auto split: if_splits)+

lemma count_same:
  assumes "count_inv s" "committing s' = committing s" "\<And>j. in_commit_phase (backend s' j) \<longleftrightarrow> in_commit_phase (backend s j)"
  shows "count_inv s'"
  using assms(1) unfolding count_inv_def assms(2,3) .

lemma step_count:
  assumes "commit_step n r s s'" "count_inv s"
  shows "count_inv s'"
  using assms
proof (induction rule: commit_step.induct)
  case (count s i)
  let ?C = "{j. in_commit_phase (backend s j)}"
  have "{j. in_commit_phase (((backend s)(i := B_counted)) j)} = insert i ?C" by auto
  moreover have "i \<notin> ?C" using count.hyps by simp
  ultimately show ?case using count.prems by (simp add: count_inv_def)
next
  case (leave s i)
  let ?C = "{j. in_commit_phase (backend s j)}"
  have "{j. in_commit_phase (((backend s)(i := B_out)) j)} = ?C - {i}" by auto
  moreover have "i \<in> ?C" using leave.hyps by simp
  moreover have "finite ?C" using leave.prems by (simp add: count_inv_def)
  ultimately have "int (card ?C) = int (card (?C - {i})) + 1"
    by (metis card_Suc_Diff1 of_nat_Suc add.commute)
  then show ?case
    using leave.prems \<open>{j. in_commit_phase (((backend s)(i := B_out)) j)} = ?C - {i}\<close> by (simp add: count_inv_def)
qed (erule count_same; auto split: if_splits)+

lemma step_lock:
  assumes "commit_step n r s s'" "lock_inv s" "shape_inv n r s"
  shows "lock_inv s'"
  using assms
proof (induction rule: commit_step.induct)
  case (dispatch s k i)
  show ?case
  proof (cases "k = 0")
    case True
    then have "{i. backend s i \<noteq> B_idle} = {}" using dispatch.hyps(1) dispatch.prems(2) by (simp add: shape_inv_def)
    then have "backend s (proxying s) = B_idle" by blast
    then show ?thesis using True dispatch.prems(1) by (simp add: lock_inv_def)
  next
    case False
    then show ?thesis using dispatch.prems(1) dispatch.hyps(4) by (auto simp: lock_inv_def)
  qed
qed (auto simp: lock_inv_def split: if_splits)

definition commit_inv :: "nat \<Rightarrow> nat \<Rightarrow> commit_sys \<Rightarrow> bool" where
  "commit_inv n r s \<longleftrightarrow> shape_inv n r s \<and> vote_inv n s \<and> decision_inv n s \<and> generation_inv s \<and> count_inv s \<and> lock_inv s"

lemma commit_inv_start: "commit_inv n r commit_start"
  by (simp add: commit_inv_def commit_start_def shape_inv_def vote_inv_def decision_inv_def generation_inv_def count_inv_def lock_inv_def
      result_set_empty)

lemmas commit_inv_step = step_shape step_vote step_generation step_decision step_count step_lock

lemma commit_reach_inv:
  assumes "commit_reach n r s" "1 \<le> n" "n \<le> 30"
  shows "commit_inv n r s"
  using assms(1)
proof (induction rule: commit_reach.induct)
  case start
  show ?case by (rule commit_inv_start)
next
  case (step s s')
  then show ?case using commit_inv_step [OF step.hyps(2)] assms(2,3) unfolding commit_inv_def by simp
qed

section \<open>Agreement\<close>


section \<open>The answer to the client\<close>

fun replied :: "bpc \<Rightarrow> bool" where
  "replied B_replied = True" | "replied B_executed = True" | "replied B_unlocked = True" | "replied B_out = True"
| "replied _ = False"

definition reply_inv :: "commit_sys \<Rightarrow> bool" where
  "reply_inv s \<longleftrightarrow> (client s = M_done \<longrightarrow> \<not> committed s) \<and>
     reply s = (if replied (backend s (proxying s)) then Some (success s (proxying s)) else None)"

lemma replied_behind: "replied c \<Longrightarrow> behind_barrier c"
  by (cases c) auto

lemma step_reply:
  assumes "commit_step n r s s'" "reply_inv s" "shape_inv n r s"
  shows "reply_inv s'"
  using assms
proof (induction rule: commit_step.induct)
  case (dispatch s k i)
  then have "\<not> replied (backend s i)" for i using replied_behind [of "backend s i"] by (auto simp: shape_inv_def)
  then show ?case using dispatch by (simp add: reply_inv_def)
next
  case (lock s i)
  then have "\<not> client_released (client s)"
    using shape_not_released(1) [OF lock.prems(2) shape_index [OF lock.prems(2), of i]] by simp
  then have "client s \<noteq> M_done" by auto
  then show ?case using lock by (auto simp: reply_inv_def)
qed (auto simp: reply_inv_def split: if_splits)

lemma commit_reach_reply_inv:
  assumes "commit_reach n r s" "1 \<le> n" "n \<le> 30"
  shows "reply_inv s"
  using assms(1)
proof (induction rule: commit_reach.induct)
  case start
  show ?case by (simp add: reply_inv_def commit_start_def)
next
  case (step s s')
  then show ?case using step_reply commit_reach_inv [OF step.hyps(1) assms(2,3)] by (auto simp: commit_inv_def)
qed

text \<open>
  C17: the client goes on to its next query only when the backend that proxies the results has
  executed COMMIT or ROLLBACK and the client has had the answer that says which; the one
  exception is a packet error on that backend, after which the client has no answer.
\<close>

theorem client_continues_after_commit:
  assumes "commit_reach n r s" "1 \<le> n" "n \<le> 30" "client s = M_done"
  shows "if backend s (proxying s) = E_out then outcome s (proxying s) = None \<and> reply s = None
    else \<exists>d. outcome s (proxying s) = Some d \<and> reply s = Some d"
proof -
  note inv = commit_reach_inv [OF assms(1-3), unfolded commit_inv_def]
  have r: "reply_inv s" using commit_reach_reply_inv [OF assms(1-3)] .
  have "proxying s = dispatch_order n r 0" using inv assms(2,4) by (simp add: shape_inv_def)
  then have "proxying s < n" using assms(2) by (simp add: dispatch_order_def)
  then have "behind_barrier (backend s (proxying s))" using inv assms(4) by (simp add: shape_inv_def)
  moreover have "\<not> lock_held (backend s (proxying s))" using inv r assms(4) by (simp add: lock_inv_def reply_inv_def)
  ultimately have "backend s (proxying s) = E_out \<or> backend s (proxying s) = B_unlocked \<or> backend s (proxying s) = B_out"
    by (cases "backend s (proxying s)") auto
  moreover have "outcome s (proxying s) = (if executed (backend s (proxying s)) then Some (success s (proxying s)) else None)"
    using decision_invD(2) [of n s] inv by blast
  ultimately show ?thesis using r by (auto simp: reply_inv_def)
qed

text \<open>
  The counter \<open>committing\<close> is the number of backend threads in the commit phase, and a
  clone request that waits for the end of the commit phase goes on only when there is none.
\<close>

theorem committing_counts_commit_phase:
  assumes "commit_reach n r s" "1 \<le> n" "n \<le> 30"
  shows "committing s = int (card {i. i < n \<and> in_commit_phase (backend s i)})"
proof -
  note inv = commit_reach_inv [OF assms, unfolded commit_inv_def]
  have "i < n" if "in_commit_phase (backend s i)" for i
    using shape_index [of n r s i] inv that by (cases "backend s i = B_idle") simp_all
  then have "{i. i < n \<and> in_commit_phase (backend s i)} = {i. in_commit_phase (backend s i)}" by auto
  then show ?thesis using inv by (simp add: count_inv_def)
qed

section \<open>Progress\<close>

text \<open>The steps of the query itself, those of a clone request left out.\<close>

definition query_step :: "nat \<Rightarrow> nat \<Rightarrow> commit_sys \<Rightarrow> commit_sys \<Rightarrow> bool" where
  "query_step n r s s' \<longleftrightarrow> commit_step n r s s' \<and> cloner s' = cloner s"

definition finished :: "nat \<Rightarrow> commit_sys \<Rightarrow> bool" where
  "finished n s \<longleftrightarrow> client s = M_done \<and> (\<forall>i<n. backend s i = B_out \<or> backend s i = E_out)"

text \<open>
  No clone request is under way, no backend thread is inside the loop that waits for one, and
  no clone was made since a backend thread began.
\<close>

definition calm :: "commit_sys \<Rightarrow> bool" where
  "calm s \<longleftrightarrow> \<not> cloning s \<and> (\<forall>i. backend s i \<noteq> B_polling \<and> backend s i \<noteq> B_polled) \<and>
     (\<forall>i. backend s i \<noteq> B_idle \<and> backend s i \<noteq> B_run \<longrightarrow> started s i = generation s)"

lemma calm_same:
  assumes "calm s" "cloning s' = cloning s" "generation s' = generation s"
    "\<And>j. backend s' j \<noteq> B_polling \<and> backend s' j \<noteq> B_polled \<or> backend s' j = backend s j"
    "\<And>j. backend s' j \<noteq> B_idle \<and> backend s' j \<noteq> B_run \<Longrightarrow> started s' j = generation s \<or>
       backend s j \<noteq> B_idle \<and> backend s j \<noteq> B_run \<and> started s' j = started s j"
  shows "calm s'"
proof -
  have c: "\<not> cloning s" "backend s j \<noteq> B_polling \<and> backend s j \<noteq> B_polled"
    "backend s j \<noteq> B_idle \<and> backend s j \<noteq> B_run \<Longrightarrow> started s j = generation s" for j
    using assms(1) unfolding calm_def by blast+
  show ?thesis unfolding calm_def assms(2,3)
  proof (intro conjI allI impI)
    fix j
    show "backend s' j \<noteq> B_polling" "backend s' j \<noteq> B_polled" using assms(4) [of j] c(2) [of j] by auto
    show "started s' j = generation s" if "backend s' j \<noteq> B_idle \<and> backend s' j \<noteq> B_run"
      using assms(5) [OF that] c(3) [of j] by auto
  qed (rule c(1))
qed

lemma query_step_calm:
  assumes "query_step n r s s'" "calm s"
  shows "calm s'"
proof -
  have "commit_step n r s s'" "cloner s' = cloner s" using assms(1) by (auto simp: query_step_def)
  moreover have "\<not> cloning s" "backend s i \<noteq> B_polling" "backend s i \<noteq> B_polled" for i
    using assms(2) by (auto simp: calm_def)
  ultimately show ?thesis using assms(2)
    by (induction rule: commit_step.induct) ((erule calm_same; auto split: if_splits)+)
qed

text \<open>The number of steps that a thread has still to do, at most.\<close>

fun backend_rank :: "bpc \<Rightarrow> nat" where
  "backend_rank B_idle = 14" | "backend_rank B_run = 13" | "backend_rank B_begun = 12" | "backend_rank B_ready = 11"
| "backend_rank B_waiting = 10" | "backend_rank B_polling = 10" | "backend_rank B_polled = 10"
| "backend_rank B_passed = 9" | "backend_rank B_counted = 8" | "backend_rank B_locked = 7"
| "backend_rank B_barrier = 6" | "backend_rank B_released = 5" | "backend_rank B_decided = 4"
| "backend_rank B_replied = 3" | "backend_rank B_executed = 2" | "backend_rank B_unlocked = 1"
| "backend_rank B_out = 0" | "backend_rank E_barrier = 1" | "backend_rank E_out = 0"

fun client_rank :: "mpc \<Rightarrow> nat" where
  "client_rank (M_dispatch _) = 3" | "client_rank M_barrier = 2" | "client_rank M_released = 1" | "client_rank M_done = 0"

definition rank :: "nat \<Rightarrow> commit_sys \<Rightarrow> nat" where
  "rank n s = client_rank (client s) + (\<Sum>i<n. backend_rank (backend s i)) +
     (if trans_success s = None then 1 else 0)"

lemma rank_upd:
  assumes "i < (n :: nat)" "backend_rank c < backend_rank (b i)"
  shows "(\<Sum>j<n. backend_rank ((b(i := c)) j)) < (\<Sum>j<n. backend_rank (b j))"
proof (rule sum_strict_mono_ex1)
  show "\<forall>j\<in>{..<n}. backend_rank ((b(i := c)) j) \<le> backend_rank (b j)" using assms(2) by simp
  show "\<exists>j\<in>{..<n}. backend_rank ((b(i := c)) j) < backend_rank (b j)" using assms by (intro bexI [of _ i]) simp_all
qed simp

lemma rank_shape_upd:
  assumes "shape_inv n r s" "backend s i = c'" "c' \<noteq> B_idle" "backend_rank c < backend_rank c'"
  shows "(\<Sum>j<n. backend_rank (((backend s)(i := c)) j)) < (\<Sum>j<n. backend_rank (backend s j))"
  using rank_upd [OF shape_index [OF assms(1), of i], of c "backend s"] assms(2-4) by simp

lemma query_step_rank:
  assumes "query_step n r s s'" "shape_inv n r s" "0 < n" "calm s"
  shows "rank n s' < rank n s"
proof -
  have "commit_step n r s s'" "cloner s' = cloner s" using assms(1) by (auto simp: query_step_def)
  moreover have "\<not> cloning s" "backend s i \<noteq> B_polling" "backend s i \<noteq> B_polled" for i
    using assms(4) by (auto simp: calm_def)
  ultimately show ?thesis using assms(2,3)
  proof (induction rule: commit_step.induct)
    case (dispatch s k i)
    then show ?case using rank_upd [of i n B_run "backend s"] by (auto simp: rank_def dispatch_order_def)
  next
    case (release s)
    have "(\<Sum>j<n. backend_rank (if backend s j = B_barrier then B_released else if backend s j = E_barrier then E_out else backend s j))
        \<le> (\<Sum>j<n. backend_rank (backend s j))" by (rule sum_mono) auto
    then show ?case using release by (simp add: rank_def)
  qed (auto simp: rank_def simp del: fun_upd_apply intro: rank_shape_upd)
qed

lemma query_stepI: "commit_step n r s s' \<Longrightarrow> cloner s' = cloner s \<Longrightarrow> \<exists>s'. query_step n r s s'"
  by (auto simp: query_step_def)

lemma released_backend:
  assumes "shape_inv n r s" "client_released (client s)" "i < n"
  shows "backend s i \<noteq> B_idle \<and> backend s i \<noteq> B_barrier \<and> backend s i \<noteq> E_barrier"
proof -
  have "behind_barrier (backend s i)" using assms by (simp add: shape_inv_def)
  then show ?thesis by auto
qed

lemma query_step_possible:
  assumes "commit_inv n r s" "reply_inv s" "1 \<le> n" "n \<le> 30" "calm s" "\<not> finished n s"
  shows "\<exists>s'. query_step n r s s'"
proof -
  have inv: "shape_inv n r s" "vote_inv n s" "lock_inv s" using assms(1) by (auto simp: commit_inv_def)
  have c: "\<not> cloning s" "backend s i \<noteq> B_polling" "backend s i \<noteq> B_polled"
    "backend s i = B_released \<Longrightarrow> generation s = started s i" for i
    using assms(5) by (auto simp: calm_def)
  have run: ?thesis if "\<not> (backend s i = B_barrier \<or> backend s i = E_barrier \<or> backend s i = B_out \<or> backend s i = E_out)"
    "backend s i \<noteq> B_idle" for i
  proof -
    have i: "i < n" using shape_index [OF inv(1) that(2)] .
    obtain w where w: "record_result (results s) (int i) (success s i) = Some w"
      using record_result_set [OF vote_invD(1) [OF inv(2)], of i "success s i"] i assms(4) by auto
    obtain d where d: "commit_decision (results s) (int n) (success s i) = Some d"
      using commit_decision_all [OF vote_invD(1) [OF inv(2)], of n "success s i"] assms(3,4) by auto
    have l: "if i = proxying s then \<not> committed s else True" if "backend s i = B_counted"
      using inv(3) that by (auto simp: lock_inv_def)
    show ?thesis
    proof (cases "backend s i")
      case B_run then show ?thesis by (rule query_stepI [OF begin_query]) simp
    next
      case B_begun then show ?thesis by (rule query_stepI [OF execute]) simp
    next
      case B_ready then show ?thesis by (rule query_stepI [OF check_commit]) simp
    next
      case B_waiting then show ?thesis by (rule query_stepI [OF check_cloning]) simp
    next
      case B_passed then show ?thesis by (rule query_stepI [OF count]) simp
    next
      case B_counted then show ?thesis using l by (intro query_stepI [OF lock]) simp_all
    next
      case B_locked then show ?thesis using w by (rule query_stepI [OF record_vote]) simp
    next
      case B_released then show ?thesis using c(4) [of i] d by (intro query_stepI [OF decide]) simp_all
    next
      case B_decided then show ?thesis by (rule query_stepI [OF answer]) simp
    next
      case B_replied then show ?thesis by (rule query_stepI [OF finish]) simp
    next
      case B_executed then show ?thesis by (rule query_stepI [OF unlock]) simp
    next
      case B_unlocked then show ?thesis by (rule query_stepI [OF leave]) simp
    qed (use that c(2,3) [of i] in simp_all)
  qed
  show ?thesis
  proof (cases "client s")
    case (M_dispatch k)
    show ?thesis
    proof (cases "k < n")
      case True
      have "dispatch_order n r k \<notin> dispatch_order n r ` {..<k}"
        using inj_on_image_mem_iff [OF dispatch_order_inj [of n r], of k "{..<k}"] True by simp
      then have "backend s (dispatch_order n r k) = B_idle" using inv(1) M_dispatch by (auto simp: shape_inv_def)
      with M_dispatch True show ?thesis by (intro query_stepI [OF dispatch [OF _ _ refl]]) simp_all
    next
      case False
      with inv(1) M_dispatch have "k = n" by (simp add: shape_inv_def)
      with M_dispatch show ?thesis by (intro query_stepI [OF arrive]) simp_all
    qed
  next
    case M_barrier
    have idle: "backend s i \<noteq> B_idle" "\<not> behind_barrier (backend s i)" if "i < n" for i
      using inv(1) M_barrier that assms(3) by (auto simp: shape_inv_def dispatch_order_image)
    show ?thesis
    proof (cases "\<forall>i<n. backend s i = B_barrier \<or> backend s i = E_barrier")
      case True
      with M_barrier show ?thesis by (intro query_stepI [OF release]) simp_all
    next
      case False
      then obtain i where i: "i < n" "backend s i \<noteq> B_barrier" "backend s i \<noteq> E_barrier" by auto
      with idle [of i] show ?thesis by (intro run [of i]) auto
    qed
  next
    case M_released
    note out = released_backend [OF inv(1), unfolded M_released, simplified]
    show ?thesis
    proof (cases "\<forall>i<n. backend s i = B_out \<or> backend s i = E_out")
      case True
      have "proxying s < n" using inv(1) M_released assms(3) by (simp add: shape_inv_def dispatch_order_def)
      with True inv(3) have "\<not> committed s" by (auto simp: lock_inv_def)
      with M_released show ?thesis by (intro query_stepI [OF client_done]) simp_all
    next
      case False
      with out run show ?thesis by auto
    qed
  next
    case M_done
    note out = released_backend [OF inv(1), unfolded M_done, simplified]
    show ?thesis using assms(6) M_done out run by (auto simp: finished_def)
  qed
qed

lemma query_steps_reach:
  assumes "(query_step n r)\<^sup>*\<^sup>* s s'" "commit_reach n r s" "calm s"
  shows "commit_reach n r s' \<and> calm s'"
  using assms
proof (induction rule: rtranclp_induct)
  case (step t u)
  then show ?case using query_step_calm [of n r t u] commit_reach.step [of n r t u] by (simp add: query_step_def)
qed simp

lemma query_steps_rank:
  assumes "(query_step n r ^^ k) s s'" "commit_reach n r s" "calm s" "1 \<le> n" "n \<le> 30"
  shows "k + rank n s' \<le> rank n s"
  using assms(1)
proof (induction k arbitrary: s')
  case (Suc k)
  then obtain t where t: "(query_step n r ^^ k) s t" "query_step n r t s'" by auto
  have c: "commit_reach n r t" "calm t" using query_steps_reach [OF relpowp_imp_rtranclp [OF t(1)] assms(2,3)] by simp_all
  then have "shape_inv n r t" using commit_reach_inv assms(4,5) by (auto simp: commit_inv_def)
  then have "rank n s' < rank n t" using query_step_rank [OF t(2)] assms(4) c(2) by simp
  with Suc.IH [OF t(1)] show ?case by simp
qed simp

lemma rank_start: "rank n commit_start = 14 * n + 4"
  by (simp add: rank_def commit_start_def)


section \<open>Schedules\<close>

text \<open>The steps as a function of a schedule, to compute reachable states.\<close>

datatype action =
  Dispatch | Arrive | Begin nat | Execute nat bool | Packet_error nat | Check_commit nat | Check_cloning nat
| Poll_committing nat | Poll_commit nat | Count nat | Lock nat | Record nat | Release | Decide nat | Answer nat
| Finish nat | Unlock nat | Leave nat | Client_done | Clone_request | Clone_go | Clone_made | Clone_joined
| Trans_result bool

fun next_client :: "mpc \<Rightarrow> nat option" where
  "next_client (M_dispatch k) = Some k" | "next_client _ = None"

lemma next_client_Some [simp]: "next_client m = Some k \<longleftrightarrow> m = M_dispatch k"
  by (cases m) auto

abbreviation guarded :: "bool \<Rightarrow> commit_sys \<Rightarrow> commit_sys option" where
  "guarded b s \<equiv> if b then Some s else None"

fun act :: "nat \<Rightarrow> nat \<Rightarrow> action \<Rightarrow> commit_sys \<Rightarrow> commit_sys option" where
  "act n r Dispatch s = do {
     k \<leftarrow> next_client (client s);
     let i = dispatch_order n r k;
     guarded (k < n \<and> backend s i = B_idle)
       (s\<lparr>client := M_dispatch (Suc k), backend := (backend s)(i := B_run),
          proxying := (if k = 0 then i else proxying s), commit_committing := False\<rparr>) }"
| "act n r Arrive s = guarded (client s = M_dispatch n) (s\<lparr>client := M_barrier\<rparr>)"
| "act n r (Begin i) s = guarded (backend s i = B_run)
     (s\<lparr>backend := (backend s)(i := B_begun), started := (started s)(i := generation s)\<rparr>)"
| "act n r (Execute i ok) s = guarded (backend s i = B_begun)
     (s\<lparr>backend := (backend s)(i := B_ready), success := (success s)(i := ok), vote := (vote s)(i := ok)\<rparr>)"
| "act n r (Packet_error i) s = guarded (backend s i = B_begun)
     (s\<lparr>backend := (backend s)(i := E_barrier), vote := (vote s)(i := False)\<rparr>)"
| "act n r (Check_commit i) s = guarded (backend s i = B_ready)
     (set_backend s i (if commit_committing s then B_passed else B_waiting))"
| "act n r (Check_cloning i) s = guarded (backend s i = B_waiting)
     (set_backend s i (if cloning s then B_polling else B_passed))"
| "act n r (Poll_committing i) s = guarded (backend s i = B_polling)
     (set_backend s i (if committing s \<noteq> 0 then B_polled else B_waiting))"
| "act n r (Poll_commit i) s = guarded (backend s i = B_polled)
     (set_backend s i (if commit_committing s then B_passed else B_polling))"
| "act n r (Count i) s = guarded (backend s i = B_passed)
     (s\<lparr>backend := (backend s)(i := B_counted), committing := committing s + 1, commit_committing := True\<rparr>)"
| "act n r (Lock i) s = guarded (backend s i = B_counted \<and> (if i = proxying s then \<not> committed s else True))
     (s\<lparr>backend := (backend s)(i := B_locked), committed := (i = proxying s \<or> committed s)\<rparr>)"
| "act n r (Record i) s = do {
     w \<leftarrow> record_result (results s) (int i) (success s i);
     guarded (backend s i = B_locked) (s\<lparr>backend := (backend s)(i := B_barrier), results := w\<rparr>) }"
| "act n r Release s =
     guarded (client s = M_barrier \<and> list_all (\<lambda>i. backend s i = B_barrier \<or> backend s i = E_barrier) [0..<n])
     (s\<lparr>client := M_released,
       backend := (\<lambda>i. if backend s i = B_barrier then B_released
                       else if backend s i = E_barrier then E_out else backend s i)\<rparr>)"
| "act n r (Decide i) s = do {
     t \<leftarrow> if generation s = started s i then Some (success s i) else trans_success s;
     d \<leftarrow> commit_decision (results s) (int n) t;
     guarded (backend s i = B_released) (s\<lparr>backend := (backend s)(i := B_decided), success := (success s)(i := d)\<rparr>) }"
| "act n r (Answer i) s = guarded (backend s i = B_decided)
     (s\<lparr>backend := (backend s)(i := B_replied), reply := (if i = proxying s then Some (success s i) else reply s)\<rparr>)"
| "act n r (Finish i) s = guarded (backend s i = B_replied)
     (s\<lparr>backend := (backend s)(i := B_executed), outcome := (outcome s)(i \<mapsto> success s i)\<rparr>)"
| "act n r (Unlock i) s = guarded (backend s i = B_executed)
     (s\<lparr>backend := (backend s)(i := B_unlocked), committed := (i \<noteq> proxying s \<and> committed s)\<rparr>)"
| "act n r (Leave i) s = guarded (backend s i = B_unlocked)
     (s\<lparr>backend := (backend s)(i := B_out), committing := committing s - 1\<rparr>)"
| "act n r Client_done s = guarded (client s = M_released \<and> \<not> committed s) (s\<lparr>client := M_done\<rparr>)"
| "act n r Clone_request s = guarded (cloner s = C_idle) (s\<lparr>cloner := C_waiting, cloning := True\<rparr>)"
| "act n r Clone_go s = guarded (cloner s = C_waiting \<and> committing s = 0) (s\<lparr>cloner := C_cloning\<rparr>)"
| "act n r Clone_made s = guarded (cloner s = C_cloning)
     (s\<lparr>cloner := C_joining, generation := Suc (generation s), cloned := True\<rparr>)"
| "act n r Clone_joined s = guarded (cloner s = C_joining) (s\<lparr>cloner := C_idle, cloning := False\<rparr>)"
| "act n r (Trans_result t) s = guarded (cloned s \<and> trans_success s = None) (s\<lparr>trans_success := Some t\<rparr>)"

fun run :: "nat \<Rightarrow> nat \<Rightarrow> action list \<Rightarrow> commit_sys \<Rightarrow> commit_sys option" where
  "run n r [] s = Some s"
| "run n r (a # as) s = do { s' \<leftarrow> act n r a s; run n r as s' }"

lemma guarded_Some: "guarded b s = Some s' \<longleftrightarrow> b \<and> s = s'"
  by simp

lemma act_step:
  assumes "act n r a s = Some s'"
  shows "commit_step n r s s'"
proof (cases a)
  case Release
  have "(\<forall>i\<in>{0..<n}. P i) \<longleftrightarrow> (\<forall>i<n. P i)" for P by auto
  with Release assms show ?thesis
    by (auto simp: list_all_iff guarded_Some intro: commit_step.intros split del: if_split)
next
  case (Decide i)
  then show ?thesis using assms
    by (cases "generation s = started s i") (auto simp: bind_eq_Some_conv guarded_Some intro: decide decide_cloned split del: if_split)
qed (use assms in \<open>auto simp: Let_def bind_eq_Some_conv guarded_Some intro: commit_step.intros split del: if_split\<close>)

lemma run_reach:
  assumes "run n r as s = Some s'" "commit_reach n r s"
  shows "commit_reach n r s'"
  using assms
proof (induction as arbitrary: s)
  case (Cons a as)
  then obtain t where t: "act n r a s = Some t" "run n r as t = Some s'" by (auto simp: bind_eq_Some_conv)
  show ?case by (rule Cons.IH [OF t(2) commit_reach.step [OF Cons.prems(2) act_step [OF t(1)]]])
qed simp

lemma run_start:
  assumes "map_option f (run n r as commit_start) = Some x"
  shows "\<exists>s. commit_reach n r s \<and> f s = x"
proof -
  obtain s where "run n r as commit_start = Some s" "f s = x" using assms by auto
  with run_reach [OF _ commit_reach.start] show ?thesis by blast
qed

section \<open>Clone requests\<close>

text \<open>
  Two backends. The backend that gets the query first counts itself as committing before the
  query is handed to the second one, which resets \<open>commit_committing\<close>; a clone request in
  between makes the second backend wait for the clone, the clone wait for the first backend,
  and the first backend wait at the barrier for the second.
\<close>

fun in_loop :: "bpc \<Rightarrow> bool" where
  "in_loop B_waiting = True" | "in_loop B_polling = True" | "in_loop B_polled = True" | "in_loop _ = False"

definition stuck :: "commit_sys \<Rightarrow> bool" where
  "stuck s \<longleftrightarrow> client s = M_barrier \<and> cloner s = C_waiting \<and> cloning s \<and> \<not> commit_committing s \<and> committing s = 1 \<and>
     backend s 1 = B_barrier \<and> in_loop (backend s 0) \<and> \<not> cloned s"

definition stuck_schedule :: "action list" where
  "stuck_schedule = [Dispatch, Begin 1, Execute 1 True, Check_commit 1, Check_cloning 1, Count 1, Clone_request, Dispatch,
     Begin 0, Execute 0 True, Check_commit 0, Lock 1, Record 1, Arrive]"

lemma stuck_reachable: "\<exists>s. commit_reach 2 0 s \<and> stuck s"
proof -
  have "map_option stuck (run 2 0 stuck_schedule commit_start) = Some True" by code_simp
  from run_start [OF this] show ?thesis by simp
qed

fun frozen :: "bpc \<Rightarrow> bool" where
  "frozen B_idle = True" | "frozen B_barrier = True" | "frozen c = in_loop c"

lemma stuck_backend:
  assumes "stuck s" "shape_inv 2 0 s" "backend s i = c"
  shows "frozen c" "in_loop c \<Longrightarrow> i = 0"
proof -
  have "i < 2 \<or> c = B_idle" using shape_index [OF assms(2), of i] assms(3) by auto
  then have "i = 0 \<or> i = 1 \<or> c = B_idle" by auto
  moreover have "frozen (backend s 0)" using assms(1) by (cases "backend s 0") (auto simp: stuck_def)
  ultimately show "frozen c" "in_loop c \<Longrightarrow> i = 0" using assms(1,3) by (auto simp: stuck_def)
qed

lemma stuck_step:
  assumes "commit_step 2 0 s s'" "stuck s" "shape_inv 2 0 s"
  shows "stuck s'"
proof -
  note b = stuck_backend [OF assms(2,3)]
  show ?thesis using assms(1)
  proof (cases rule: commit_step.cases)
    case release
    then have "backend s 0 = B_barrier \<or> backend s 0 = E_barrier" by simp
    with assms(2) show ?thesis by (auto simp: stuck_def)
  next
    case (check_cloning i)
    with b(2) [of i] assms(2) show ?thesis by (simp add: stuck_def)
  next
    case (poll_committing i)
    with b(2) [of i] assms(2) show ?thesis by (simp add: stuck_def)
  next
    case (poll_commit i)
    with b(2) [of i] assms(2) show ?thesis by (simp add: stuck_def)
  qed (use assms(2) in \<open>auto simp: stuck_def dest: b(1)\<close>)
qed

lemma stuck_steps:
  assumes "(commit_step 2 0)\<^sup>*\<^sup>* s s'" "commit_reach 2 0 s" "stuck s"
  shows "stuck s' \<and> commit_reach 2 0 s'"
  using assms
proof (induction rule: rtranclp_induct)
  case (step t u)
  then have t: "stuck t" "commit_reach 2 0 t" by simp_all
  then have "shape_inv 2 0 t" using commit_reach_inv [of 2 0 t] by (simp add: commit_inv_def)
  with t step.hyps(2) show ?case using stuck_step commit_reach.step by blast
qed simp

text \<open>
  C19: a clone request can block the coordinator for ever: a state is reachable from which,
  whatever the threads do, the client stays at the barrier of its query and the clone request
  goes on waiting for the commit phase to end.
\<close>

theorem clone_request_livelock:
  "\<exists>s. commit_reach 2 0 s \<and>
     {s'. (commit_step 2 0)\<^sup>*\<^sup>* s s'} \<subseteq> {s'. client s' = M_barrier \<and> cloner s' = C_waiting}"
proof -
  obtain s where s: "commit_reach 2 0 s" "stuck s" using stuck_reachable by blast
  show ?thesis
    using s stuck_steps [OF _ s] by (intro exI [of _ s]) (auto simp: stuck_def)
qed

text \<open>
  The test of the flag \<open>cloning\<close> and the increment of \<open>committing\<close> are separate steps, so
  a clone can be under way while a backend thread is in the commit phase.
\<close>

theorem clone_overlaps_commit:
  "\<exists>s. commit_reach 1 0 s \<and> cloner s = C_cloning \<and> in_commit_phase (backend s 0)"
proof -
  have "map_option (\<lambda>s. cloner s = C_cloning \<and> in_commit_phase (backend s 0))
    (run 1 0 [Dispatch, Begin 0, Execute 0 True, Check_commit 0, Check_cloning 0, Clone_request, Clone_go, Count 0] commit_start)
    = Some True" by code_simp
  from run_start [OF this] show ?thesis by simp
qed

definition split_schedule :: "action list" where
  "split_schedule =
     [Dispatch, Dispatch, Begin 1, Execute 1 True, Clone_request, Clone_go, Clone_made, Clone_joined, Begin 0, Execute 0 True,
      Check_commit 1, Check_cloning 1, Count 1, Lock 1, Record 1, Check_commit 0, Count 0, Lock 0, Record 0, Arrive, Release,
      Decide 0, Answer 0, Finish 0, Trans_result False, Decide 1, Answer 1, Finish 1]"

text \<open>
  C20: a clone made while a replicated query runs can break the agreement of the backends even
  when each of them executed the query with success: a backend thread that began before the
  clone also follows the result on the new clones, one that began after it does not, so that
  one backend commits and the other rolls back.
\<close>

theorem clone_breaks_agreement:
  "\<exists>s. commit_reach 2 0 s \<and> vote s 0 \<and> vote s 1 \<and> outcome s 0 = Some True \<and> outcome s 1 = Some False"
proof -
  have "map_option (\<lambda>s. vote s 0 \<and> vote s 1 \<and> outcome s 0 = Some True \<and> outcome s 1 = Some False)
    (run 2 0 split_schedule commit_start) = Some True" by code_simp
  from run_start [OF this] show ?thesis by simp
qed

section \<open>A run to its end\<close>

definition sample_schedule :: "action list" where
  "sample_schedule =
     [Dispatch, Begin 0, Execute 0 True, Arrive, Check_commit 0, Check_cloning 0, Count 0, Lock 0, Record 0, Release,
      Decide 0, Answer 0, Finish 0, Unlock 0, Leave 0, Client_done]"

lemma sample_run:
  "\<exists>s. run 1 0 sample_schedule commit_start = Some s \<and> commit_reach 1 0 s \<and>
     client s = M_done \<and> vote s 0 \<and> outcome s 0 = Some True \<and> reply s = Some True \<and> backend s (proxying s) = B_out \<and>
     proxying s = 0"
proof -
  have "map_option (\<lambda>s. client s = M_done \<and> vote s 0 \<and> outcome s 0 = Some True \<and> reply s = Some True \<and>
      backend s (proxying s) = B_out \<and> proxying s = 0)
    (run 1 0 sample_schedule commit_start) = Some True" by code_simp
  then obtain s where "run 1 0 sample_schedule commit_start = Some s" "client s = M_done \<and> vote s 0 \<and>
    outcome s 0 = Some True \<and> reply s = Some True \<and> backend s (proxying s) = B_out \<and> proxying s = 0" by auto
  then show ?thesis using run_reach [OF _ commit_reach.start] by blast
qed


theorem client_continues_after_commit_witness:
  "\<exists>s. commit_reach 1 0 s \<and> client s = M_done \<and> (\<exists>d. outcome s 0 = Some d \<and> reply s = Some d)"
proof -
  obtain s where s: "commit_reach 1 0 s" "client s = M_done" "backend s (proxying s) = B_out" "proxying s = 0"
    using sample_run by blast
  with client_continues_after_commit [OF s(1) _ _ s(2)] show ?thesis by auto
qed

theorem committing_counts_commit_phase_witness:
  "\<exists>s. commit_reach 2 0 s \<and> card {i. i < 2 \<and> in_commit_phase (backend s i)} = 1"
proof -
  obtain s where s: "commit_reach 2 0 s" "committing s = 1" using stuck_reachable by (auto simp: stuck_def)
  with committing_counts_commit_phase [OF s(1)] show ?thesis by auto
qed


end
