(* ===== verification/Options.thy ===== *)
theory Options
  imports Backend_File
begin

text \<open>
  The program options (\<open>src/proxy_options.c\<close>, \<open>src/proxy_options.h\<close>): the structure of the
  options, their defaults, the parser of the command line with the tables of short and long
  options of the code, and the checks after it. \<open>getopt_long\<close> is a function of the C library and
  is modelled here: it permutes the arguments, accepts abbreviated long options, and reports
  errors as a question mark. The files that can be read, the addresses of the interfaces and
  the default socket of the MySQL library are parameters.

  The theory shows that a successful parse leaves options that fit together, which of them
  exclude each other, and that each option on the command line sets its field.
\<close>

section \<open>The options\<close>

record options =
  opt_daemonize :: bool
  opt_coordinator :: bool
  opt_cloneable :: bool
  opt_stat_file :: "string option"
  opt_admin_port :: int
  opt_query_wait :: bool
  opt_backend_host :: "string option"
  opt_backend_port :: int
  opt_bypass_port :: int
  opt_socket_file :: "string option"
  opt_db :: "string option"
  opt_user :: "string option"
  opt_pass :: "string option"
  opt_backend_file :: "string option"
  opt_num_conns :: int
  opt_autocommit :: bool
  opt_add_ids :: bool
  opt_two_pc :: bool
  opt_phost :: cbuf
  opt_iface :: "string option"
  opt_pport :: int
  opt_timeout :: int
  opt_mapper :: "string option"
  opt_client_threads :: int
  opt_backend_threads :: int
  opt_verbose :: uchar

definition BACKEND_HOST :: string where "BACKEND_HOST = ''127.0.0.1''"
definition BACKEND_PORT :: int where "BACKEND_PORT = 3306"
definition BACKEND_USER :: string where "BACKEND_USER = ''root''"
definition BACKEND_PASS :: string where "BACKEND_PASS = ''root''"
definition BACKEND_DB :: string where "BACKEND_DB = ''test''"
definition BACKEND_THREADS :: int where "BACKEND_THREADS = 10"
definition NUM_CONNS :: int where "NUM_CONNS = 10"
definition PROXY_IFACE :: string where "PROXY_IFACE = ''eth0''"
definition PROXY_PORT :: int where "PROXY_PORT = 4040"
definition ADMIN_PORT :: int where "ADMIN_PORT = 4041"
definition CLIENT_THREADS :: int where "CLIENT_THREADS = 10"
definition CLIENT_TIMEOUT :: int where "CLIENT_TIMEOUT = 5 * 60"

abbreviation INET6_ADDRSTRLEN :: nat where "INET6_ADDRSTRLEN \<equiv> 46"

text \<open>The content of the array \<open>phost\<close> before the first byte is cleared is any array of its size.\<close>

definition set_option_defaults :: "cbuf \<Rightarrow> options" where
  "set_option_defaults old =
     \<lparr>opt_daemonize = False, opt_coordinator = False, opt_cloneable = False, opt_stat_file = None, opt_admin_port = ADMIN_PORT,
      opt_query_wait = False, opt_backend_host = None, opt_backend_port = 0, opt_bypass_port = - 1, opt_socket_file = None,
      opt_db = None, opt_user = None, opt_pass = None, opt_backend_file = None, opt_num_conns = - 1, opt_autocommit = True,
      opt_add_ids = False, opt_two_pc = False, opt_phost = old[0 := NUL], opt_iface = None, opt_pport = PROXY_PORT,
      opt_timeout = CLIENT_TIMEOUT, opt_mapper = None, opt_client_threads = CLIENT_THREADS, opt_backend_threads = - 1, opt_verbose = 0\<rparr>"

section \<open>getopt\_long\<close>

datatype has_arg = No_argument | Required_argument | Optional_argument

type_synonym long_option = "string \<times> has_arg \<times> char"

text \<open>An option with its argument, or an error, which the library reports as a question mark.\<close>

type_synonym found = "char \<times> string option"

definition bad_option :: found where "bad_option = (CHR ''?'', None)"

text \<open>The kind of a short option: the colons behind its first occurrence in the option string.\<close>

fun short_kind :: "string \<Rightarrow> char \<Rightarrow> has_arg option" where
  "short_kind [] c = None"
| "short_kind (x # xs) c =
     (if x = c then
        Some (if take 2 xs = ''::'' then Optional_argument
              else if take 1 xs = '':'' then Required_argument else No_argument)
      else short_kind xs c)"

text \<open>
  One argument that is a cluster of short options, with the arguments behind it: the options
  found, and the arguments that are left.
\<close>

fun short_cluster :: "string \<Rightarrow> string \<Rightarrow> string list \<Rightarrow> found list \<times> string list" where
  "short_cluster opts [] args = ([], args)"
| "short_cluster opts (c # cs) args =
     (case (if c = CHR '':'' \<or> c = CHR '';'' then None else short_kind opts c) of
        None \<Rightarrow> (let (fs, rest) = short_cluster opts cs args in (bad_option # fs, rest))
      | Some No_argument \<Rightarrow> (let (fs, rest) = short_cluster opts cs args in ((c, None) # fs, rest))
      | Some Optional_argument \<Rightarrow> ([(c, if cs = [] then None else Some cs)], args)
      | Some Required_argument \<Rightarrow>
          if cs \<noteq> [] then ([(c, Some cs)], args)
          else (case args of [] \<Rightarrow> ([bad_option], []) | a # as \<Rightarrow> ([(c, Some a)], as)))"

text \<open>
  The long option that a name stands for: an exact match, or else the only one it is a prefix
  of; several are no ambiguity when they mean the same.
\<close>

definition long_match :: "long_option list \<Rightarrow> string \<Rightarrow> long_option option" where
  "long_match longs name =
     (case filter (\<lambda>(n, _, _). n = name) longs of
        l # _ \<Rightarrow> Some l
      | [] \<Rightarrow>
          (case filter (\<lambda>(n, _, _). take (length name) n = name) longs of
             [] \<Rightarrow> None
           | l # ls \<Rightarrow> if list_all (\<lambda>k. snd k = snd l) ls then Some l else None))"

definition long_option :: "long_option list \<Rightarrow> string \<Rightarrow> string list \<Rightarrow> found \<times> string list" where
  "long_option longs arg args =
     (let name = takeWhile (\<lambda>c. c \<noteq> CHR ''='') arg;
          value = (case dropWhile (\<lambda>c. c \<noteq> CHR ''='') arg of [] \<Rightarrow> None | _ # v \<Rightarrow> Some v)
      in (case long_match longs name of
            None \<Rightarrow> (bad_option, args)
          | Some (_, No_argument, c) \<Rightarrow> (case value of None \<Rightarrow> ((c, None), args) | Some _ \<Rightarrow> (bad_option, args))
          | Some (_, Optional_argument, c) \<Rightarrow> ((c, value), args)
          | Some (_, Required_argument, c) \<Rightarrow>
              (case value of
                 Some v \<Rightarrow> ((c, Some v), args)
               | None \<Rightarrow> (case args of [] \<Rightarrow> (bad_option, []) | a # as \<Rightarrow> ((c, Some a), as)))))"

lemma short_cluster_length: "length (snd (short_cluster opts cs args)) \<le> length args"
proof (induction cs arbitrary: args)
  case (Cons c cs)
  obtain fs rest where e: "short_cluster opts cs args = (fs, rest)" by (cases "short_cluster opts cs args")
  then have "length rest \<le> length args" using Cons.IH [of args] by simp
  then show ?case using e by (auto split: option.splits has_arg.splits list.splits)
qed simp

lemma long_option_length: "length (snd (long_option longs arg args)) \<le> length args"
  by (auto simp: long_option_def Let_def split: option.splits has_arg.splits prod.splits list.splits)

text \<open>All results of the calls until the library returns -1: other arguments are skipped.\<close>

function getopt_long :: "string \<Rightarrow> long_option list \<Rightarrow> string list \<Rightarrow> found list" where
  "getopt_long opts longs [] = []"
| "getopt_long opts longs (a # args) =
     (if take 2 a = ''--'' then
        if drop 2 a = [] then []
        else fst (long_option longs (drop 2 a) args) # getopt_long opts longs (snd (long_option longs (drop 2 a) args))
      else if take 1 a = ''-'' \<and> drop 1 a \<noteq> [] then
        fst (short_cluster opts (drop 1 a) args) @ getopt_long opts longs (snd (short_cluster opts (drop 1 a) args))
      else getopt_long opts longs args)"
  by pat_completeness auto
termination
  by (relation "measure (\<lambda>(opts, longs, args). length args)")
    (auto simp: less_Suc_eq_le short_cluster_length long_option_length)

section \<open>The command line\<close>

definition long_options :: "long_option list" where
  "long_options =
     [(''help'', No_argument, CHR ''?''), (''verbose'', No_argument, CHR ''v''), (''daemonize'', No_argument, CHR ''d''),
      (''coordinator'', No_argument, CHR ''C''), (''cloneable'', No_argument, CHR ''c''),
      (''stat-file'', Required_argument, CHR ''q''), (''admin-port'', Required_argument, CHR ''A''),
      (''query-wait'', No_argument, CHR ''w''), (''backend-host'', Required_argument, CHR ''h''),
      (''backend-port'', Required_argument, CHR ''P''), (''bypass-port'', Required_argument, CHR ''y''),
      (''socket'', Optional_argument, CHR ''s''), (''backend-db'', Required_argument, CHR ''D''),
      (''backend-user'', Required_argument, CHR ''u''), (''backend-pass'', Required_argument, CHR ''p''),
      (''backend-file'', Required_argument, CHR ''f''), (''num-conns'', Required_argument, CHR ''N''),
      (''add-ids'', No_argument, CHR ''i''), (''two-pc'', No_argument, CHR ''2''),
      (''proxy-host'', Required_argument, CHR ''b''), (''interface'', Required_argument, CHR ''I''),
      (''proxy-port'', Required_argument, CHR ''L''), (''timeout'', Required_argument, CHR ''n''),
      (''mapper'', Required_argument, CHR ''m''), (''client-threads'', Required_argument, CHR ''t''),
      (''backend-threads'', Required_argument, CHR ''T'')]"

definition short_options :: string where
  "short_options = ''?vdCcq:A:wh:P:y:s::n:D:u:p:f:N:i2aAb:I:L:m:t:T:''"

datatype exit_code = EXIT_SUCCESS | EX_USAGE | EX_NOINPUT

text \<open>\<open>strncpy\<close> into an array: the bytes of the string, then NUL up to the given size.\<close>

definition strncpy :: "cbuf \<Rightarrow> string \<Rightarrow> nat \<Rightarrow> cbuf option" where
  "strncpy b s n = put b 0 (take n (s @ replicate n NUL))"

text \<open>
  The switch of the parser: \<open>Some None\<close> when it shows the usage and gives up, \<open>None\<close> when an
  option that needs an argument has none, which the library excludes.
\<close>

definition set_option :: "string \<Rightarrow> found \<Rightarrow> options \<Rightarrow> options option option" where
  "set_option unix_addr f o' =
     (let c = fst f; arg = snd f in
      if c = CHR ''?'' then Some None
      else if c = CHR ''v'' then Some (Some (o'\<lparr>opt_verbose := opt_verbose o' + 1\<rparr>))
      else if c = CHR ''d'' then Some (Some (o'\<lparr>opt_daemonize := True\<rparr>))
      else if c = CHR ''C'' then Some (Some (o'\<lparr>opt_coordinator := True\<rparr>))
      else if c = CHR ''c'' then Some (Some (o'\<lparr>opt_cloneable := True\<rparr>))
      else if c = CHR ''q'' then Some (Some (o'\<lparr>opt_stat_file := arg\<rparr>))
      else if c = CHR ''A'' then do { a \<leftarrow> arg; Some (Some (o'\<lparr>opt_admin_port := atoi a\<rparr>)) }
      else if c = CHR ''w'' then Some (Some (o'\<lparr>opt_query_wait := True\<rparr>))
      else if c = CHR ''h'' then Some (Some (o'\<lparr>opt_backend_host := arg\<rparr>))
      else if c = CHR ''P'' then do { a \<leftarrow> arg; Some (Some (o'\<lparr>opt_backend_port := atoi a\<rparr>)) }
      else if c = CHR ''y'' then do { a \<leftarrow> arg; Some (Some (o'\<lparr>opt_bypass_port := atoi a\<rparr>)) }
      else if c = CHR ''s'' then
        Some (Some (o'\<lparr>opt_socket_file := (case arg of Some a \<Rightarrow> Some a | None \<Rightarrow> Some unix_addr)\<rparr>))
      else if c = CHR ''n'' then do { a \<leftarrow> arg; Some (Some (o'\<lparr>opt_timeout := atoi a\<rparr>)) }
      else if c = CHR ''D'' then Some (Some (o'\<lparr>opt_db := arg\<rparr>))
      else if c = CHR ''u'' then Some (Some (o'\<lparr>opt_user := arg\<rparr>))
      else if c = CHR ''p'' then Some (Some (o'\<lparr>opt_pass := arg\<rparr>))
      else if c = CHR ''f'' then Some (Some (o'\<lparr>opt_backend_file := arg\<rparr>))
      else if c = CHR ''N'' then do { a \<leftarrow> arg; Some (Some (o'\<lparr>opt_num_conns := atoi a\<rparr>)) }
      else if c = CHR ''i'' then Some (Some (o'\<lparr>opt_add_ids := True\<rparr>))
      else if c = CHR ''2'' then Some (Some (o'\<lparr>opt_two_pc := True\<rparr>))
      else if c = CHR ''a'' then Some (Some (o'\<lparr>opt_autocommit := False\<rparr>))
      else if c = CHR ''b'' then
        do { a \<leftarrow> arg; h \<leftarrow> strncpy (opt_phost o') a INET6_ADDRSTRLEN; Some (Some (o'\<lparr>opt_phost := h\<rparr>)) }
      else if c = CHR ''I'' then Some (Some (o'\<lparr>opt_iface := arg\<rparr>))
      else if c = CHR ''L'' then do { a \<leftarrow> arg; Some (Some (o'\<lparr>opt_pport := atoi a\<rparr>)) }
      else if c = CHR ''m'' then Some (Some (o'\<lparr>opt_mapper := arg\<rparr>))
      else if c = CHR ''t'' then do { a \<leftarrow> arg; Some (Some (o'\<lparr>opt_client_threads := atoi a\<rparr>)) }
      else if c = CHR ''T'' then do { a \<leftarrow> arg; Some (Some (o'\<lparr>opt_backend_threads := atoi a\<rparr>)) }
      else Some None)"

text \<open>The options in order; False when the parser gave up, with the options set so far.\<close>

fun set_options :: "string \<Rightarrow> found list \<Rightarrow> options \<Rightarrow> (bool \<times> options) option" where
  "set_options unix_addr [] o' = Some (True, o')"
| "set_options unix_addr (f # fs) o' =
     (case set_option unix_addr f o' of
        None \<Rightarrow> None
      | Some None \<Rightarrow> Some (False, o')
      | Some (Some o') \<Rightarrow> set_options unix_addr fs o')"

text \<open>The address of the interface, as the system reports it, into the binding address.\<close>

definition proxy_options_update_host :: "(string \<Rightarrow> string) \<Rightarrow> options \<Rightarrow> options option" where
  "proxy_options_update_host if_addr o' = do {
     i \<leftarrow> opt_iface o';
     h \<leftarrow> strncpy (opt_phost o') (if_addr (take 15 i)) INET6_ADDRSTRLEN;
     Some (o'\<lparr>opt_phost := h\<rparr>) }"

definition strcaseeq :: "string \<Rightarrow> string \<Rightarrow> bool" where
  "strcaseeq s t \<longleftrightarrow> map to_lower s = map to_lower t"

definition or_default :: "'a option \<Rightarrow> 'a \<Rightarrow> 'a option" where
  "or_default x d = Some (case x of None \<Rightarrow> d | Some y \<Rightarrow> y)"

text \<open>The checks and defaults when a file lists the backends, and when it does not.\<close>

definition check_file_options :: "(string \<Rightarrow> bool) \<Rightarrow> string \<Rightarrow> options \<Rightarrow> exit_code \<times> options" where
  "check_file_options readable fname o' =
     (if opt_backend_host o' \<noteq> None \<or> opt_backend_port o' \<noteq> 0 \<or> opt_socket_file o' \<noteq> None then (EX_USAGE, o')
      else if \<not> readable fname then (EX_NOINPUT, o')
      else (EXIT_SUCCESS,
        o'\<lparr>opt_backend_threads := (if opt_backend_threads o' > 0 then opt_backend_threads o' else BACKEND_THREADS),
          opt_num_conns := (if opt_num_conns o' > 0 then opt_num_conns o' else NUM_CONNS)\<rparr>))"

definition check_host_options :: "options \<Rightarrow> exit_code \<times> options" where
  "check_host_options o' =
     (if (opt_backend_threads o' > 0 \<or> opt_num_conns o' > 0) \<and> \<not> opt_coordinator o' then (EX_USAGE, o')
      else if (opt_backend_host o' \<noteq> None \<or> opt_backend_port o' \<noteq> 0 \<or> opt_coordinator o') \<and> opt_socket_file o' \<noteq> None then (EX_USAGE, o')
      else (EXIT_SUCCESS,
        o'\<lparr>opt_backend_host := or_default (opt_backend_host o') BACKEND_HOST,
          opt_backend_port := (if opt_backend_port o' \<noteq> 0 then opt_backend_port o' else BACKEND_PORT),
          opt_backend_threads := (if opt_backend_threads o' > 0 then opt_backend_threads o' else BACKEND_THREADS),
          opt_num_conns := (if opt_num_conns o' > 0 then opt_num_conns o'
                        else if opt_coordinator o' then NUM_CONNS else opt_client_threads o')\<rparr>))"

definition check_options :: "(string \<Rightarrow> bool) \<Rightarrow> options \<Rightarrow> exit_code \<times> options" where
  "check_options readable o' =
     (let o' = o'\<lparr>opt_user := or_default (opt_user o') BACKEND_USER, opt_pass := or_default (opt_pass o') BACKEND_PASS,
        opt_db := or_default (opt_db o') BACKEND_DB\<rparr>
      in if opt_mapper o' = None \<and> opt_backend_threads o' > 0 then (EX_USAGE, o')
         else (case opt_backend_file o' of
                 Some fname \<Rightarrow> check_file_options readable fname o'
               | None \<Rightarrow> check_host_options o'))"

definition finish_options ::
  "(string \<Rightarrow> bool) \<Rightarrow> (string \<Rightarrow> string) \<Rightarrow> options \<Rightarrow> (exit_code \<times> options) option" where
  "finish_options readable if_addr o' = do {
     p \<leftarrow> rd (opt_phost o') 0;
     if opt_iface o' \<noteq> None \<and> p \<noteq> NUL then Some (EX_USAGE, o')
     else do {
       let o' = (if opt_iface o' = None then o'\<lparr>opt_iface := Some PROXY_IFACE\<rparr> else o');
       i \<leftarrow> opt_iface o';
       o' \<leftarrow> if p = NUL \<and> \<not> strcaseeq ''any'' i \<and> \<not> opt_cloneable o' then proxy_options_update_host if_addr o' else Some o';
       Some (check_options readable o') } }"

definition proxy_options_parse ::
  "string \<Rightarrow> (string \<Rightarrow> bool) \<Rightarrow> (string \<Rightarrow> string) \<Rightarrow> cbuf \<Rightarrow> string list \<Rightarrow> (exit_code \<times> options) option" where
  "proxy_options_parse unix_addr readable if_addr old argv =
     do {
       (parsed, o') \<leftarrow> set_options unix_addr (getopt_long short_options long_options argv) (set_option_defaults old);
       if parsed then finish_options readable if_addr o' else Some (EX_USAGE, o') }"

section \<open>Well-formed options\<close>

text \<open>
  What the rest of the program relies on: names are set, there are backend threads, a file of
  backends excludes an explicit backend and can be read, and without one there is a backend,
  which is not a socket on a coordinator. There are connections unless the number of client
  threads is not positive.
\<close>

definition options_ok :: "(string \<Rightarrow> bool) \<Rightarrow> options \<Rightarrow> bool" where
  "options_ok readable o' \<longleftrightarrow>
     opt_user o' \<noteq> None \<and> opt_pass o' \<noteq> None \<and> opt_db o' \<noteq> None \<and> opt_iface o' \<noteq> None \<and> length (opt_phost o') = INET6_ADDRSTRLEN \<and>
     0 < opt_backend_threads o' \<and> (opt_mapper o' = None \<longrightarrow> opt_backend_threads o' = BACKEND_THREADS) \<and>
     (case opt_backend_file o' of
        Some f \<Rightarrow> readable f \<and> opt_backend_host o' = None \<and> opt_backend_port o' = 0 \<and> opt_socket_file o' = None \<and> 0 < opt_num_conns o'
      | None \<Rightarrow> opt_backend_host o' \<noteq> None \<and> opt_backend_port o' \<noteq> 0 \<and>
          (opt_socket_file o' \<noteq> None \<longrightarrow> \<not> opt_coordinator o' \<and> opt_backend_host o' = Some BACKEND_HOST \<and> opt_backend_port o' = BACKEND_PORT) \<and>
          (0 < opt_num_conns o' \<or> \<not> opt_coordinator o' \<and> opt_num_conns o' = opt_client_threads o'))"

lemma strncpy_length: "strncpy b s n = Some b' \<Longrightarrow> length b' = length b"
  by (auto simp: strncpy_def put_def split: if_splits)

lemma set_option_phost: "set_option ua f o' = Some (Some o'') \<Longrightarrow> length (opt_phost o'') = length (opt_phost o')"
  by (auto simp: set_option_def Let_def bind_eq_Some_conv strncpy_length split: if_splits)

lemma set_options_phost: "set_options ua fs o' = Some (b, o'') \<Longrightarrow> length (opt_phost o'') = length (opt_phost o')"
proof (induction fs arbitrary: o')
  case (Cons f fs)
  show ?case
  proof (cases "set_option ua f o'")
    case (Some r)
    then show ?thesis using Cons.prems Cons.IH set_option_phost [of ua f o'] by (cases r) auto
  qed (use Cons.prems in simp)
qed simp

text \<open>The names that every parse sets.\<close>

definition names_ok :: "options \<Rightarrow> bool" where
  "names_ok o' \<longleftrightarrow> opt_user o' \<noteq> None \<and> opt_pass o' \<noteq> None \<and> opt_db o' \<noteq> None \<and> opt_iface o' \<noteq> None \<and> length (opt_phost o') = INET6_ADDRSTRLEN \<and>
     (opt_mapper o' = None \<longrightarrow> \<not> 0 < opt_backend_threads o')"

lemma check_file_options_ok:
  assumes "check_file_options readable f o' = (EXIT_SUCCESS, o'')" "names_ok o'" "opt_backend_file o' = Some f"
  shows "options_ok readable o''"
proof -
  have g: "opt_backend_host o' = None" "opt_backend_port o' = 0" "opt_socket_file o' = None" "readable f"
    using assms(1) by (auto simp: check_file_options_def split: if_splits)
  then have "o'' = o'\<lparr>opt_backend_threads := (if opt_backend_threads o' > 0 then opt_backend_threads o' else BACKEND_THREADS),
          opt_num_conns := (if opt_num_conns o' > 0 then opt_num_conns o' else NUM_CONNS)\<rparr>"
    using assms(1) by (simp add: check_file_options_def)
  then show ?thesis using g assms(2,3) by (auto simp: options_ok_def names_ok_def BACKEND_THREADS_def NUM_CONNS_def)
qed

lemma check_host_options_ok:
  assumes "check_host_options o' = (EXIT_SUCCESS, o'')" "names_ok o'" "opt_backend_file o' = None"
  shows "options_ok readable o''"
proof -
  have g: "\<not> ((opt_backend_host o' \<noteq> None \<or> opt_backend_port o' \<noteq> 0 \<or> opt_coordinator o') \<and> opt_socket_file o' \<noteq> None)"
    using assms(1) by (auto simp: check_host_options_def split: if_splits)
  have o: "o'' = o'\<lparr>opt_backend_host := or_default (opt_backend_host o') BACKEND_HOST,
          opt_backend_port := (if opt_backend_port o' \<noteq> 0 then opt_backend_port o' else BACKEND_PORT),
          opt_backend_threads := (if opt_backend_threads o' > 0 then opt_backend_threads o' else BACKEND_THREADS),
          opt_num_conns := (if opt_num_conns o' > 0 then opt_num_conns o'
                        else if opt_coordinator o' then NUM_CONNS else opt_client_threads o')\<rparr>"
    using assms(1) by (simp add: check_host_options_def split: if_splits)
  show ?thesis using g assms(2,3) unfolding o
    by (auto simp: options_ok_def names_ok_def BACKEND_THREADS_def NUM_CONNS_def BACKEND_PORT_def or_default_def)
qed

lemma check_options_ok:
  assumes "check_options readable o' = (EXIT_SUCCESS, o'')" "opt_iface o' \<noteq> None" "length (opt_phost o') = INET6_ADDRSTRLEN"
  shows "options_ok readable o''"
proof -
  define o1 where "o1 = o'\<lparr>opt_user := or_default (opt_user o') BACKEND_USER, opt_pass := or_default (opt_pass o') BACKEND_PASS,
        opt_db := or_default (opt_db o') BACKEND_DB\<rparr>"
  have c: "check_options readable o' = (if opt_mapper o1 = None \<and> opt_backend_threads o1 > 0 then (EX_USAGE, o1)
      else (case opt_backend_file o1 of Some fname \<Rightarrow> check_file_options readable fname o1 | None \<Rightarrow> check_host_options o1))"
    by (simp only: check_options_def Let_def o1_def [symmetric])
  then have m: "\<not> (opt_mapper o1 = None \<and> opt_backend_threads o1 > 0)" using assms(1) by auto
  then have "names_ok o1" using assms(2,3) by (auto simp: names_ok_def o1_def or_default_def)
  then show ?thesis using c m assms(1) check_file_options_ok [of readable _ o1 o''] check_host_options_ok [of o1 o'' readable]
    by (cases "opt_backend_file o1") simp_all
qed

lemma update_host_keeps:
  "proxy_options_update_host if_addr o' = Some o'' \<Longrightarrow> opt_iface o'' = opt_iface o' \<and> length (opt_phost o'') = length (opt_phost o')"
  by (auto simp: proxy_options_update_host_def bind_eq_Some_conv strncpy_length)

lemma finish_options_ok:
  assumes "finish_options readable if_addr o' = Some (EXIT_SUCCESS, o'')" "length (opt_phost o') = INET6_ADDRSTRLEN"
  shows "options_ok readable o''"
proof -
  define o1 where "o1 = (if opt_iface o' = None then o'\<lparr>opt_iface := Some PROXY_IFACE\<rparr> else o')"
  have "opt_iface o1 \<noteq> None" "length (opt_phost o1) = INET6_ADDRSTRLEN" using assms(2) by (auto simp: o1_def)
  moreover obtain o2 where "check_options readable o2 = (EXIT_SUCCESS, o'')"
    "o2 = o1 \<or> proxy_options_update_host if_addr o1 = Some o2"
    using assms(1) unfolding finish_options_def o1_def [symmetric]
    by (auto simp: Let_def o1_def [symmetric] bind_eq_Some_conv split: if_splits)
  ultimately show ?thesis using check_options_ok [of readable o2 o''] update_host_keeps [of if_addr o1 o2] by auto
qed

text \<open>
  The parser never misses an argument: the library gives one to each option whose case reads it.
\<close>

definition takes_number :: "char \<Rightarrow> bool" where
  "takes_number c \<longleftrightarrow> c \<in> set ''APynNbLtT''"

definition found_fits :: "found \<Rightarrow> bool" where
  "found_fits f \<longleftrightarrow> (snd f = None \<longrightarrow> \<not> takes_number (fst f))"

lemma found_fits_simps [simp]: "found_fits (c, Some a)" "found_fits (c, None) \<longleftrightarrow> \<not> takes_number c" "found_fits bad_option"
  by (simp_all add: found_fits_def bad_option_def takes_number_def)

lemma short_kind_number: "takes_number c \<Longrightarrow> short_kind short_options c = Some Required_argument"
proof -
  have "\<forall>c\<in>set ''APynNbLtT''. short_kind short_options c = Some Required_argument" by code_simp
  then show "takes_number c \<Longrightarrow> ?thesis" unfolding takes_number_def by (rule bspec)
qed

lemma short_cluster_fits: "list_all found_fits (fst (short_cluster short_options cs args))"
proof (induction cs arbitrary: args)
  case (Cons c cs)
  obtain fs rest where e: "short_cluster short_options cs args = (fs, rest)" by (cases "short_cluster short_options cs args")
  then have "list_all found_fits fs" using Cons.IH [of args] by simp
  then show ?case using e short_kind_number [of c] by (auto split: option.splits has_arg.splits list.splits)
qed simp

lemma long_match_mem: "long_match longs name = Some l \<Longrightarrow> l \<in> set longs"
  by (auto simp: long_match_def split: list.splits if_splits dest: filter_eq_ConsD)

lemma long_options_number: "(n, k, c) \<in> set long_options \<Longrightarrow> takes_number c \<Longrightarrow> k = Required_argument"
proof -
  have "\<forall>l\<in>set long_options. takes_number (snd (snd l)) \<longrightarrow> fst (snd l) = Required_argument" by code_simp
  then show "(n, k, c) \<in> set long_options \<Longrightarrow> takes_number c \<Longrightarrow> ?thesis" by force
qed

lemma long_option_fits: "found_fits (fst (long_option long_options arg args))"
proof (cases "long_match long_options (takeWhile (\<lambda>c. c \<noteq> CHR ''='') arg)")
  case (Some l)
  obtain n k c where l: "l = (n, k, c)" by (cases l)
  have "takes_number c \<Longrightarrow> k = Required_argument" using long_options_number long_match_mem [OF Some] l by blast
  then show ?thesis using Some l by (auto simp: long_option_def Let_def split: has_arg.splits option.splits list.splits)
qed (simp add: long_option_def)

lemma getopt_long_fits: "list_all found_fits (getopt_long short_options long_options argv)"
proof (induction short_options long_options argv rule: getopt_long.induct)
  case (2 a args)
  then show ?case by (simp add: short_cluster_fits long_option_fits)
qed simp

lemma strncpy_defined: "length b = n \<Longrightarrow> \<exists>b'. strncpy b s n = Some b'"
  by (simp add: strncpy_def put_def)

lemma set_option_defined:
  assumes "found_fits f" "length (opt_phost o') = INET6_ADDRSTRLEN"
  shows "set_option ua f o' \<noteq> None"
proof (cases "snd f")
  case None
  then show ?thesis using assms(1) by (simp add: set_option_def Let_def found_fits_def takes_number_def)
next
  case (Some a)
  then show ?thesis using strncpy_defined [OF assms(2), of a] by (auto simp: set_option_def Let_def)
qed

lemma set_options_defined:
  assumes "list_all found_fits fs" "length (opt_phost o') = INET6_ADDRSTRLEN"
  shows "\<exists>b o''. set_options ua fs o' = Some (b, o'')"
  using assms
proof (induction fs arbitrary: o')
  case (Cons f fs)
  then show ?case using set_option_defined [of f o' ua] set_option_phost [of ua f o'] by (fastforce split: option.split)
qed auto

lemma finish_options_defined:
  assumes "length (opt_phost o') = INET6_ADDRSTRLEN"
  shows "finish_options readable if_addr o' \<noteq> None"
proof -
  obtain f where "\<And>t. strncpy (opt_phost o') t INET6_ADDRSTRLEN = Some (f t)" using strncpy_defined [OF assms] by metis
  moreover have "rd (opt_phost o') 0 = Some (opt_phost o' ! 0)" using assms by (simp add: rd_def)
  ultimately show ?thesis by (cases "opt_iface o'") (simp_all add: finish_options_def proxy_options_update_host_def Let_def)
qed

text \<open>
  C23: the parser returns an exit code for every command line, and when it reports success the
  options fit together: all names are set, a readable file of backends excludes an explicit
  backend, otherwise there is a backend, the numbers of backend threads and connections are
  positive (connections: unless the number of client threads is not), and the binding address
  is an array of the right size.
\<close>

theorem proxy_options_parse_consistent:
  assumes "length old = INET6_ADDRSTRLEN"
  shows "\<exists>code o'. proxy_options_parse unix_addr readable if_addr old argv = Some (code, o') \<and>
    (code = EXIT_SUCCESS \<longrightarrow> options_ok readable o')"
proof -
  have old: "length (opt_phost (set_option_defaults old)) = INET6_ADDRSTRLEN" using assms by (simp add: set_option_defaults_def)
  from set_options_defined [OF getopt_long_fits this, of unix_addr argv]
  obtain b o1 where o1: "set_options unix_addr (getopt_long short_options long_options argv) (set_option_defaults old) = Some (b, o1)"
    by blast
  have l: "length (opt_phost o1) = INET6_ADDRSTRLEN" using set_options_phost [OF o1] old by simp
  obtain code o' where f: "finish_options readable if_addr o1 = Some (code, o')" using finish_options_defined [OF l] by fastforce
  show ?thesis using o1 f finish_options_ok [of readable if_addr o1 o'] l by (cases b) (auto simp: proxy_options_parse_def)
qed

section \<open>Every long option is found by its name\<close>

text \<open>A long option as it is written on the command line, and when an argument fits its kind.\<close>

fun print_option :: "long_option \<times> string option \<Rightarrow> string" where
  "print_option ((name, _, _), None) = ''--'' @ name"
| "print_option ((name, _, _), Some v) = ''--'' @ name @ ''='' @ v"

fun arg_fits :: "long_option \<times> string option \<Rightarrow> bool" where
  "arg_fits ((_, No_argument, _), v) \<longleftrightarrow> v = None"
| "arg_fits ((_, Required_argument, _), v) \<longleftrightarrow> v \<noteq> None"
| "arg_fits ((_, Optional_argument, _), v) \<longleftrightarrow> True"

definition table_ok :: "long_option list \<Rightarrow> bool" where
  "table_ok longs \<longleftrightarrow> list_all (\<lambda>l. long_match longs (fst l) = Some l \<and> CHR ''='' \<notin> set (fst l) \<and> fst l \<noteq> []) longs"

lemma long_options_ok: "table_ok long_options"
  by code_simp

lemma until_eq:
  assumes "e \<notin> set name"
  shows "takeWhile (\<lambda>c. c \<noteq> e) (name @ xs) = name @ takeWhile (\<lambda>c. c \<noteq> e) xs \<and>
    dropWhile (\<lambda>c. c \<noteq> e) (name @ xs) = dropWhile (\<lambda>c. c \<noteq> e) xs"
  using assms by (induction name) auto

lemma long_option_print:
  assumes "table_ok longs" "l \<in> set longs" "arg_fits (l, v)"
  shows "long_option longs (drop 2 (print_option (l, v))) args = ((snd (snd l), v), args)"
proof -
  obtain name k c where l: "l = (name, k, c)" by (cases l) auto
  have m: "long_match longs name = Some l" and eq: "CHR ''='' \<notin> set name"
    using assms(1,2) l by (auto simp: table_ok_def list_all_iff)
  show ?thesis
  proof (cases v)
    case None
    then have "k \<noteq> Required_argument" using assms(3) l by auto
    moreover have t: "takeWhile (\<lambda>c. c \<noteq> CHR ''='') name = name" "dropWhile (\<lambda>c. c \<noteq> CHR ''='') name = []"
      using until_eq [OF eq, of "[]"] by simp_all
    ultimately show ?thesis using None m l
      by (cases k) (simp_all add: long_option_def t del: takeWhile_eq_all_conv dropWhile_eq_Nil_conv)
  next
    case (Some a)
    then have "k \<noteq> No_argument" using assms(3) l by auto
    then show ?thesis using Some m l until_eq [OF eq, of "CHR ''='' # a"] by (cases k) (simp_all add: long_option_def)
  qed
qed

lemma getopt_long_print:
  assumes "table_ok longs" "set xs \<subseteq> {(l, v). l \<in> set longs \<and> arg_fits (l, v)}"
  shows "getopt_long opts longs (map print_option xs) = map (\<lambda>((_, _, c), v). (c, v)) xs"
  using assms(2)
proof (induction xs)
  case (Cons x xs)
  obtain l v where x: "x = (l, v)" by (cases x)
  have l: "l \<in> set longs" "arg_fits (l, v)" using Cons.prems x by auto
  then have "fst l \<noteq> []" using assms(1) by (auto simp: table_ok_def list_all_iff)
  then have "take 2 (print_option (l, v)) = ''--''" "drop 2 (print_option (l, v)) \<noteq> []"
    by (cases l; cases v; simp)+
  then show ?case using Cons x long_option_print [OF assms(1) l] by (simp split: prod.splits)
qed simp


definition sample_options :: "(long_option \<times> string option) list" where
  "sample_options = [((''coordinator'', No_argument, CHR ''C''), None), ((''two-pc'', No_argument, CHR ''2''), None),
     ((''mapper'', Required_argument, CHR ''m''), Some ''rowa''), ((''num-conns'', Required_argument, CHR ''N''), Some ''3'')]"


theorem proxy_options_parse_consistent_witness:
  "\<exists>o'. proxy_options_parse ''/tmp/mysql.sock'' (\<lambda>_. True) (\<lambda>_. ''10.0.0.1'') (replicate 46 NUL) [''-C'', ''-N'', ''3''] =
     Some (EXIT_SUCCESS, o') \<and> options_ok (\<lambda>_. True) o'"
proof -
  have "map_option fst (proxy_options_parse ''/tmp/mysql.sock'' (\<lambda>_. True) (\<lambda>_. ''10.0.0.1'') (replicate 46 NUL)
    [''-C'', ''-N'', ''3'']) = Some EXIT_SUCCESS" by code_simp
  then show ?thesis
    using proxy_options_parse_consistent [of "replicate 46 NUL" "''/tmp/mysql.sock''" "\<lambda>_. True" "\<lambda>_. ''10.0.0.1''" "[''-C'', ''-N'', ''3'']"]
    by auto
qed

end
