(* ===== verification/Clone.thy ===== *)
theory Clone
  imports Hashtable Options
begin

text \<open>
  Cloning (\<open>src/proxy_clone.c\<close>, \<open>src/proxy_clone.h\<close>): the state of a cloning operation, the
  tables of clone addresses and of clone numbers per generation, waiting for new clones on the
  coordinator, and the cloning operation on the master. The SnowFlock library, the clock and
  the other threads are parameters: what the library returns, how many clones report during
  each wait and whether it times out, and the addresses the interface gets.

  The theory shows how the waiting ends and what it leaves behind, that the number of clones of
  a generation is the one stored for it, and which number that is.
\<close>

section \<open>The state\<close>

record clone_state =
  server_id :: int
  cloning :: int
  new_clones :: int
  clone_generation :: int
  req_clones :: int
  clone_table :: "proxy_host_t hashtable option"
  clone_num_table :: "int hashtable option"

definition clone_globals :: clone_state where
  "clone_globals = \<lparr>server_id = 0, cloning = 0, new_clones = 0, clone_generation = 0, req_clones = 0,
     clone_table = None, clone_num_table = None\<rparr>"

text \<open>The outcomes of the allocations are arguments: of the table and of its array, twice.\<close>

definition proxy_clone_init :: "bool \<times> bool \<Rightarrow> bool \<times> bool \<Rightarrow> options \<Rightarrow> clone_state \<Rightarrow> clone_state" where
  "proxy_clone_init al1 al2 opts s =
     s\<lparr>clone_table := (if opt_coordinator opts then create_hashtable (fst al1) (snd al1) 16 else clone_table s),
       clone_num_table := (if opt_cloneable opts \<or> opt_coordinator opts then create_hashtable (fst al2) (snd al2) 16
                           else clone_num_table s)\<rparr>"

text \<open>The values that are freed with the tables.\<close>

definition proxy_clone_end :: "clone_state \<Rightarrow> proxy_host_t list \<times> int list" where
  "proxy_clone_end s =
     ((case clone_table s of None \<Rightarrow> [] | Some h \<Rightarrow> fst (hashtable_destroy h True)),
      (case clone_num_table s of None \<Rightarrow> [] | Some h \<Rightarrow> fst (hashtable_destroy h True)))"

definition proxy_clone_get_num :: "clone_state \<Rightarrow> int \<Rightarrow> int option" where
  "proxy_clone_get_num s generation = do {
     h \<leftarrow> clone_num_table s;
     Some (case hashtable_search h (of_int generation) of None \<Rightarrow> - 1 | Some num \<Rightarrow> num) }"

text \<open>The allocation of the stored number is not checked by the code.\<close>

definition clone_set_num :: "bool \<Rightarrow> expand_alloc \<times> bool \<Rightarrow> clone_state \<Rightarrow> int \<Rightarrow> int \<Rightarrow> clone_state option" where
  "clone_set_num nump_ok al s generation num =
     (if nump_ok then do {
        h \<leftarrow> clone_num_table s;
        (_, h) \<leftarrow> hashtable_insert al h (of_int generation) num;
        Some (s\<lparr>clone_num_table := Some h\<rparr>) }
      else None)"

definition proxy_clone_insert :: "expand_alloc \<times> bool \<Rightarrow> clone_state \<Rightarrow> ulong \<Rightarrow> proxy_host_t \<Rightarrow> (int \<times> clone_state) option" where
  "proxy_clone_insert al s clone_id addr = do {
     h \<leftarrow> clone_table s;
     (r, h) \<leftarrow> hashtable_insert al h clone_id addr;
     Some (r, s\<lparr>clone_table := Some h\<rparr>) }"

definition proxy_clone_search :: "clone_state \<Rightarrow> ulong \<Rightarrow> proxy_host_t option option" where
  "proxy_clone_search s clone_id = do { h \<leftarrow> clone_table s; Some (hashtable_search h clone_id) }"

definition proxy_clone_remove :: "clone_state \<Rightarrow> ulong \<Rightarrow> (proxy_host_t option \<times> clone_state) option" where
  "proxy_clone_remove s clone_id = do {
     h \<leftarrow> clone_table s;
     let (v, h) = hashtable_remove h clone_id;
     Some (v, s\<lparr>clone_table := Some h\<rparr>) }"

section \<open>Operations\<close>

definition proxy_clone_notify :: "clone_state \<Rightarrow> clone_state" where
  "proxy_clone_notify s =
     (if req_clones s = 0 then s else s\<lparr>new_clones := int_of_long (new_clones s + 1)\<rparr>)"

definition proxy_clone_prepare :: "int \<Rightarrow> clone_state \<Rightarrow> bool \<times> clone_state" where
  "proxy_clone_prepare nclones s =
     (if req_clones s \<noteq> 0 then (False, s) else (True, s\<lparr>req_clones := nclones, new_clones := 0\<rparr>))"

definition proxy_clone_complete :: "clone_state \<Rightarrow> clone_state" where
  "proxy_clone_complete s = s\<lparr>req_clones := 0, new_clones := 0, cloning := 0\<rparr>"

text \<open>
  The loop of \<open>proxy_clone_wait\<close>: in each wait a number of clones report, and it ends by a
  signal or by the timeout. The result says whether it timed out; \<open>None\<close> when the thread still
  waits at the end of the list.
\<close>

fun clone_wait_loop :: "(nat \<times> bool) list \<Rightarrow> bool \<Rightarrow> clone_state \<Rightarrow> (bool \<times> clone_state) option" where
  "clone_wait_loop wakes timed_out s =
     (if new_clones s < req_clones s \<and> \<not> timed_out then
        (case wakes of
           [] \<Rightarrow> None
         | (reports, expired) # wakes \<Rightarrow> clone_wait_loop wakes expired ((proxy_clone_notify ^^ reports) s))
      else Some (timed_out, s))"

declare clone_wait_loop.simps [simp del]

definition proxy_clone_wait :: "bool \<Rightarrow> expand_alloc \<times> bool \<Rightarrow> (nat \<times> bool) list \<Rightarrow> clone_state \<Rightarrow> (bool \<times> clone_state) option" where
  "proxy_clone_wait nump_ok al wakes s = do {
     s \<leftarrow> clone_set_num nump_ok al s (clone_generation s) (new_clones s);
     (timed_out, s) \<leftarrow> clone_wait_loop wakes False s;
     let s = (if timed_out \<and> new_clones s = 0 then s\<lparr>clone_generation := int_of_long (clone_generation s - 1)\<rparr> else s);
     Some (timed_out, s\<lparr>req_clones := 0\<rparr>) }"

text \<open>
  Cloning on the master: what the library answers to the request for a ticket (the number of
  clones allowed) and to the cloning itself (the identifier of the virtual machine and the
  number of clones); a missing answer to the latter is dereferenced by the code. A clone waits
  for its new address: \<open>addrs\<close> are the addresses that the interface has at each look. The waits
  for the counters \<open>committing\<close> and \<open>querying\<close> change no state of this function; how the first
  one interleaves with the threads of a query is in theory \<open>Two_Phase\<close>.
\<close>

fun wait_new_host :: "cbuf \<Rightarrow> string list \<Rightarrow> options \<Rightarrow> options option" where
  "wait_new_host oldip [] opts = None"
| "wait_new_host oldip (a # addrs) opts = do {
     opts \<leftarrow> proxy_options_update_host (\<lambda>_. a) opts;
     if takeWhile (\<lambda>c. c \<noteq> NUL) (opt_phost opts) = takeWhile (\<lambda>c. c \<noteq> NUL) oldip then wait_new_host oldip addrs opts else Some opts }"

definition proxy_do_clone ::
  "bool \<Rightarrow> expand_alloc \<times> bool \<Rightarrow> int option \<Rightarrow> (int \<times> int) option \<Rightarrow> string list \<Rightarrow> int \<Rightarrow> options \<Rightarrow> clone_state \<Rightarrow>
   (int \<times> string option \<times> options \<times> clone_state) option" where
  "proxy_do_clone nump_ok al ticket clone addrs nclones opts s =
     (let (ready, s) = proxy_clone_prepare nclones s in
      if \<not> ready then Some (- 1, None, opts, s)
      else
        let s = s\<lparr>cloning := 1\<rparr> in
        (case ticket of
           None \<Rightarrow> Some (- 1, Some ''Unable to get clone ticket'', opts, s)
         | Some allowed \<Rightarrow>
             if allowed \<noteq> nclones then
               Some (- 1, Some (''Only '' @ print_int allowed @ '' clones allowed, ticket disposed''), opts, s)
             else do {
               (vmid, number) \<leftarrow> clone;
               if number = 0 then Some (- 1, Some ''Cloning produced zero clones'', opts, s)
               else do {
                 let s = s\<lparr>new_clones := number\<rparr>;
                 if vmid = 0 then do {
                   let s = s\<lparr>clone_generation := int_of_long (clone_generation s + 1)\<rparr>;
                   s \<leftarrow> clone_set_num nump_ok al s (clone_generation s) number;
                   Some (vmid, None, opts, s) }
                 else do {
                   let s = s\<lparr>server_id := vmid\<rparr>;
                   opts \<leftarrow> wait_new_host (opt_phost opts) addrs opts;
                   Some (vmid, None, opts, s) } } }))"

section \<open>Waiting for clones\<close>

lemma notify_keeps:
  "clone_num_table (proxy_clone_notify s) = clone_num_table s" "clone_generation (proxy_clone_notify s) = clone_generation s"
  "req_clones (proxy_clone_notify s) = req_clones s"
  by (simp_all add: proxy_clone_notify_def)

lemma notifies_keep:
  "clone_num_table ((proxy_clone_notify ^^ n) s) = clone_num_table s"
  "clone_generation ((proxy_clone_notify ^^ n) s) = clone_generation s"
  "req_clones ((proxy_clone_notify ^^ n) s) = req_clones s"
  by (induction n) (simp_all add: notify_keeps)

lemma clone_wait_loop_keeps:
  assumes "clone_wait_loop wakes b s = Some (timed_out, s')"
  shows "clone_num_table s' = clone_num_table s \<and> clone_generation s' = clone_generation s \<and> req_clones s' = req_clones s \<and>
    (timed_out \<or> req_clones s \<le> new_clones s')"
  using assms
proof (induction wakes b s rule: clone_wait_loop.induct)
  case (1 wakes b s)
  show ?case
  proof (cases "new_clones s < req_clones s \<and> \<not> b")
    case True
    then obtain n e ws where w: "wakes = (n, e) # ws" using "1.prems"
      by (cases wakes) (auto simp: clone_wait_loop.simps)
    with True "1.prems" have "clone_wait_loop ws e ((proxy_clone_notify ^^ n) s) = Some (timed_out, s')"
      by (simp add: clone_wait_loop.simps [of "(n, e) # ws"])
    from "1.IH" [OF True w refl this] show ?thesis by (simp add: notifies_keep)
  next
    case False
    then show ?thesis using "1.prems" by (auto simp: clone_wait_loop.simps [of wakes])
  qed
qed

abbreviation table_ready :: "int hashtable \<Rightarrow> bool" where
  "table_ready h \<equiv> ht_inv h \<and> ht_distinct h"

lemma clone_set_num_get:
  assumes "clone_num_table s = Some h" "table_ready h" "hashtable_search h (of_int g) = None"
    "clone_set_num nump_ok (al, True) s g num = Some s'"
  shows "proxy_clone_get_num s' g = Some num \<and> (\<exists>h'. clone_num_table s' = Some h' \<and> table_ready h' \<and>
      hashtable_search h' = (hashtable_search h)(of_int g \<mapsto> num)) \<and> s' = s\<lparr>clone_num_table := clone_num_table s'\<rparr>"
proof -
  obtain r h' where i: "hashtable_insert (al, True) h (of_int g) num = Some (r, h')" "s' = s\<lparr>clone_num_table := Some h'\<rparr>"
    using assms(1,4) by (auto simp: clone_set_num_def bind_eq_Some_conv split: if_splits)
  have "r \<noteq> 0" using hashtable_insert_correct(2) [OF _ i(1)] assms(2) by simp
  from ht.insert_ok [OF assms(2,3) i(1) this] i(2) show ?thesis by (simp add: proxy_clone_get_num_def)
qed

lemma proxy_clone_wait_result:
  assumes "clone_num_table s = Some h" "table_ready h" "hashtable_search h (of_int (clone_generation s)) = None"
    "proxy_clone_wait nump_ok (al, True) wakes s = Some (err, s')"
  shows "proxy_clone_get_num s' (clone_generation s) = Some (new_clones s) \<and> req_clones s' = 0 \<and>
    (err \<or> req_clones s \<le> new_clones s') \<and>
    clone_generation s' = (if err \<and> new_clones s' = 0 then int_of_long (clone_generation s - 1) else clone_generation s)"
proof -
  obtain s1 s2 where 1: "clone_set_num nump_ok (al, True) s (clone_generation s) (new_clones s) = Some s1"
    and 2: "clone_wait_loop wakes False s1 = Some (err, s2)"
    and 3: "s' = (if err \<and> new_clones s2 = 0 then s2\<lparr>clone_generation := int_of_long (clone_generation s2 - 1)\<rparr> else s2)\<lparr>req_clones := 0\<rparr>"
    using assms(4) by (auto simp: proxy_clone_wait_def bind_eq_Some_conv Let_def)
  note c = clone_set_num_get [OF assms(1-3) 1] and l = clone_wait_loop_keeps [OF 2]
  have "clone_generation s1 = clone_generation s" "req_clones s1 = req_clones s"
    using c by (metis clone_state.select_convs(4,5) clone_state.surjective clone_state.update_convs(7))+
  moreover have "proxy_clone_get_num s' g = proxy_clone_get_num s1 g" for g
    using l 3 by (auto simp: proxy_clone_get_num_def)
  ultimately show ?thesis using c l 3 by auto
qed

end
