(* ===== verification/Trans.thy ===== *)
theory Trans
  imports Clone
begin

text \<open>
  Transactions that were running when clones were made (\<open>src/proxy_trans.c\<close>,
  \<open>src/proxy_trans.h\<close>, and the handlers of \<open>PROXY SUCCESS\<close>, \<open>PROXY FAILURE\<close>,
  \<open>PROXY COMMIT\<close> and \<open>PROXY ROLLBACK\<close> in \<open>src/proxy_cmd.c\<close> behind the parsing of the
  command). The table holds pointers to transactions, which are shared between the handlers and
  the threads that wait for a decision; so transactions live in a store under their addresses.
  The results of the allocations are arguments.

  The theory shows that the table finds what was inserted, that the coordinator decides a
  transaction when as many clones have reported as the generation has, with the conjunction of
  their results and with the identifiers of exactly these clones, and what happens when a clone
  reports while the coordinator still counts none.
\<close>

section \<open>The table\<close>

record proxy_trans_t =
  num :: int
  total :: int
  done_num :: int
  success :: bool
  clone_ids :: "int list option"

record trans_state =
  trans_table :: "nat hashtable option"
  trans_store :: "nat \<Rightarrow> proxy_trans_t option"

definition proxy_trans_init :: "bool \<times> bool \<Rightarrow> options \<Rightarrow> trans_state \<Rightarrow> trans_state" where
  "proxy_trans_init al opts s =
     (if opt_two_pc opts \<and> ((opt_coordinator opts \<and> opt_add_ids opts) \<or> opt_cloneable opts)
      then s\<lparr>trans_table := create_hashtable (fst al) (snd al) 16\<rparr> else s)"

text \<open>The addresses that are freed with the table.\<close>

definition proxy_trans_end :: "trans_state \<Rightarrow> nat list" where
  "proxy_trans_end s = (case trans_table s of None \<Rightarrow> [] | Some h \<Rightarrow> fst (hashtable_destroy h True))"

definition proxy_trans_insert :: "expand_alloc \<times> bool \<Rightarrow> trans_state \<Rightarrow> ulong \<Rightarrow> nat \<Rightarrow> (int \<times> trans_state) option" where
  "proxy_trans_insert al s transaction_id a = do {
     h \<leftarrow> trans_table s;
     (r, h) \<leftarrow> hashtable_insert al h transaction_id a;
     Some (r, s\<lparr>trans_table := Some h\<rparr>) }"

definition proxy_trans_search :: "trans_state \<Rightarrow> ulong \<Rightarrow> nat option option" where
  "proxy_trans_search s transaction_id = do { h \<leftarrow> trans_table s; Some (hashtable_search h transaction_id) }"

definition proxy_trans_remove :: "trans_state \<Rightarrow> ulong \<Rightarrow> (nat option \<times> trans_state) option" where
  "proxy_trans_remove s transaction_id = do {
     h \<leftarrow> trans_table s;
     let (v, h) = hashtable_remove h transaction_id;
     Some (v, s\<lparr>trans_table := Some h\<rparr>) }"

abbreviation set_trans :: "trans_state \<Rightarrow> nat \<Rightarrow> proxy_trans_t option \<Rightarrow> trans_state" where
  "set_trans s a t \<equiv> s\<lparr>trans_store := (trans_store s)(a := t)\<rparr>"

section \<open>A result reported by a clone\<close>

text \<open>
  A new entry for a transaction: \<open>mem\<close> is the address of the new object, if the allocation
  succeeds, which the code does not check. The array for the clone identifiers has as many
  elements as clones are counted; an allocation for a negative number fails.
\<close>

definition new_trans :: "nat option \<Rightarrow> expand_alloc \<times> bool \<Rightarrow> ulong \<Rightarrow> clone_state \<Rightarrow> trans_state \<Rightarrow> (nat \<times> trans_state) option" where
  "new_trans mem al transaction_id cs s = do {
     a \<leftarrow> mem;
     n \<leftarrow> proxy_clone_get_num cs (clone_generation cs);
     let t = \<lparr>num = 0, total = n, done_num = 0, success = True,
       clone_ids = (if n < 0 then None else Some (replicate (nat n) (- 1)))\<rparr>;
     (_, s) \<leftarrow> proxy_trans_insert al (set_trans s a (Some t)) transaction_id a;
     Some (a, s) }"

definition record_result_of_clone ::
  "nat option \<Rightarrow> expand_alloc \<times> bool \<Rightarrow> int \<Rightarrow> ulong \<Rightarrow> bool \<Rightarrow> clone_state \<Rightarrow> trans_state \<Rightarrow> (nat \<times> trans_state) option" where
  "record_result_of_clone mem al clone_id transaction_id ok cs s = do {
     found \<leftarrow> proxy_trans_search s transaction_id;
     (a, s) \<leftarrow> (case found of Some a \<Rightarrow> Some (a, s) | None \<Rightarrow> new_trans mem al transaction_id cs s);
     t \<leftarrow> trans_store s a;
     ids \<leftarrow> clone_ids t;
     ids \<leftarrow> write_at ids (num t) clone_id;
     let t = t\<lparr>clone_ids := Some ids, num := num t + 1, success := success t \<and> ok\<rparr>;
     Some (a, set_trans s a (Some t)) }"

text \<open>
  The last result: the clones are told the decision (the argument \<open>complete\<close>, which gets the
  identifiers, their number, the transaction and the decision), the local threads use the
  transaction until \<open>done_num\<close> has reached the number of the other backends (the state in which
  the wait ends is an argument), and the transaction is removed and freed.
\<close>

definition finish_transaction ::
  "(int list \<Rightarrow> int \<Rightarrow> ulong \<Rightarrow> bool \<Rightarrow> 'w \<Rightarrow> 'w option) \<Rightarrow> int \<Rightarrow> (trans_state \<Rightarrow> trans_state) \<Rightarrow> nat \<Rightarrow> ulong \<Rightarrow>
   trans_state \<Rightarrow> 'w \<Rightarrow> (trans_state \<times> 'w) option" where
  "finish_transaction complete backends local a transaction_id s w = do {
     t \<leftarrow> trans_store s a;
     ids \<leftarrow> clone_ids t;
     w \<leftarrow> complete ids (total t) transaction_id (success t) w;
     let s = local (set_trans s a (Some (t\<lparr>clone_ids := None\<rparr>)));
     t \<leftarrow> trans_store s a;
     if done_num t < backends - total t then None
     else do {
       (_, s) \<leftarrow> proxy_trans_remove s transaction_id;
       Some (set_trans s a None, w) } }"

text \<open>The handler behind the parsing of the command.\<close>

definition trans_result ::
  "(int list \<Rightarrow> int \<Rightarrow> ulong \<Rightarrow> bool \<Rightarrow> 'w \<Rightarrow> 'w option) \<Rightarrow> int \<Rightarrow> (trans_state \<Rightarrow> trans_state) \<Rightarrow>
   nat option \<Rightarrow> expand_alloc \<times> bool \<Rightarrow> int \<Rightarrow> ulong \<Rightarrow> bool \<Rightarrow> clone_state \<Rightarrow> trans_state \<Rightarrow> 'w \<Rightarrow> (trans_state \<times> 'w) option" where
  "trans_result complete backends local mem al clone_id transaction_id ok cs s w = do {
     (a, s) \<leftarrow> record_result_of_clone mem al clone_id transaction_id ok cs s;
     t \<leftarrow> trans_store s a;
     if num t = total t then finish_transaction complete backends local a transaction_id s w
     else Some (s, w) }"

section \<open>A decision received by a clone\<close>

text \<open>
  \<open>PROXY COMMIT\<close> and \<open>PROXY ROLLBACK\<close>: the handler waits for the transaction to appear (the
  argument \<open>env\<close> is the state in which it is found) and tells the waiting thread.
\<close>

definition commit_decided :: "(trans_state \<Rightarrow> trans_state) \<Rightarrow> ulong \<Rightarrow> bool \<Rightarrow> trans_state \<Rightarrow> trans_state option" where
  "commit_decided env transaction_id ok s = do {
     let s = env s;
     found \<leftarrow> proxy_trans_search s transaction_id;
     a \<leftarrow> found;
     t \<leftarrow> trans_store s a;
     Some (set_trans s a (Some (t\<lparr>num := 1, success := ok\<rparr>))) }"

section \<open>Deciding on the coordinator\<close>

lemma hashtable_insert_defined: "\<exists>r h'. hashtable_insert (Malloc_ok, b) h k v = Some (r, h')"
  by (auto simp: hashtable_insert_def hashtable_expand_def Let_def)

text \<open>A transaction is found in the table at an address where the store has it.\<close>

definition holds_trans :: "trans_state \<Rightarrow> ulong \<Rightarrow> nat \<Rightarrow> proxy_trans_t \<Rightarrow> bool" where
  "holds_trans s tid a t \<longleftrightarrow> (\<exists>h. trans_table s = Some h \<and> ht_inv h \<and> ht_distinct h \<and> hashtable_search h tid = Some a) \<and>
     trans_store s a = Some t"

lemma holds_trans_search: "holds_trans s tid a t \<Longrightarrow> proxy_trans_search s tid = Some (Some a) \<and> trans_store s a = Some t"
  by (auto simp: holds_trans_def proxy_trans_search_def)

lemma holds_trans_set: "holds_trans s tid a t \<Longrightarrow> holds_trans (set_trans s a (Some t')) tid a t'"
  by (auto simp: holds_trans_def)

lemma new_trans_holds:
  assumes "trans_table s = Some h" "ht_inv h \<and> ht_distinct h" "hashtable_search h tid = None"
    "proxy_clone_get_num cs (clone_generation cs) = Some n" "0 \<le> n"
  shows "\<exists>s'. new_trans (Some a) (Malloc_ok, True) tid cs s = Some (a, s') \<and>
    holds_trans s' tid a \<lparr>num = 0, total = n, done_num = 0, success = True, clone_ids = Some (replicate (nat n) (- 1))\<rparr>"
proof -
  obtain r h' where i: "hashtable_insert (Malloc_ok, True) h tid a = Some (r, h')" using hashtable_insert_defined [of True h tid a] by blast
  have "r \<noteq> 0" using hashtable_insert_correct(2) [OF _ i] assms(2) by simp
  from ht.insert_ok [OF assms(2,3) i this] show ?thesis
    using assms(1,4,5) i by (auto simp: new_trans_def proxy_trans_insert_def holds_trans_def)
qed

text \<open>After \<open>xs\<close> reports of an entry for \<open>n\<close> clones.\<close>

definition reported :: "int \<Rightarrow> (int \<times> bool) list \<Rightarrow> proxy_trans_t \<Rightarrow> bool" where
  "reported n xs t \<longleftrightarrow> num t = int (length xs) \<and> total t = n \<and> done_num t = 0 \<and> success t = list_all snd xs \<and>
     clone_ids t = Some (map fst xs @ replicate (nat n - length xs) (- 1))"

lemma write_at_append: "write_at (xs @ x # ys) (int (length xs)) c = Some (xs @ c # ys)"
  by (simp add: write_at_def)

lemma record_result_reported:
  assumes "holds_trans s tid a t" "reported n xs t" "int (length xs) < n"
  shows "\<exists>s' t'. record_result_of_clone mem al c tid ok cs s = Some (a, s') \<and> holds_trans s' tid a t' \<and> reported n (xs @ [(c, ok)]) t'"
proof -
  let ?ids = "map fst xs @ replicate (nat n - length xs) (- 1)"
  have l: "nat n - length xs = Suc (nat n - Suc (length xs))" using assms(3) by simp
  then have w: "write_at ?ids (num t) c = Some (map fst (xs @ [(c, ok)]) @ replicate (nat n - Suc (length xs)) (- 1))"
    using assms(2) write_at_append [of "map fst xs" "- 1" "replicate (nat n - Suc (length xs)) (- 1)" c]
    by (simp add: reported_def)
  let ?t = "t\<lparr>clone_ids := Some (map fst (xs @ [(c, ok)]) @ replicate (nat n - Suc (length xs)) (- 1)), num := num t + 1,
    success := success t \<and> ok\<rparr>"
  have "record_result_of_clone mem al c tid ok cs s = Some (a, set_trans s a (Some ?t))"
    using holds_trans_search [OF assms(1)] assms(2) w by (simp add: record_result_of_clone_def reported_def)
  moreover have "reported n (xs @ [(c, ok)]) ?t" using assms(2) by (simp add: reported_def)
  ultimately show ?thesis using holds_trans_set [OF assms(1)] by blast
qed

text \<open>All results in order, with the local threads marking their use of the transaction.\<close>

fun trans_results ::
  "(int list \<Rightarrow> int \<Rightarrow> ulong \<Rightarrow> bool \<Rightarrow> 'w \<Rightarrow> 'w option) \<Rightarrow> int \<Rightarrow> (trans_state \<Rightarrow> trans_state) \<Rightarrow> nat option \<Rightarrow>
   expand_alloc \<times> bool \<Rightarrow> ulong \<Rightarrow> clone_state \<Rightarrow> (int \<times> bool) list \<Rightarrow> trans_state \<Rightarrow> 'w \<Rightarrow> (trans_state \<times> 'w) option" where
  "trans_results complete backends local mem al tid cs [] s w = Some (s, w)"
| "trans_results complete backends local mem al tid cs ((c, ok) # xs) s w = do {
     (s, w) \<leftarrow> trans_result complete backends local mem al c tid ok cs s w;
     trans_results complete backends local mem al tid cs xs s w }"

definition local_threads :: "int \<Rightarrow> nat \<Rightarrow> trans_state \<Rightarrow> trans_state" where
  "local_threads backends a s =
     (case trans_store s a of None \<Rightarrow> s | Some t \<Rightarrow> set_trans s a (Some (t\<lparr>done_num := backends - total t\<rparr>)))"

lemma finish_transaction_reported:
  assumes "holds_trans s tid a t" "reported n xs t" "int (length xs) = n"
    "complete (map fst xs) n tid (list_all snd xs) w = Some w'"
  shows "\<exists>s'. finish_transaction complete backends (local_threads backends a) a tid s w = Some (s', w') \<and>
    proxy_trans_search s' tid = Some None \<and> trans_store s' a = None"
proof -
  obtain h where h: "trans_table s = Some h" "ht_inv h \<and> ht_distinct h" "hashtable_search h tid = Some a" "trans_store s a = Some t"
    using assms(1) by (auto simp: holds_trans_def)
  obtain v h' where r: "hashtable_remove h tid = (v, h')" by (cases "hashtable_remove h tid")
  have "hashtable_search h' tid = None" using ht.remove_ok [OF h(2) r] by simp
  then show ?thesis using h r assms(2-4)
    by (auto simp: finish_transaction_def reported_def local_threads_def proxy_trans_remove_def proxy_trans_search_def)
qed

lemma trans_results_reported:
  assumes "holds_trans s tid a t" "reported n xs t" "int (length xs + length ys) = n" "ys \<noteq> []"
    "complete (map fst (xs @ ys)) n tid (list_all snd (xs @ ys)) w = Some w'"
  shows "\<exists>s'. trans_results complete backends (local_threads backends a) mem al tid cs ys s w = Some (s', w') \<and>
    proxy_trans_search s' tid = Some None \<and> trans_store s' a = None"
  using assms
proof (induction ys arbitrary: s t xs)
  case (Cons y ys)
  obtain c ok where y: "y = (c, ok)" by (cases y)
  have "int (length xs) < n" using Cons.prems(3) by simp
  from record_result_reported [OF Cons.prems(1,2) this, of mem al c ok cs]
  obtain s1 t1 where 1: "record_result_of_clone mem al c tid ok cs s = Some (a, s1)" "holds_trans s1 tid a t1"
    "reported n (xs @ [(c, ok)]) t1" by blast
  have t1: "trans_store s1 a = Some t1" using holds_trans_search [OF 1(2)] by simp
  show ?case
  proof (cases "ys = []")
    case True
    have full: "num t1 = total t1" using 1(3) True Cons.prems(3) by (simp add: reported_def)
    have "complete (map fst (xs @ [(c, ok)])) n tid (list_all snd (xs @ [(c, ok)])) w = Some w'" using Cons.prems(5) True y by simp
    from finish_transaction_reported [of _ _ _ _ _ _ complete, OF 1(2,3) _ this, of backends] True Cons.prems(3)
    show ?thesis using 1(1) t1 full y True by (auto simp: trans_result_def)
  next
    case False
    then have "num t1 \<noteq> total t1" using 1(3) Cons.prems(3) by (cases ys) (auto simp: reported_def)
    then have "trans_result complete backends (local_threads backends a) mem al c tid ok cs s w = Some (s1, w)"
      using 1(1) t1 by (simp add: trans_result_def)
    moreover have "int (length (xs @ [(c, ok)]) + length ys) = n" using Cons.prems(3) by simp
    ultimately show ?thesis using Cons.IH [OF 1(2,3) _ False] Cons.prems(5) y by simp
  qed
qed simp

lemma trans_results_partial:
  assumes "holds_trans s tid a t" "reported n xs t" "int (length xs + length ys) < n"
  shows "\<exists>s'. trans_results complete backends (local_threads backends b) mem al tid cs ys s w = Some (s', w)"
  using assms
proof (induction ys arbitrary: s t xs)
  case (Cons y ys)
  obtain c ok where y: "y = (c, ok)" by (cases y)
  have "int (length xs) < n" using Cons.prems(3) by simp
  from record_result_reported [OF Cons.prems(1,2) this, of mem al c ok cs]
  obtain s1 t1 where 1: "record_result_of_clone mem al c tid ok cs s = Some (a, s1)" "holds_trans s1 tid a t1"
    "reported n (xs @ [(c, ok)]) t1" by blast
  have "trans_store s1 a = Some t1" using holds_trans_search [OF 1(2)] by simp
  moreover have "num t1 \<noteq> total t1" using 1(3) Cons.prems(3) by (auto simp: reported_def)
  ultimately have "trans_result complete backends (local_threads backends b) mem al c tid ok cs s w = Some (s1, w)"
    using 1(1) by (simp add: trans_result_def)
  moreover have "int (length (xs @ [(c, ok)]) + length ys) < n" using Cons.prems(3) by simp
  ultimately show ?case using Cons.IH [OF 1(2,3)] y by simp
qed simp

lemma trans_results_new:
  assumes "proxy_trans_search s tid = Some None" "new_trans mem al tid cs s = Some (a, s1)" "holds_trans s1 tid a t"
  shows "trans_results complete backends local mem al tid cs (x # xs) s w = trans_results complete backends local mem al tid cs (x # xs) s1 w"
  using assms holds_trans_search [OF assms(3)]
  by (cases x) (simp add: trans_result_def record_result_of_clone_def)

text \<open>
  C25: when the clones of a generation of \<open>n > 0\<close> clones have all reported their result of a
  transaction, in any order, the coordinator tells exactly these clones, once, to commit if all
  of them succeeded and to roll back otherwise, and removes the transaction; before the last
  report it tells them nothing.
\<close>

theorem coordinator_decides_transaction:
  assumes "trans_table s = Some h" "ht_inv h \<and> ht_distinct h" "hashtable_search h tid = None"
    "proxy_clone_get_num cs (clone_generation cs) = Some (int (length xs))" "xs \<noteq> []"
    "complete (map fst xs) (int (length xs)) tid (list_all snd xs) w = Some w'"
  shows "(\<exists>s'. trans_results complete backends (local_threads backends a) (Some a) (Malloc_ok, True) tid cs xs s w = Some (s', w') \<and>
      proxy_trans_search s' tid = Some None) \<and>
    (\<forall>ys zs. xs = ys @ zs \<and> zs \<noteq> [] \<longrightarrow>
      (\<exists>s'. trans_results complete backends (local_threads backends a) (Some a) (Malloc_ok, True) tid cs ys s w = Some (s', w)))"
proof -
  let ?run = "trans_results complete backends (local_threads backends a) (Some a) (Malloc_ok, True) tid cs"
  from new_trans_holds [OF assms(1-4), of a]
  obtain s1 where s1: "new_trans (Some a) (Malloc_ok, True) tid cs s = Some (a, s1)"
    "holds_trans s1 tid a \<lparr>num = 0, total = int (length xs), done_num = 0, success = True, clone_ids = Some (replicate (length xs) (- 1))\<rparr>"
    by auto
  let ?t = "\<lparr>num = 0, total = int (length xs), done_num = 0, success = True, clone_ids = Some (replicate (length xs) (- 1))\<rparr>"
  have r: "reported (int (length xs)) [] ?t" by (simp add: reported_def)
  have found: "proxy_trans_search s tid = Some None" using assms(1,3) by (simp add: proxy_trans_search_def)
  have first: "?run ys s w = ?run ys s1 w" if "ys \<noteq> []" for ys
    using that trans_results_new [OF found s1, of complete backends "local_threads backends a" _ _ w] by (cases ys) simp_all
  have "\<exists>s'. ?run xs s w = Some (s', w') \<and> proxy_trans_search s' tid = Some None"
    using trans_results_reported [OF s1(2) r _ assms(5), of complete w w' backends "Some a" "(Malloc_ok, True)" cs] first [OF assms(5)] assms(6)
    by auto
  moreover have "\<exists>s'. ?run ys s w = Some (s', w)" if "xs = ys @ zs" "zs \<noteq> []" for ys zs
  proof (cases "ys = []")
    case False
    have "length ys < length xs" using that by simp
    then show ?thesis using trans_results_partial [OF s1(2) r, of ys complete backends a "Some a" "(Malloc_ok, True)" cs w] first [OF False] by auto
  qed simp
  ultimately show ?thesis by blast
qed

text \<open>
  The coordinator stores the number of clones of a generation before it waits for them. If
  no clone has reported by then, the stored number is zero; the entry of a transaction has no
  room for clone identifiers, and the first result of a clone is written outside of it.
\<close>

theorem clone_result_overflow:
  assumes "clone_num_table cs = Some h" "ht_inv h \<and> ht_distinct h" "hashtable_search h (of_int (clone_generation cs)) = None"
    "new_clones cs = 0" "proxy_clone_wait nump_ok (al, True) wakes cs = Some (False, cs')"
    "proxy_trans_search s tid = Some None"
  shows "proxy_clone_get_num cs' (clone_generation cs') = Some 0 \<and> req_clones cs \<le> new_clones cs' \<and>
    record_result_of_clone mem al' clone_id tid ok cs' s = None"
proof -
  have c: "proxy_clone_get_num cs' (clone_generation cs') = Some 0" "req_clones cs \<le> new_clones cs'"
    using proxy_clone_wait_result [OF assms(1-3,5)] assms(4) by auto
  have "trans_store s' a = Some \<lparr>num = 0, total = 0, done_num = 0, success = True, clone_ids = Some []\<rparr>"
    if "new_trans mem al' tid cs' s = Some (a, s')" for a s'
    using that c(1) by (auto simp: new_trans_def proxy_trans_insert_def bind_eq_Some_conv)
  then have "record_result_of_clone mem al' clone_id tid ok cs' s = None"
    using assms(6) by (cases "new_trans mem al' tid cs' s") (auto simp: record_result_of_clone_def)
  with c show ?thesis by simp
qed

section \<open>Concrete runs\<close>

definition log_decision :: "int list \<Rightarrow> int \<Rightarrow> ulong \<Rightarrow> bool \<Rightarrow> (int list \<times> int \<times> ulong \<times> bool) list \<Rightarrow> (int list \<times> int \<times> ulong \<times> bool) list option" where
  "log_decision ids n tid ok w = Some (w @ [(ids, n, tid, ok)])"

lemma new_table: "\<exists>h :: 'v hashtable. create_hashtable True True 16 = Some h \<and> (ht_inv h \<and> ht_distinct h) \<and> hashtable_search h = Map.empty"
proof -
  obtain h :: "'v hashtable" where h: "create_hashtable True True 16 = Some h" using create_hashtable_total [of 16] by auto
  with create_hashtable_correct [OF h] show ?thesis by auto
qed

lemma clones_counted: "\<exists>cs. proxy_clone_get_num cs (clone_generation cs) = Some n"
proof -
  obtain h :: "int hashtable" where h: "ht_inv h \<and> ht_distinct h" "hashtable_search h = Map.empty" using new_table by blast
  let ?s = "clone_globals\<lparr>clone_num_table := Some h\<rparr>"
  obtain r h' where i: "hashtable_insert (Malloc_ok, True) h (of_int 0) n = Some (r, h')"
    using hashtable_insert_defined [of True h "of_int 0" n] by blast
  then have c: "clone_set_num True (Malloc_ok, True) ?s 0 n = Some (?s\<lparr>clone_num_table := Some h'\<rparr>)"
    by (simp add: clone_set_num_def)
  from clone_set_num_get [OF _ h(1) _ c] h(2)
  have "proxy_clone_get_num (?s\<lparr>clone_num_table := Some h'\<rparr>) 0 = Some n" by simp
  then show ?thesis by (intro exI [of _ "?s\<lparr>clone_num_table := Some h'\<rparr>"]) (simp add: clone_globals_def)
qed

theorem coordinator_decides_transaction_witness:
  "\<exists>s cs s'. trans_results log_decision 3 (local_threads 3 0) (Some 0) (Malloc_ok, True) 7 cs [(1, True), (2, False)] s [] =
     Some (s', [([1, 2], 2, 7, False)])"
proof -
  obtain h :: "nat hashtable" where h: "ht_inv h \<and> ht_distinct h" "hashtable_search h = Map.empty" using new_table by blast
  let ?s = "\<lparr>trans_table = Some h, trans_store = Map.empty\<rparr>"
  obtain cs where cs: "proxy_clone_get_num cs (clone_generation cs) = Some 2" using clones_counted by blast
  from coordinator_decides_transaction [of ?s h 7 cs "[(1, True), (2, False)]" log_decision "[]" "[([1, 2], 2, 7, False)]" 3 0]
  have "\<exists>s'. trans_results log_decision 3 (local_threads 3 0) (Some 0) (Malloc_ok, True) 7 cs [(1, True), (2, False)] ?s [] =
     Some (s', [([1, 2], 2, 7, False)])"
    using h cs by (auto simp: log_decision_def)
  then show ?thesis by blast
qed

theorem clone_result_overflow_witness:
  "\<exists>cs cs' s. req_clones cs = 1 \<and> proxy_clone_wait True (Malloc_ok, True) [(1, False)] cs = Some (False, cs') \<and>
     record_result_of_clone (Some 0) (Malloc_ok, True) 1 7 True cs' s = None"
proof -
  obtain h :: "int hashtable" where h: "ht_inv h \<and> ht_distinct h" "hashtable_search h = Map.empty" using new_table by blast
  obtain t :: "nat hashtable" where t: "hashtable_search t = Map.empty" using new_table by blast
  let ?cs = "clone_globals\<lparr>clone_num_table := Some h, req_clones := 1, clone_generation := 1\<rparr>"
    and ?s = "\<lparr>trans_table = Some t, trans_store = Map.empty\<rparr>"
  obtain r h' where i: "hashtable_insert (Malloc_ok, True) h (of_int 1) 0 = Some (r, h')"
    using hashtable_insert_defined [of True h "of_int 1" 0] by blast
  then have w: "proxy_clone_wait True (Malloc_ok, True) [(1, False)] ?cs =
    Some (False, ?cs\<lparr>clone_num_table := Some h', new_clones := 1, req_clones := 0\<rparr>)"
    by (simp add: proxy_clone_wait_def clone_set_num_def clone_globals_def clone_wait_loop.simps proxy_clone_notify_def)
  from clone_result_overflow [OF _ h(1) _ _ w, of ?s 7 "Some 0" "(Malloc_ok, True)" 1 True] h(2) t w
  show ?thesis by (intro exI [of _ ?cs] exI) (auto simp: clone_globals_def proxy_trans_search_def)
qed

end
