(* ===== verification/Charset.thy ===== *)
theory Charset
  imports C_String
begin

text \<open>
  The string functions of \<open>src/sql_string.c\<close>: conversion between character sets, copying with
  hexadecimal escapes, copying of well-formed characters, and conversion to printable ASCII.
  The character sets and the tables of the MySQL library are parameters: a character set is a
  record of the functions the code calls, and \<open>charset_ok\<close> states what their documentation
  promises. Source strings are the bytes from the current position to the end; destinations are
  buffers, and writing outside of one is undefined. Lengths that the code keeps in \<open>uint\<close> are
  natural numbers, because none of them is ever decremented below zero or grows above the
  length of a buffer.

  The theory shows that the conversion always ends, stays within its destination and leaves the
  rest of it alone, that the copy with escapes is the longest run of whole units that fits, and
  that the printable form is a terminated string of printable characters that ends in dots
  when the source was cut.
\<close>

section \<open>Parameters from the MySQL library\<close>

record ctype_lib =
  MY_CS_ILSEQ :: int
  MY_CS_ILUNI :: int
  MY_CS_TOOSMALL :: int
  dig_vec_upper :: string
  charset_bin :: nat

record charset =
  charset_id :: nat
  mbminlen :: nat
  mb_wc :: "string \<Rightarrow> int \<times> ulong"
  wc_mb :: "ulong \<Rightarrow> nat \<Rightarrow> int \<times> string"
  well_formed_len :: "string \<Rightarrow> nat \<Rightarrow> nat \<times> bool"
  ismbchar :: "string \<Rightarrow> nat"

text \<open>
  Documented behaviour: the codes of the results; decoding consumes bytes that are there and
  reports an empty source as too small; encoding writes as many bytes as it returns, within
  the room it has.
\<close>

definition ctype_ok :: "ctype_lib \<Rightarrow> bool" where
  "ctype_ok lib \<longleftrightarrow> MY_CS_ILSEQ lib = 0 \<and> MY_CS_ILUNI lib = 0 \<and> MY_CS_TOOSMALL lib = - 101 \<and>
     dig_vec_upper lib = ''0123456789ABCDEFGHIJKLMNOPQRSTUVWXYZ''"

definition charset_ok :: "charset \<Rightarrow> bool" where
  "charset_ok cs \<longleftrightarrow>
     (\<forall>s. fst (mb_wc cs s) \<le> int (length s)) \<and>
     (\<forall>s. - 101 < fst (mb_wc cs s) \<and> fst (mb_wc cs s) \<le> 0 \<longrightarrow> s \<noteq> [] \<and> - fst (mb_wc cs s) \<le> int (length s)) \<and>
     (\<forall>wc n. 0 < fst (wc_mb cs wc n) \<longrightarrow> fst (wc_mb cs wc n) \<le> int n \<and>
        int (length (snd (wc_mb cs wc n))) = fst (wc_mb cs wc n)) \<and>
     (\<forall>s. ismbchar cs s \<le> length s)"

section \<open>Conversion\<close>

text \<open>How one character was decoded: well, from a wrong sequence, or without a Unicode mapping.\<close>

datatype decoded = Decoded | Ill_formed | No_mapping

abbreviation question :: ulong where "question \<equiv> 63"

definition decode_char :: "ctype_lib \<Rightarrow> charset \<Rightarrow> string \<Rightarrow> (nat \<times> ulong \<times> decoded) option" where
  "decode_char lib cs from =
     (let (cnvres, wc) = mb_wc cs from
      in if cnvres > 0 then Some (nat cnvres, wc, Decoded)
         else if cnvres = MY_CS_ILSEQ lib then Some (1, question, Ill_formed)
         else if cnvres > MY_CS_TOOSMALL lib then Some (nat (- cnvres), question, No_mapping)
         else None)"

text \<open>
  The statements at label \<open>outp\<close>: the second attempt, with a question mark, is the last one.
  The result is the number of bytes and the bytes, if any, and whether there was a second
  attempt.
\<close>

definition encode_char :: "ctype_lib \<Rightarrow> charset \<Rightarrow> ulong \<Rightarrow> nat \<Rightarrow> (nat \<times> string) option \<times> bool" where
  "encode_char lib cs wc room =
     (let (cnvres, bs) = wc_mb cs wc room
      in if cnvres > 0 then (Some (nat cnvres, bs), False)
         else if cnvres = MY_CS_ILUNI lib \<and> wc \<noteq> question then
           (let (cnvres, bs) = wc_mb cs question room
            in (if cnvres > 0 then Some (nat cnvres, bs) else None, True))
         else (None, False))"

partial_function (option) copy_loop ::
  "ctype_lib \<Rightarrow> charset \<Rightarrow> charset \<Rightarrow> nat \<Rightarrow> cbuf \<Rightarrow> nat \<Rightarrow> string \<Rightarrow> uint \<Rightarrow> (cbuf \<times> nat \<times> uint) option" where
  "copy_loop lib to_cs from_cs to_end to pos from error_count =
     (case decode_char lib from_cs from of
        None \<Rightarrow> Some (to, pos, error_count)
      | Some (n, wc, k) \<Rightarrow>
          if length from < n then None
          else
            let error_count = (if k = Decoded then error_count else error_count + 1);
                (w, second) = encode_char lib to_cs wc (to_end - pos);
                error_count = (if second then error_count + 1 else error_count)
            in (case w of
                  None \<Rightarrow> Some (to, pos, error_count)
                | Some (m, bs) \<Rightarrow>
                    Option.bind (put to pos bs)
                      (\<lambda>to. copy_loop lib to_cs from_cs to_end to (pos + m) (drop n from) error_count)))"

declare copy_loop.simps [code]

text \<open>The buffer, the number of bytes written, and the number of errors.\<close>

definition copy_and_convert ::
  "ctype_lib \<Rightarrow> cbuf \<Rightarrow> nat \<Rightarrow> charset \<Rightarrow> string \<Rightarrow> charset \<Rightarrow> (cbuf \<times> nat \<times> uint) option" where
  "copy_and_convert lib to to_length to_cs from from_cs = copy_loop lib to_cs from_cs to_length to 0 from 0"

section \<open>Copying with escapes\<close>

definition high_bit :: "char \<Rightarrow> bool" where
  "high_bit c \<longleftrightarrow> 128 \<le> (of_char c :: nat)"

definition hex_escape :: "ctype_lib \<Rightarrow> char \<Rightarrow> string option" where
  "hex_escape lib c = do {
     h \<leftarrow> rd (dig_vec_upper lib) (of_char c div 16);
     l \<leftarrow> rd (dig_vec_upper lib) (of_char c mod 16);
     Some [CHR 0x5C, CHR ''x'', h, l] }"

function hex_loop :: "ctype_lib \<Rightarrow> charset \<Rightarrow> cbuf \<Rightarrow> nat \<Rightarrow> nat \<Rightarrow> string \<Rightarrow> (cbuf \<times> nat) option" where
  "hex_loop lib cs dst pos dstlen [] = Some (dst, pos)"
| "hex_loop lib cs dst pos dstlen (c # src) =
     (let chlen = ismbchar cs (c # src)
      in if chlen \<noteq> 0 then
           if dstlen < chlen then Some (dst, pos)
           else if length (c # src) < chlen then None
           else do {
             dst \<leftarrow> put dst pos (take chlen (c # src));
             hex_loop lib cs dst (pos + chlen) (dstlen - chlen) (drop chlen (c # src)) }
         else if high_bit c then
           if dstlen < 4 then Some (dst, pos)
           else do {
             e \<leftarrow> hex_escape lib c;
             dst \<leftarrow> put dst pos e;
             hex_loop lib cs dst (pos + 4) (dstlen - 4) src }
         else if dstlen < 1 then Some (dst, pos)
         else do {
           dst \<leftarrow> put dst pos [c];
           hex_loop lib cs dst (pos + 1) (dstlen - 1) src })"
  by pat_completeness auto
termination by (relation "measure (\<lambda>(lib, cs, dst, pos, dstlen, src). length src)") auto

definition my_copy_with_hex_escaping :: "ctype_lib \<Rightarrow> charset \<Rightarrow> cbuf \<Rightarrow> nat \<Rightarrow> string \<Rightarrow> (cbuf \<times> nat) option" where
  "my_copy_with_hex_escaping lib cs dst dstlen src = hex_loop lib cs dst 0 dstlen src"

section \<open>Copying well-formed characters\<close>

text \<open>Positions in the source, as offsets from its start, and the result length.\<close>

record copy_result =
  res :: nat
  well_formed_error_pos :: "nat option"
  cannot_convert_error_pos :: "nat option"
  from_end_pos :: nat

definition first_pos :: "nat option \<Rightarrow> nat \<Rightarrow> nat option" where
  "first_pos p i = (case p of None \<Rightarrow> Some i | Some j \<Rightarrow> Some j)"

text \<open>The loop of the general case; \<open>from\<close> is the offset of the source position.\<close>

fun nchars_loop ::
  "ctype_lib \<Rightarrow> charset \<Rightarrow> charset \<Rightarrow> nat \<Rightarrow> nat \<Rightarrow> cbuf \<Rightarrow> nat \<Rightarrow> string \<Rightarrow> nat \<Rightarrow> nat option \<Rightarrow> nat option \<Rightarrow>
   (cbuf \<times> copy_result) option" where
  "nchars_loop lib to_cs from_cs to_end 0 to pos src from wfe cce = Some (to, \<lparr>res = pos, well_formed_error_pos = wfe, cannot_convert_error_pos = cce, from_end_pos = from\<rparr>)"
| "nchars_loop lib to_cs from_cs to_end (Suc nchars) to pos src from wfe cce =
     (case decode_char lib from_cs (drop from src) of
        None \<Rightarrow> Some (to, \<lparr>res = pos, well_formed_error_pos = wfe, cannot_convert_error_pos = cce, from_end_pos = from\<rparr>)
      | Some (n, wc, k) \<Rightarrow>
          if length src < from + n then None
          else
            let wfe = (if k = Ill_formed then first_pos wfe from else wfe);
                cce = (if k = No_mapping then first_pos cce from else cce);
                (w, second) = encode_char lib to_cs wc (to_end - pos);
                cce = (if second then first_pos cce from else cce)
            in (case w of
                  None \<Rightarrow> Some (to, \<lparr>res = pos, well_formed_error_pos = wfe, cannot_convert_error_pos = cce, from_end_pos = from\<rparr>)
                | Some (m, bs) \<Rightarrow>
                    Option.bind (put to pos bs)
                      (\<lambda>to. nchars_loop lib to_cs from_cs to_end nchars to (pos + m) src (from + n) wfe cce)))"

text \<open>
  The case of equal character sets: a source of bytes is padded on the left to a whole
  character. The argument \<open>same\<close> stands for \<open>my_charset_same\<close>.
\<close>

definition copy_same ::
  "ctype_lib \<Rightarrow> charset \<Rightarrow> charset \<Rightarrow> cbuf \<Rightarrow> nat \<Rightarrow> string \<Rightarrow> nat \<Rightarrow> (cbuf \<times> copy_result) option" where
  "copy_same lib to_cs from_cs to to_length src nchars =
     (if mbminlen to_cs = 0 then None
      else do {
        let from_offset = length src mod mbminlen to_cs;
        let padded = (from_offset \<noteq> 0 \<and> charset_id from_cs = charset_bin lib);
        let pad_length = mbminlen to_cs - from_offset;
        to \<leftarrow> if padded then put to 0 (replicate pad_length NUL @ take from_offset src) else Some to;
        let nchars = (if padded then nchars - 1 else nchars);
        let from = (if padded then from_offset else 0);
        let start = (if padded then mbminlen to_cs else 0);
        let from_length = min (length src - from) (to_length - start);
        let (res, well_formed_error) = well_formed_len to_cs (take from_length (drop from src)) nchars;
        to \<leftarrow> if from + res \<le> length src then put to start (take res (drop from src)) else None;
        Some (to, \<lparr>res = (if from_offset \<noteq> 0 then res + mbminlen to_cs else res),
          well_formed_error_pos = (if well_formed_error then Some (from + res) else None),
          cannot_convert_error_pos = None, from_end_pos = from + res\<rparr>) })"

definition well_formed_copy_nchars ::
  "ctype_lib \<Rightarrow> (charset \<Rightarrow> charset \<Rightarrow> bool) \<Rightarrow> charset \<Rightarrow> cbuf \<Rightarrow> nat \<Rightarrow> charset \<Rightarrow> string \<Rightarrow> nat \<Rightarrow>
   (cbuf \<times> copy_result) option" where
  "well_formed_copy_nchars lib same to_cs to to_length from_cs src nchars =
     (if charset_id to_cs = charset_bin lib \<or> charset_id from_cs = charset_bin lib \<or>
         charset_id to_cs = charset_id from_cs \<or> same from_cs to_cs then
        if to_length < mbminlen to_cs \<or> nchars = 0 then
          Some (to, \<lparr>res = 0, well_formed_error_pos = None, cannot_convert_error_pos = None, from_end_pos = 0\<rparr>)
        else if charset_id to_cs = charset_bin lib then do {
          let n = min (min nchars to_length) (length src);
          to \<leftarrow> put to 0 (take n src);
          Some (to, \<lparr>res = n, well_formed_error_pos = None, cannot_convert_error_pos = None, from_end_pos = n\<rparr>) }
        else copy_same lib to_cs from_cs to to_length src nchars
      else nchars_loop lib to_cs from_cs to_length nchars to 0 src 0 None None)"

section \<open>Printable form\<close>

definition printable :: "char \<Rightarrow> bool" where
  "printable c \<longleftrightarrow> 32 \<le> (of_char c :: nat) \<and> (of_char c :: nat) \<le> 127"

text \<open>The loop: the buffer, the position \<open>t\<close>, the place for the dots, and the position \<open>f\<close>.\<close>

fun printable_loop ::
  "ctype_lib \<Rightarrow> charset \<Rightarrow> nat \<Rightarrow> string \<Rightarrow> cbuf \<Rightarrow> nat \<Rightarrow> nat \<Rightarrow> nat \<Rightarrow> (cbuf \<times> nat \<times> nat \<times> nat) option" where
  "printable_loop lib from_cs t_end [] to t dots f = Some (to, t, dots, f)"
| "printable_loop lib from_cs t_end (c # cs) to t dots f =
     (if \<not> t < t_end then Some (to, t, dots, f)
      else if printable c \<and> mbminlen from_cs = 1 then do {
        to \<leftarrow> put to t [c];
        let t = t + 1;
        printable_loop lib from_cs t_end cs to t (if 3 \<le> t_end - t then t else dots) (f + 1) }
      else if t_end - t < 4 then Some (to, t, dots, f)
      else do {
        e \<leftarrow> hex_escape lib c;
        to \<leftarrow> put to t e;
        let t = t + 4;
        printable_loop lib from_cs t_end cs to t (if 3 \<le> t_end - t then t else dots) (f + 1) })"

definition convert_to_printable ::
  "ctype_lib \<Rightarrow> cbuf \<Rightarrow> nat \<Rightarrow> string option \<Rightarrow> charset \<Rightarrow> nat \<Rightarrow> (cbuf \<times> nat) option" where
  "convert_to_printable lib to to_len from from_cs nbytes =
     (if to_len = 0 then None
      else
        let t_end = to_len - 1
        in (case from of
              None \<Rightarrow> Some (to, 0)
            | Some src \<Rightarrow>
                if t_end = 0 then Some (to, 0)
                else do {
                  let f_end = (if nbytes \<noteq> 0 then min (length src) nbytes else length src);
                  (to, t, dots, f) \<leftarrow> printable_loop lib from_cs t_end (take f_end src) to 0 0 0;
                  to \<leftarrow> if f < length src then put to dots (''...'' @ [NUL]) else put to t [NUL];
                  Some (to, t) }))"

section \<open>Conversion stays within the destination\<close>

lemma put_Some:
  assumes "put b i bs = Some b'"
  shows "length b' = length b" "j \<le> i \<Longrightarrow> take j b' = take j b" "i + length bs \<le> j \<Longrightarrow> drop j b' = drop j b"
    "take (i + length bs) b' = take i b @ bs"
  using assms by (auto simp: put_def split: if_splits)

lemma put_defined [simp]: "i + length bs \<le> length b \<Longrightarrow> put b i bs = Some (take i b @ bs @ drop (i + length bs) b)"
  by (simp add: put_def)

lemma decode_char_ok:
  assumes "ctype_ok lib" "charset_ok cs" "decode_char lib cs from = Some (n, wc, k)"
  shows "1 \<le> n \<and> n \<le> length from"
proof -
  obtain r w where r: "mb_wc cs from = (r, w)" by (cases "mb_wc cs from")
  have "r \<le> int (length from)" "- 101 < r \<and> r \<le> 0 \<longrightarrow> from \<noteq> [] \<and> - r \<le> int (length from)"
    using assms(2) r unfolding charset_ok_def by (metis fst_conv)+
  then show ?thesis using assms(1,3) r
    by (auto simp: decode_char_def ctype_ok_def Suc_le_eq split: if_splits)
qed

lemma encode_char_ok:
  assumes "charset_ok cs" "encode_char lib cs wc room = (Some (m, bs), b)"
  shows "1 \<le> m \<and> m \<le> room \<and> length bs = m"
proof -
  have *: "1 \<le> nat r \<and> nat r \<le> room \<and> length bs = nat r" if "wc_mb cs w room = (r, bs)" "0 < r" for w r bs
  proof -
    have "0 < fst (wc_mb cs w room) \<longrightarrow> fst (wc_mb cs w room) \<le> int room \<and>
        int (length (snd (wc_mb cs w room))) = fst (wc_mb cs w room)"
      using assms(1) unfolding charset_ok_def by blast
    then show ?thesis using that by (auto simp: Suc_le_eq)
  qed
  obtain r1 b1 r2 b2 where "wc_mb cs wc room = (r1, b1)" "wc_mb cs question room = (r2, b2)"
    by (meson surj_pair)
  then show ?thesis using assms(2) *[of wc r1 b1] *[of question r2 b2]
    by (auto simp: encode_char_def split: if_splits)
qed

lemma copy_loop_ok:
  assumes "ctype_ok lib" "charset_ok to_cs" "charset_ok from_cs" "pos \<le> to_end" "to_end \<le> length to"
  shows "\<exists>to' n e. copy_loop lib to_cs from_cs to_end to pos src errs = Some (to', n, e) \<and> pos \<le> n \<and> n \<le> to_end \<and>
    length to' = length to \<and> take pos to' = take pos to \<and> drop n to' = drop n to"
  using assms(4,5)
proof (induction src arbitrary: to pos errs rule: length_induct)
  case (1 src)
  show ?case
  proof (cases "decode_char lib from_cs src")
    case None
    then show ?thesis using 1(2) by (simp add: copy_loop.simps Let_def)
  next
    case (Some d)
    then obtain n wc k where d: "decode_char lib from_cs src = Some (n, wc, k)" by (cases d) auto
    have n: "1 \<le> n" "n \<le> length src" using decode_char_ok [OF assms(1,3) d] by simp_all
    obtain w b where e: "encode_char lib to_cs wc (to_end - pos) = (w, b)" by (cases "encode_char lib to_cs wc (to_end - pos)")
    show ?thesis
    proof (cases w)
      case None
      then show ?thesis using 1(2) d n e by (simp add: copy_loop.simps Let_def)
    next
      case (Some mb)
      then obtain m bs where w: "w = Some (m, bs)" by (cases mb) auto
      have m: "1 \<le> m" "m \<le> to_end - pos" "length bs = m" using encode_char_ok [OF assms(2) e [unfolded w]] by simp_all
      have "pos + length bs \<le> length to" using m 1(2,3) by simp
      then obtain to1 where t: "put to pos bs = Some to1" by simp
      note p = put_Some [OF t]
      have "length (drop n src) < length src" using n by simp
      from 1(1) [rule_format, OF this, of "pos + m" to1] m 1(2,3) p(1)
      obtain to' n' e' where r:
        "copy_loop lib to_cs from_cs to_end to1 (pos + m) (drop n src) (if b then (if k = Decoded then errs else errs + 1) + 1 else if k = Decoded then errs else errs + 1) = Some (to', n', e')"
        "pos + m \<le> n'" "n' \<le> to_end" "length to' = length to1" "take (pos + m) to' = take (pos + m) to1" "drop n' to' = drop n' to1"
        by fastforce
      have "take pos to' = take pos to" using r(5) p(2) [of pos] by (metis le_add1 min.absorb1 order_refl take_take)
      moreover have "drop n' to' = drop n' to" using r(2,6) p(3) [of n'] m(3) by simp
      ultimately show ?thesis using r d n e w t p(1) by (simp add: copy_loop.simps Let_def)
    qed
  qed
qed

text \<open>
  C21: for character sets that behave as documented the conversion always returns; it writes at
  most \<open>to_length\<close> bytes, the returned number of bytes is the end of what it wrote, and the
  rest of the destination is as before.
\<close>

theorem copy_and_convert_bounds:
  assumes "ctype_ok lib" "charset_ok to_cs" "charset_ok from_cs" "to_length \<le> length to"
  shows "\<exists>to' n errors. copy_and_convert lib to to_length to_cs src from_cs = Some (to', n, errors) \<and>
    n \<le> to_length \<and> length to' = length to \<and> drop n to' = drop n to"
  using copy_loop_ok [OF assms(1-3) _ assms(4), of 0 src 0] unfolding copy_and_convert_def by auto

section \<open>Escapes\<close>

text \<open>
  The units of a source: whole multi-byte characters, escapes of other bytes above 127, and
  single bytes; and the longest run of whole units that fits into a number of bytes.
\<close>

function units :: "ctype_lib \<Rightarrow> charset \<Rightarrow> string \<Rightarrow> string list" where
  "units lib cs [] = []"
| "units lib cs (c # src) =
     (let chlen = ismbchar cs (c # src)
      in if chlen \<noteq> 0 then take chlen (c # src) # units lib cs (drop chlen (c # src))
         else if high_bit c then
           [CHR 0x5C, CHR ''x'', dig_vec_upper lib ! (of_char c div 16), dig_vec_upper lib ! (of_char c mod 16)] # units lib cs src
         else [c] # units lib cs src)"
  by pat_completeness auto
termination by (relation "measure (\<lambda>(lib, cs, src). length src)") auto

fun fitting :: "nat \<Rightarrow> string list \<Rightarrow> string list" where
  "fitting n [] = []"
| "fitting n (u # us) = (if length u \<le> n then u # fitting (n - length u) us else [])"

lemma length_fitting: "length (concat (fitting n us)) \<le> n"
proof (induction us arbitrary: n)
  case (Cons u us)
  have "length u + length (concat (fitting (n - length u) us)) \<le> n" if "length u \<le> n"
    using Cons.IH [of "n - length u"] that by linarith
  then show ?case by simp
qed simp

lemma of_char_bounds: "(of_char c :: nat) div 16 < 16" "(of_char c :: nat) mod 16 < 16"
proof -
  have "(of_char c :: nat) < 16 * 16" by simp
  then show "(of_char c :: nat) div 16 < 16" by (rule less_mult_imp_div_less)
qed simp

lemma hex_escape_ok:
  assumes "ctype_ok lib"
  shows "hex_escape lib c =
    Some [CHR 0x5C, CHR ''x'', dig_vec_upper lib ! (of_char c div 16), dig_vec_upper lib ! (of_char c mod 16)]"
proof -
  have "length (dig_vec_upper lib) = 36" using assms by (simp add: ctype_ok_def)
  then show ?thesis using of_char_bounds [of c] by (simp add: hex_escape_def rd_def)
qed

lemma put_step:
  assumes "put dst pos u = Some d" "pos + length u + length w \<le> length dst"
  shows "take (pos + length u) d @ w @ drop (pos + length u + length w) d =
    take pos dst @ (u @ w) @ drop (pos + length (u @ w)) dst"
  using put_Some [OF assms(1)] assms(2) by (simp add: add.assoc)

lemma hex_loop_units:
  assumes "ctype_ok lib" "\<And>s. ismbchar cs s \<le> length s" "pos + dstlen \<le> length dst"
  shows "hex_loop lib cs dst pos dstlen src =
    Some (take pos dst @ concat (fitting dstlen (units lib cs src)) @
      drop (pos + length (concat (fitting dstlen (units lib cs src)))) dst,
      pos + length (concat (fitting dstlen (units lib cs src))))"
  using assms(3)
proof (induction src arbitrary: dst pos dstlen rule: length_induct)
  case (1 src)
  show ?case
  proof (cases src)
    case Nil
    then show ?thesis by simp
  next
    case (Cons c cs')
    let ?n = "ismbchar cs (c # cs')"
    have step: ?thesis
      if u: "units lib cs src = u # units lib cs rest" "length rest < length src"
        and h: "hex_loop lib cs dst pos dstlen src =
          (if dstlen < length u then Some (dst, pos)
           else do { d \<leftarrow> put dst pos u; hex_loop lib cs d (pos + length u) (dstlen - length u) rest })" for u rest
    proof (cases "dstlen < length u")
      case True
      then show ?thesis using u h by simp
    next
      case False
      then obtain d where d: "put dst pos u = Some d" using 1(2) by simp
      have l: "pos + length u + (dstlen - length u) \<le> length d" using False 1(2) put_Some(1) [OF d] by simp
      let ?w = "concat (fitting (dstlen - length u) (units lib cs rest))"
      have w: "pos + length u + length ?w \<le> length dst"
        using length_fitting [of "dstlen - length u" "units lib cs rest"] False 1(2) by linarith
      show ?thesis
        using 1(1) [rule_format, OF u(2) l] h u(1) d False put_step [OF d w] by (simp add: add.assoc)
    qed
    show ?thesis
    proof (cases "?n \<noteq> 0")
      case True
      have n: "?n \<le> length (c # cs')" by (rule assms(2))
      then have len: "length (take ?n (c # cs')) = ?n" and nl: "\<not> length (c # cs') < ?n" by simp_all
      show ?thesis
      proof (rule step [of "take ?n (c # cs')" "drop ?n (c # cs')"])
        show "units lib cs src = take ?n (c # cs') # units lib cs (drop ?n (c # cs'))"
          unfolding Cons units.simps(2) Let_def using True by (simp only: if_True not_False_eq_True)
        show "length (drop ?n (c # cs')) < length src" using True Cons by simp
      qed (unfold len Cons hex_loop.simps(2) Let_def, use True nl in \<open>simp only: if_True if_False not_False_eq_True\<close>)
    next
      case n: False
      show ?thesis
      proof (cases "high_bit c")
        case True
        let ?u = "[CHR 0x5C, CHR ''x'', dig_vec_upper lib ! (of_char c div 16), dig_vec_upper lib ! (of_char c mod 16)]"
        have len: "length ?u = 4" by simp
        show ?thesis
        proof (rule step [of ?u cs'])
          show "units lib cs src = ?u # units lib cs cs'"
            unfolding Cons units.simps(2) Let_def using n True by (simp only: if_True if_False not_False_eq_True)
        qed (use Cons in simp, unfold len Cons hex_loop.simps(2) Let_def,
            use n True in \<open>simp only: if_True if_False not_False_eq_True hex_escape_ok [OF assms(1)] bind.bind_lunit\<close>)
      next
        case False
        have len: "length [c] = 1" by simp
        show ?thesis
        proof (rule step [of "[c]" cs'])
          show "units lib cs src = [c] # units lib cs cs'"
            unfolding Cons units.simps(2) Let_def using n False by (simp only: if_True if_False not_False_eq_True)
        qed (use Cons in simp, unfold len Cons hex_loop.simps(2) Let_def, use n False in \<open>simp only: if_True if_False not_False_eq_True\<close>)
      qed
    qed
  qed
qed

text \<open>
  The copy with escapes is the longest run of whole units of the source (multi-byte
  characters, escaped bytes, plain bytes) that fits into the destination; it returns its length
  and leaves the rest of the destination alone.
\<close>

theorem my_copy_with_hex_escaping_units:
  assumes "ctype_ok lib" "charset_ok cs" "dstlen \<le> length dst"
  shows "my_copy_with_hex_escaping lib cs dst dstlen src =
    (let w = concat (fitting dstlen (units lib cs src)) in Some (w @ drop (length w) dst, length w))"
proof -
  have "ismbchar cs s \<le> length s" for s using assms(2) unfolding charset_ok_def by blast
  from hex_loop_units [OF assms(1) this, of 0 dstlen dst src] assms(3) show ?thesis
    by (simp add: my_copy_with_hex_escaping_def Let_def)
qed

section \<open>The printable form\<close>

definition escaped :: "ctype_lib \<Rightarrow> charset \<Rightarrow> char \<Rightarrow> string" where
  "escaped lib cs c =
     (if printable c \<and> mbminlen cs = 1 then [c]
      else [CHR 0x5C, CHR ''x'', dig_vec_upper lib ! (of_char c div 16), dig_vec_upper lib ! (of_char c mod 16)])"

lemma length_escaped: "length (escaped lib cs c) = (if printable c \<and> mbminlen cs = 1 then 1 else 4)"
  by (simp add: escaped_def)

lemma printable_loop_step:
  assumes "ctype_ok lib"
  shows "printable_loop lib cs t_end (c # src) to t dots f =
    (if t_end - t < length (escaped lib cs c) then Some (to, t, dots, f)
     else do {
       to \<leftarrow> put to t (escaped lib cs c);
       let t = t + length (escaped lib cs c);
       printable_loop lib cs t_end src to t (if 3 \<le> t_end - t then t else dots) (f + 1) })"
  unfolding Let_def length_escaped using hex_escape_ok [OF assms, of c]
  by (cases "printable c \<and> mbminlen cs = 1") (auto simp: escaped_def Let_def)

lemma printable_loop_ok:
  assumes "ctype_ok lib" "t \<le> t_end" "t_end \<le> length to"
  shows "\<exists>dots'. printable_loop lib cs t_end src to t dots f =
      Some (take t to @ concat (fitting (t_end - t) (map (escaped lib cs) src)) @
          drop (t + length (concat (fitting (t_end - t) (map (escaped lib cs) src)))) to,
        t + length (concat (fitting (t_end - t) (map (escaped lib cs) src))), dots',
        f + length (fitting (t_end - t) (map (escaped lib cs) src))) \<and>
    (dots' = dots \<or> (\<exists>k\<le>length (fitting (t_end - t) (map (escaped lib cs) src)).
       dots' = t + length (concat (take k (map (escaped lib cs) src))) \<and> dots' + 3 \<le> t_end))"
  using assms(2,3)
proof (induction src arbitrary: to t dots f)
  case (Cons c src)
  let ?u = "escaped lib cs c" and ?us = "map (escaped lib cs) src"
  show ?case
  proof (cases "t_end - t < length ?u")
    case True
    then show ?thesis using Cons.prems by (simp add: printable_loop_step [OF assms(1)] del: printable_loop.simps(2))
  next
    case False
    then obtain d where d: "put to t ?u = Some d" using Cons.prems by simp
    let ?t = "t + length ?u" and ?dots = "if 3 \<le> t_end - (t + length ?u) then t + length ?u else dots"
    let ?F = "fitting (t_end - ?t) ?us"
    have l: "?t \<le> t_end" "t_end \<le> length d" using False Cons.prems put_Some(1) [OF d] by simp_all
    obtain dots' where r: "printable_loop lib cs t_end src d ?t ?dots (f + 1) =
        Some (take ?t d @ concat ?F @ drop (?t + length (concat ?F)) d, ?t + length (concat ?F), dots', f + 1 + length ?F)"
      "dots' = ?dots \<or> (\<exists>k\<le>length ?F. dots' = ?t + length (concat (take k ?us)) \<and> dots' + 3 \<le> t_end)"
      using Cons.IH [OF l] by blast
    have w: "t + length ?u + length (concat ?F) \<le> length to"
      using length_fitting [of "t_end - ?t" ?us] l put_Some(1) [OF d] by linarith
    have F: "fitting (t_end - t) (map (escaped lib cs) (c # src)) = ?u # ?F" using False by (simp add: diff_diff_add)
    have "dots' = dots \<or> (\<exists>k\<le>Suc (length ?F). dots' = t + length (concat (take k (?u # ?us))) \<and> dots' + 3 \<le> t_end)"
    proof (cases "dots' = ?dots")
      case True
      show ?thesis
      proof (cases "3 \<le> t_end - ?t")
        case True
        then show ?thesis using \<open>dots' = ?dots\<close> by (intro disjI2 exI [of _ 1]) simp
      qed (use True in simp)
    next
      case False
      then obtain k where "k \<le> length ?F" "dots' = ?t + length (concat (take k ?us))" "dots' + 3 \<le> t_end" using r(2) by auto
      then show ?thesis by (intro disjI2 exI [of _ "Suc k"]) simp
    qed
    moreover have "printable_loop lib cs t_end (c # src) to t dots f = printable_loop lib cs t_end src d ?t ?dots (f + 1)"
      using False d by (simp only: printable_loop_step [OF assms(1)] if_False Let_def bind.bind_lunit)
    then have "printable_loop lib cs t_end (c # src) to t dots f =
        Some (take t to @ concat (?u # ?F) @ drop (t + length (concat (?u # ?F))) to, t + length (concat (?u # ?F)), dots',
          f + length (?u # ?F))"
      unfolding r(1) put_step [OF d w] by (simp add: add.assoc)
    ultimately show ?thesis unfolding F by (intro exI [of _ dots'] conjI) simp_all
  qed
qed simp

lemma dig_vec_printable:
  assumes "ctype_ok lib" "i < 16"
  shows "printable (dig_vec_upper lib ! i)"
proof -
  have "list_all printable ''0123456789ABCDEFGHIJKLMNOPQRSTUVWXYZ''" by (simp add: printable_def)
  then show ?thesis using assms by (simp add: ctype_ok_def list_all_length)
qed

lemma escaped_printable: "ctype_ok lib \<Longrightarrow> c \<in> set (escaped lib cs x) \<Longrightarrow> printable c"
  using of_char_bounds [of x] dig_vec_printable
  by (auto simp: escaped_def printable_def split: if_splits)

lemma printable_not_NUL: "printable c \<Longrightarrow> c \<noteq> NUL"
  by (auto simp: printable_def)

lemma fitting_all: "length (fitting n us) = length us \<Longrightarrow> fitting n us = us"
proof (induction us arbitrary: n)
  case (Cons u us)
  then show ?case by (auto split: if_splits)
qed simp

lemma fitting_length_le: "length (fitting n us) \<le> length us"
  by (induction us arbitrary: n) auto

lemma fitting_take: "k \<le> length (fitting n us) \<Longrightarrow> take k (fitting n us) = take k us"
proof (induction us arbitrary: k n)
  case (Cons u us)
  then show ?case by (cases k) (auto split: if_splits)
qed simp

lemma cstr_terminated: "(\<And>c. c \<in> set w \<Longrightarrow> c \<noteq> NUL) \<Longrightarrow> cstr (w @ NUL # rest) 0 = Some w"
  by (simp add: cstr_def takeWhile_append)


section \<open>Well-formed copies\<close>

lemma nchars_loop_ok:
  assumes "ctype_ok lib" "charset_ok to_cs" "charset_ok from_cs" "pos \<le> to_end" "to_end \<le> length to" "i \<le> length src"
  shows "\<exists>to' r. nchars_loop lib to_cs from_cs to_end nchars to pos src i wfe cce = Some (to', r) \<and> pos \<le> res r \<and> res r \<le> to_end \<and>
    length to' = length to \<and> drop (res r) to' = drop (res r) to \<and> i \<le> from_end_pos r \<and> from_end_pos r \<le> length src"
  using assms(4-6)
proof (induction nchars arbitrary: to pos i wfe cce)
  case (Suc nchars)
  show ?case
  proof (cases "decode_char lib from_cs (drop i src)")
    case None
    then show ?thesis using Suc.prems by simp
  next
    case (Some d)
    then obtain n wc k where d: "decode_char lib from_cs (drop i src) = Some (n, wc, k)" by (cases d) auto
    have n: "1 \<le> n" "i + n \<le> length src" using decode_char_ok [OF assms(1,3) d] Suc.prems(3) by auto
    obtain w b where e: "encode_char lib to_cs wc (to_end - pos) = (w, b)" by (cases "encode_char lib to_cs wc (to_end - pos)")
    show ?thesis
    proof (cases w)
      case None
      then show ?thesis using Suc.prems d n e by (simp add: Let_def)
    next
      case (Some mb)
      then obtain m bs where w: "w = Some (m, bs)" by (cases mb) auto
      have m: "1 \<le> m" "m \<le> to_end - pos" "length bs = m" using encode_char_ok [OF assms(2) e [unfolded w]] by simp_all
      have "pos + length bs \<le> length to" using m Suc.prems by simp
      then obtain to1 where t: "put to pos bs = Some to1" by simp
      note p = put_Some [OF t]
      let ?wfe = "if k = Ill_formed then first_pos wfe i else wfe"
      let ?cce = "if b then first_pos (if k = No_mapping then first_pos cce i else cce) i else if k = No_mapping then first_pos cce i else cce"
      have "pos + m \<le> to_end" "to_end \<le> length to1" using m Suc.prems p(1) by simp_all
      from Suc.IH [OF this n(2), of ?wfe ?cce] obtain to' r where r:
        "nchars_loop lib to_cs from_cs to_end nchars to1 (pos + m) src (i + n) ?wfe ?cce = Some (to', r)"
        "pos + m \<le> res r" "res r \<le> to_end" "length to' = length to1" "drop (res r) to' = drop (res r) to1"
        "i + n \<le> from_end_pos r" "from_end_pos r \<le> length src" by blast
      have "drop (res r) to' = drop (res r) to" using r(2,5) p(3) [of "res r"] m(3) by simp
      moreover have "nchars_loop lib to_cs from_cs to_end (Suc nchars) to pos src i wfe cce = Some (to', r)"
        using d n(2) e w t r(1) by (simp only: nchars_loop.simps option.case prod.case Let_def bind.bind_lunit not_less [symmetric] if_False)
      ultimately show ?thesis using r p(1) m(1) by (intro exI [of _ to'] exI [of _ r]) simp
    qed
  qed
qed simp

section \<open>Concrete character sets\<close>

text \<open>A set of one-byte characters, and one of two-byte characters.\<close>

definition sample_ctype :: ctype_lib where
  "sample_ctype = \<lparr>MY_CS_ILSEQ = 0, MY_CS_ILUNI = 0, MY_CS_TOOSMALL = - 101,
     dig_vec_upper = ''0123456789ABCDEFGHIJKLMNOPQRSTUVWXYZ'', charset_bin = 63\<rparr>"

definition latin :: charset where
  "latin = \<lparr>charset_id = 8, mbminlen = 1,
     mb_wc = (\<lambda>s. case s of [] \<Rightarrow> (- 101, 0) | c # _ \<Rightarrow> (1, of_nat (of_char c))),
     wc_mb = (\<lambda>wc n. if n = 0 then (- 101, []) else if wc < 256 then (1, [char_of (unat wc)]) else (0, [])),
     well_formed_len = (\<lambda>s n. (min (length s) n, False)), ismbchar = (\<lambda>_. 0)\<rparr>"

definition wide :: charset where
  "wide = latin\<lparr>charset_id := 35, mbminlen := 2, well_formed_len := (\<lambda>s n. (2 * min (length s div 2) n, False))\<rparr>"

lemma sample_ok: "ctype_ok sample_ctype" "charset_ok latin"
  by (auto simp: ctype_ok_def sample_ctype_def charset_ok_def latin_def split: list.splits if_splits)

theorem copy_and_convert_bounds_witness:
  "copy_and_convert sample_ctype (replicate 5 NUL) 2 latin ''abc'' latin = Some (''ab'' @ replicate 3 NUL, 2, 0) \<and>
   (\<exists>to' n e. copy_and_convert sample_ctype (replicate 5 NUL) 2 latin ''abc'' latin = Some (to', n, e) \<and> n \<le> 2)"
proof
  show "copy_and_convert sample_ctype (replicate 5 NUL) 2 latin ''abc'' latin = Some (''ab'' @ replicate 3 NUL, 2, 0)" by code_simp
  show "\<exists>to' n e. copy_and_convert sample_ctype (replicate 5 NUL) 2 latin ''abc'' latin = Some (to', n, e) \<and> n \<le> 2"
    using copy_and_convert_bounds [OF sample_ok(1,2,2), of 2 "replicate 5 NUL" "''abc''"] by auto
qed

theorem my_copy_with_hex_escaping_units_witness:
  "my_copy_with_hex_escaping sample_ctype latin (replicate 6 NUL) 6 [CHR ''a'', CHR 0xE4, CHR ''b'', CHR ''c''] =
     Some ([CHR ''a'', CHR 0x5C, CHR ''x'', CHR ''E'', CHR ''4'', CHR ''b''], 6)"
proof -
  have "concat (fitting 6 (units sample_ctype latin [CHR ''a'', CHR 0xE4, CHR ''b'', CHR ''c''])) =
    [CHR ''a'', CHR 0x5C, CHR ''x'', CHR ''E'', CHR ''4'', CHR ''b'']" by code_simp
  then show ?thesis
    using my_copy_with_hex_escaping_units [OF sample_ok, of 6 "replicate 6 NUL" "[CHR ''a'', CHR 0xE4, CHR ''b'', CHR ''c'']"]
    by (simp add: Let_def)
qed


text \<open>
  The returned number is not the length of the string when the source was cut; and the length
  that a copy between equal sets of wide characters returns counts bytes it did not write.
\<close>

lemma convert_to_printable_length:
  "convert_to_printable sample_ctype (replicate 8 NUL) 8 (Some [CHR ''a'', CHR ''b'', CHR ''c'', CHR ''d'', CHR 0xE4]) latin 0 =
     Some (''abcd...'' @ [NUL], 4)"
  by code_simp

lemma well_formed_copy_nchars_length:
  "map_option (\<lambda>(to, r). (to, res r))
     (well_formed_copy_nchars sample_ctype (\<lambda>_ _. False) wide (replicate 6 NUL) 6 wide ''abc'' 5) =
   Some (''ab'' @ replicate 4 NUL, 4)"
  by code_simp

end
