(* ===== verification/Library.thy ===== *)
theory Library
  imports Charset Options
begin

text \<open>
  The environment of the proxy, as parameters: the MySQL client library, its network layer, and
  the system calls, over a world of type \<open>'w\<close>. A connection of the library is a number. The
  record lists the functions that the code calls; the network layer reads and writes whole
  packets, which are lists of bytes. System calls and functions of the library that the code
  only calls for their effect go through one field, with their name and their arguments.

  \<open>codec_ok\<close> states what the documentation of the protocol says of packed lengths and of
  two-byte integers; theorems that need it have it as a hypothesis.
\<close>

type_synonym conn = nat

datatype ext_arg = Arg_int int | Arg_str string

text \<open>The errors that the proxy sends to its clients, and the commands it distinguishes.\<close>

datatype er_code =
  ER_SYNTAX_ERROR | ER_NOT_ALLOWED_COMMAND | ER_ERROR_WHEN_EXECUTING_COMMAND | ER_CANT_LOCK | ER_LOCK_WAIT_TIMEOUT
| ER_BAD_HOST_ERROR | ER_ERROR_DURING_COMMIT | ER_HANDSHAKE_ERROR

datatype server_command =
  COM_SLEEP | COM_QUIT | COM_INIT_DB | COM_QUERY | COM_PING | COM_PROXY_QUERY | COM_other

record 'w lib =
  call :: "string \<Rightarrow> ext_arg list \<Rightarrow> 'w \<Rightarrow> int \<times> 'w"
  mysql_init :: "'w \<Rightarrow> conn option \<times> 'w"
  mysql_reconnect :: "conn \<Rightarrow> 'w \<Rightarrow> 'w"
  mysql_real_connect :: "conn \<Rightarrow> string option \<Rightarrow> string option \<Rightarrow> string option \<Rightarrow> string option \<Rightarrow> int \<Rightarrow> string option \<Rightarrow> 'w \<Rightarrow> bool \<times> 'w"
  mysql_close :: "conn \<Rightarrow> 'w \<Rightarrow> 'w"
  mysql_autocommit :: "conn \<Rightarrow> bool \<Rightarrow> 'w \<Rightarrow> 'w"
  mysql_query :: "conn \<Rightarrow> string \<Rightarrow> 'w \<Rightarrow> bool \<times> 'w"
  mysql_send_query :: "conn \<Rightarrow> string \<Rightarrow> 'w \<Rightarrow> 'w"
  simple_command :: "conn \<Rightarrow> int \<Rightarrow> string \<Rightarrow> 'w \<Rightarrow> 'w"
  mysql_errno :: "conn \<Rightarrow> 'w \<Rightarrow> int"
  mysql_error :: "conn \<Rightarrow> 'w \<Rightarrow> string"
  conn_host :: "conn \<Rightarrow> 'w \<Rightarrow> string"
  conn_port :: "conn \<Rightarrow> 'w \<Rightarrow> int"
  field_count :: "conn \<Rightarrow> 'w \<Rightarrow> nat"
  server_status :: "conn \<Rightarrow> 'w \<Rightarrow> int"
  net_vio :: "conn \<Rightarrow> 'w \<Rightarrow> bool"
  net_error :: "conn \<Rightarrow> 'w \<Rightarrow> bool"
  my_net_read :: "conn \<Rightarrow> 'w \<Rightarrow> string option \<times> 'w"
  my_net_write :: "conn \<Rightarrow> string \<Rightarrow> 'w \<Rightarrow> bool \<times> 'w"
  net_write_command :: "conn \<Rightarrow> char \<Rightarrow> string \<Rightarrow> 'w \<Rightarrow> bool \<times> 'w"
  net_flush :: "conn \<Rightarrow> 'w \<Rightarrow> bool \<times> 'w"
  net_store_length :: "ulong \<Rightarrow> string"
  net_field_length :: "string \<Rightarrow> ulong \<times> nat"
  NULL_LENGTH :: ulong
  int2store :: "int \<Rightarrow> string"
  int4store :: "int \<Rightarrow> string"
  uint2korr :: "string \<Rightarrow> int"
  MYSQL_ERRMSG_SIZE :: nat
  er :: "er_code \<Rightarrow> int"
  command_of :: "char \<Rightarrow> server_command"
  COM_END :: int
  system_charset_number :: int
  FIELD_TYPE_VAR_STRING :: char
  NOT_NULL_FLAG :: int

text \<open>
  Packed lengths take one to nine bytes and are read back; two-byte integers take two bytes and
  are read back modulo 65536; four-byte integers take four bytes. The byte 251 stands for NULL,
  which the library reports as the largest number.
\<close>

definition codec_ok :: "'w lib \<Rightarrow> bool" where
  "codec_ok lib \<longleftrightarrow>
     (\<forall>n rest. net_field_length lib (net_store_length lib n @ rest) = (n, length (net_store_length lib n))) \<and>
     (\<forall>n. 1 \<le> length (net_store_length lib n) \<and> length (net_store_length lib n) \<le> 9) \<and>
     (\<forall>n. length (int2store lib n) = 2) \<and> (\<forall>n. length (int4store lib n) = 4) \<and>
     (\<forall>n rest. uint2korr lib (int2store lib n @ rest) = n mod 65536) \<and>
     NULL_LENGTH lib = - 1 \<and> (\<forall>rest. net_field_length lib (CHR 0xFB # rest) = (NULL_LENGTH lib, 1))"

text \<open>The error packets and the results of a query have a first byte that tells them apart.\<close>

definition ERR_BYTE :: char where "ERR_BYTE = CHR 0xFF"
definition EOF_BYTE :: char where "EOF_BYTE = CHR 0xFE"

end
