(* ===== verification/Script.thy ===== *)
theory Script
  imports Library
begin

text \<open>
  An executable environment for concrete runs: packets are read from and written to queues, one
  pair for each connection, queries and system calls are logged, connections get increasing
  numbers, and lengths and integers have the encoding of the protocol. It shows that the
  hypotheses on the environment can be met, and the examples of the other theories run in it.
\<close>

section \<open>Encodings\<close>

fun le_bytes :: "nat \<Rightarrow> nat \<Rightarrow> string" where
  "le_bytes 0 n = []"
| "le_bytes (Suc k) n = char_of (n mod 256) # le_bytes k (n div 256)"

fun le_value :: "string \<Rightarrow> nat" where
  "le_value [] = 0"
| "le_value (c # cs) = of_char c + 256 * le_value cs"

lemma le_bytes_length [simp]: "length (le_bytes k n) = k"
  by (induction k arbitrary: n) simp_all

lemma le_value_bytes: "le_value (le_bytes k n) = n mod 256 ^ k"
proof (induction k arbitrary: n)
  case (Suc k)
  have "(of_char (char_of (n mod 256) :: char) :: nat) = n mod 256" by (simp add: of_char_of)
  then show ?case using Suc [of "n div 256"] by (simp add: mod_mult2_eq)
qed simp

definition script_store_length :: "ulong \<Rightarrow> string" where
  "script_store_length n = (if n < 251 then [char_of (unat n)] else EOF_BYTE # le_bytes 8 (unat n))"

definition script_field_length :: "string \<Rightarrow> ulong \<times> nat" where
  "script_field_length s =
     (case s of
        [] \<Rightarrow> (0, 1)
      | c # cs \<Rightarrow>
          if c = CHR 0xFB then (- 1, 1)
          else if c = EOF_BYTE then (of_nat (le_value (take 8 cs)), 9)
          else (of_nat (of_char c), 1))"

section \<open>The environment\<close>

record script =
  in_packets :: "conn \<Rightarrow> string list"
  out_packets :: "conn \<Rightarrow> string list"
  query_log :: "(conn \<times> string) list"
  call_log :: "string list"
  next_conn :: conn

definition script_world :: "(conn \<Rightarrow> string list) \<Rightarrow> script" where
  "script_world inp = \<lparr>in_packets = inp, out_packets = (\<lambda>_. []), query_log = [], call_log = [], next_conn = 10\<rparr>"

definition script_write :: "conn \<Rightarrow> string \<Rightarrow> script \<Rightarrow> bool \<times> script" where
  "script_write c p w = (False, w\<lparr>out_packets := (out_packets w)(c := out_packets w c @ [p])\<rparr>)"

definition script_query :: "conn \<Rightarrow> string \<Rightarrow> script \<Rightarrow> script" where
  "script_query c q w = w\<lparr>query_log := query_log w @ [(c, q)]\<rparr>"

fun er_number :: "er_code \<Rightarrow> int" where
  "er_number ER_SYNTAX_ERROR = 1149"
| "er_number ER_NOT_ALLOWED_COMMAND = 1148"
| "er_number ER_ERROR_WHEN_EXECUTING_COMMAND = 1220"
| "er_number ER_CANT_LOCK = 1015"
| "er_number ER_LOCK_WAIT_TIMEOUT = 1205"
| "er_number ER_BAD_HOST_ERROR = 1042"
| "er_number ER_ERROR_DURING_COMMIT = 1180"
| "er_number ER_HANDSHAKE_ERROR = 1043"

definition script_command :: "char \<Rightarrow> server_command" where
  "script_command c =
     (let n = of_char c :: nat in
      if n = 0 then COM_SLEEP else if n = 1 then COM_QUIT else if n = 2 then COM_INIT_DB else if n = 3 then COM_QUERY
      else if n = 14 then COM_PING else if n = 30 then COM_PROXY_QUERY else COM_other)"

definition script_lib :: "script lib" where
  "script_lib =
     \<lparr>call = (\<lambda>name args w. (0, w\<lparr>call_log := call_log w @ [name]\<rparr>)),
      mysql_init = (\<lambda>w. (Some (next_conn w), w\<lparr>next_conn := Suc (next_conn w)\<rparr>)),
      mysql_reconnect = (\<lambda>c w. w),
      mysql_real_connect = (\<lambda>c h u p d port s w. (True, w)),
      mysql_close = (\<lambda>c w. w),
      mysql_autocommit = (\<lambda>c b w. w),
      mysql_query = (\<lambda>c q w. (False, script_query c q w)),
      mysql_send_query = script_query,
      simple_command = (\<lambda>c n q w. script_query c q w),
      mysql_errno = (\<lambda>c w. 0),
      mysql_error = (\<lambda>c w. []),
      conn_host = (\<lambda>c w. ''127.0.0.1''),
      conn_port = (\<lambda>c w. 3306),
      field_count = (\<lambda>c w. 0),
      server_status = (\<lambda>c w. 2),
      net_vio = (\<lambda>c w. True),
      net_error = (\<lambda>c w. False),
      my_net_read = (\<lambda>c w. case in_packets w c of [] \<Rightarrow> (None, w) | p # ps \<Rightarrow> (Some p, w\<lparr>in_packets := (in_packets w)(c := ps)\<rparr>)),
      my_net_write = script_write,
      net_write_command = (\<lambda>c k p w. script_write c (k # p) w),
      net_flush = (\<lambda>c w. (False, w)),
      net_store_length = script_store_length,
      net_field_length = script_field_length,
      NULL_LENGTH = - 1,
      int2store = (\<lambda>n. le_bytes 2 (nat (n mod 65536))),
      int4store = (\<lambda>n. le_bytes 4 (nat (n mod 4294967296))),
      uint2korr = (\<lambda>s. int (le_value (take 2 s))),
      MYSQL_ERRMSG_SIZE = 512,
      er = er_number,
      command_of = script_command,
      COM_END = 29,
      system_charset_number = 33,
      FIELD_TYPE_VAR_STRING = CHR 0xFD,
      NOT_NULL_FLAG = 1\<rparr>"

lemma script_codec_ok: "codec_ok script_lib"
proof -
  have "script_field_length (script_store_length n @ rest) = (n, length (script_store_length n))" for n rest
  proof (cases "n < 251")
    case True
    then have u: "unat n < 251" by (simp add: word_less_nat_alt)
    have c: "(of_char (char_of (unat n) :: char) :: nat) = unat n" using u by (simp add: of_char_of)
    have "char_of (unat n) \<noteq> CHR 0xFB" "char_of (unat n) \<noteq> EOF_BYTE"
      using c u by (auto simp: EOF_BYTE_def dest: arg_cong [of _ _ "of_char :: char \<Rightarrow> nat"])
    then show ?thesis using True c by (simp add: script_field_length_def script_store_length_def)
  next
    case False
    have "unat n < 256 ^ 8" using unsigned_less [of n] by simp
    then have "of_nat (le_value (le_bytes 8 (unat n))) = n" by (simp add: le_value_bytes del: le_bytes.simps)
    then show ?thesis using False
      by (simp add: script_field_length_def script_store_length_def EOF_BYTE_def del: le_bytes.simps)
  qed
  moreover have "int (le_value (take 2 (le_bytes 2 (nat (k mod 65536)) @ rest))) = k mod 65536" for k rest
    by (simp add: le_value_bytes del: le_bytes.simps)
  ultimately show ?thesis
    by (auto simp: codec_ok_def script_lib_def script_store_length_def script_field_length_def simp del: le_bytes.simps)
qed

end
