(* ===== verification/Forward.thy ===== *)
theory Forward
  imports Net Script
begin

text \<open>
  Forwarding the answer of a backend to a client (\<open>src/proxy_backend.c\<close>: \<open>backend_proxy_write\<close>,
  \<open>backend_read_to_proxy\<close>, \<open>backend_read_rows\<close>). A packet that was read stays in the buffer of
  the connection, where it is followed by a NUL that the library adds; reading behind it is
  undefined. The loop over the rows ends with the packet that marks the end, so it is a partial
  function.

  \<open>net_ok\<close> states what the network layer of the library does while its connections are open:
  packets are read in the order in which they arrive and written in the order of the calls. Under
  this hypothesis the theory shows that a result set without NULL values is forwarded packet by
  packet, and that a row with a NULL value is taken for a malformed one.
\<close>

section \<open>Operations\<close>

definition MAX_PACKET_LENGTH :: ulong where "MAX_PACKET_LENGTH = 256 * 256 * 256 - 1"

definition backend_proxy_write ::
  "'w lib \<Rightarrow> string \<Rightarrow> conn option \<Rightarrow> status_t \<Rightarrow> 'w \<Rightarrow> bool \<times> status_t \<times> 'w" where
  "backend_proxy_write lib packet proxy st w =
     (case proxy of
        None \<Rightarrow> (False, st, w)
      | Some c \<Rightarrow>
          let (error, w) = my_net_write lib c packet w
          in if error then (True, st, w) else (False, sent (length packet) st, w))"

text \<open>The packet that was read, or \<open>None\<close> for \<open>packet_error\<close>.\<close>

definition backend_read_to_proxy ::
  "'w lib \<Rightarrow> conn \<Rightarrow> conn option \<Rightarrow> status_t \<Rightarrow> 'w \<Rightarrow> string option \<times> status_t \<times> 'w" where
  "backend_read_to_proxy lib backend proxy st w =
     (if \<not> net_vio lib backend w then (None, st, w)
      else
        case my_net_read lib backend w of
          (None, w) \<Rightarrow> (None, st, w)
        | (Some packet, w) \<Rightarrow>
            if packet = [] then (None, st, w)
            else if hd packet = ERR_BYTE \<and> length packet \<le> 3 then (None, st, w)
            else let (_, st, w) = backend_proxy_write lib packet proxy st w in (Some packet, st, w))"

text \<open>
  The walk over the fields of a row: \<open>cp\<close> is the offset in the packet. The result says whether
  the row is well formed.
\<close>

fun skip_fields :: "'w lib \<Rightarrow> string \<Rightarrow> nat \<Rightarrow> nat \<Rightarrow> bool option" where
  "skip_fields lib packet 0 cp = Some True"
| "skip_fields lib packet (Suc nf) cp =
     (let buff = packet @ [NUL]; (len, used) = net_field_length lib (drop cp buff)
      in if cp + used > length buff then None
         else if len > of_nat (length packet) - 1 then Some False
         else skip_fields lib packet nf (if len \<noteq> NULL_LENGTH lib then cp + used + unat len else cp + used))"

partial_function (option) read_rows_loop ::
  "'w lib \<Rightarrow> conn \<Rightarrow> conn option \<Rightarrow> nat \<Rightarrow> string \<Rightarrow> ulong \<Rightarrow> status_t \<Rightarrow> 'w \<Rightarrow> (bool \<times> status_t \<times> 'w) option" where
  "read_rows_loop lib backend proxy nf packet total_len st w =
     (if hd packet = EOF_BYTE \<and> length packet < 8 then
        let (_, w) = proxy_net_flush lib proxy w in Some (False, st, w)
      else do {
        well_formed \<leftarrow> skip_fields lib packet nf 0;
        if \<not> well_formed then Some (True, st, w)
        else
          case backend_read_to_proxy lib backend proxy st w of
            (None, st, w) \<Rightarrow> Some (True, st, w)
          | (Some packet, st, w) \<Rightarrow>
              let total_len = total_len + of_nat (length packet)
              in if total_len \<ge> MAX_PACKET_LENGTH then
                   let (_, w) = proxy_net_flush lib proxy w in read_rows_loop lib backend proxy nf packet 0 st w
                 else read_rows_loop lib backend proxy nf packet total_len st w })"

definition backend_read_rows ::
  "'w lib \<Rightarrow> conn \<Rightarrow> conn option \<Rightarrow> nat \<Rightarrow> status_t \<Rightarrow> 'w \<Rightarrow> (bool \<times> status_t \<times> 'w) option" where
  "backend_read_rows lib backend proxy nf st w =
     (case backend_read_to_proxy lib backend proxy st w of
        (None, st, w) \<Rightarrow> Some (True, st, w)
      | (Some packet, st, w) \<Rightarrow> read_rows_loop lib backend proxy nf packet 0 st w)"

section \<open>The network layer\<close>

text \<open>
  The packets that wait to be read on a connection and those written to it, as functions of the
  world.
\<close>

definition net_ok :: "'w lib \<Rightarrow> ('w \<Rightarrow> conn \<Rightarrow> string list) \<Rightarrow> ('w \<Rightarrow> conn \<Rightarrow> string list) \<Rightarrow> bool" where
  "net_ok lib inb outb \<longleftrightarrow>
     (\<forall>w c. net_vio lib c w) \<and>
     (\<forall>w c p ps. inb w c = p # ps \<longrightarrow>
        (\<exists>w'. my_net_read lib c w = (Some p, w') \<and> inb w' = (inb w)(c := ps) \<and> outb w' = outb w)) \<and>
     (\<forall>w c p. \<exists>w'. my_net_write lib c p w = (False, w') \<and> inb w' = inb w \<and> outb w' = (outb w)(c := outb w c @ [p])) \<and>
     (\<forall>w c k p. \<exists>w'. net_write_command lib c k p w = (False, w') \<and> inb w' = inb w \<and> outb w' = (outb w)(c := outb w c @ [k # p])) \<and>
     (\<forall>w c. \<exists>w'. net_flush lib c w = (False, w') \<and> inb w' = inb w \<and> outb w' = outb w)"

lemma net_okD:
  assumes "net_ok lib inb outb"
  shows "net_vio lib c w"
    and "inb w c = p # ps \<Longrightarrow> \<exists>w'. my_net_read lib c w = (Some p, w') \<and> inb w' = (inb w)(c := ps) \<and> outb w' = outb w"
    and "\<exists>w'. my_net_write lib c p w = (False, w') \<and> inb w' = inb w \<and> outb w' = (outb w)(c := outb w c @ [p])"
    and "\<exists>w'. net_write_command lib c k p w = (False, w') \<and> inb w' = inb w \<and> outb w' = (outb w)(c := outb w c @ [k # p])"
    and "\<exists>w'. net_flush lib c w = (False, w') \<and> inb w' = inb w \<and> outb w' = outb w"
  using assms unfolding net_ok_def by simp_all

lemma proxy_net_flush_ok:
  assumes "net_ok lib inb outb"
  shows "\<exists>w'. proxy_net_flush lib proxy w = (False, w') \<and> inb w' = inb w \<and> outb w' = outb w"
  using net_okD(5) [OF assms] by (cases proxy) (simp_all add: proxy_net_flush_def)

section \<open>Result sets\<close>

text \<open>A packet that is neither refused nor taken for the end of the result.\<close>

definition row_packet :: "string \<Rightarrow> bool" where
  "row_packet p \<longleftrightarrow> p \<noteq> [] \<and> (hd p = ERR_BYTE \<longrightarrow> 3 < length p) \<and> (hd p = EOF_BYTE \<longrightarrow> 8 \<le> length p)"

definition eof_packet :: "string \<Rightarrow> bool" where
  "eof_packet p \<longleftrightarrow> p \<noteq> [] \<and> hd p = EOF_BYTE \<and> length p < 8"

lemma backend_read_to_proxy_ok:
  assumes "net_ok lib inb outb" "inb w b = p # ps" "row_packet p \<or> eof_packet p" "b \<noteq> c"
  shows "\<exists>w'. backend_read_to_proxy lib b (Some c) st w = (Some p, sent (length p) st, w') \<and>
    inb w' = (inb w)(b := ps) \<and> outb w' = (outb w)(c := outb w c @ [p])"
proof -
  obtain w1 where 1: "my_net_read lib b w = (Some p, w1)" "inb w1 = (inb w)(b := ps)" "outb w1 = outb w"
    using net_okD(2) [of lib inb outb, OF assms(1,2)] by blast
  obtain w2 where 2: "my_net_write lib c p w1 = (False, w2)" "inb w2 = inb w1" "outb w2 = (outb w1)(c := outb w1 c @ [p])"
    using net_okD(3) [of lib inb outb, OF assms(1)] by blast
  have "p \<noteq> [] \<and> \<not> (hd p = ERR_BYTE \<and> length p \<le> 3)"
    using assms(3) by (auto simp: row_packet_def eof_packet_def ERR_BYTE_def EOF_BYTE_def)
  then show ?thesis using 1 2 net_okD(1) [OF assms(1)] by (auto simp: backend_read_to_proxy_def backend_proxy_write_def)
qed

text \<open>The bytes of a list of packets.\<close>

abbreviation bytes_of :: "string list \<Rightarrow> nat" where
  "bytes_of ps \<equiv> sum_list (map length ps)"

lemma sent_sent: "sent n (sent m st) = sent (m + n) st"
  by (simp add: add.assoc)

abbreviation good_row :: "'w lib \<Rightarrow> nat \<Rightarrow> string \<Rightarrow> bool" where
  "good_row lib nf p \<equiv> row_packet p \<and> skip_fields lib p nf 0 = Some True"

lemma read_rows_loop_step:
  assumes "net_ok lib inb outb" "b \<noteq> c" "good_row lib nf p" "inb w b = q # rest" "row_packet q \<or> eof_packet q"
  shows "\<exists>t w'. read_rows_loop lib b (Some c) nf p tot st w = read_rows_loop lib b (Some c) nf q t (sent (length q) st) w' \<and>
    inb w' = (inb w)(b := rest) \<and> outb w' = (outb w)(c := outb w c @ [q])"
proof -
  obtain w1 where 1: "backend_read_to_proxy lib b (Some c) st w = (Some q, sent (length q) st, w1)"
    "inb w1 = (inb w)(b := rest)" "outb w1 = (outb w)(c := outb w c @ [q])"
    using backend_read_to_proxy_ok [OF assms(1,4,5,2)] by blast
  obtain w2 where 2: "proxy_net_flush lib (Some c) w1 = (False, w2)" "inb w2 = inb w1" "outb w2 = outb w1"
    using proxy_net_flush_ok [OF assms(1)] by blast
  have p: "(hd p = EOF_BYTE \<and> length p < 8) = False" using assms(3) by (auto simp: row_packet_def)
  have "read_rows_loop lib b (Some c) nf p tot st w =
    (if tot + of_nat (length q) \<ge> MAX_PACKET_LENGTH then read_rows_loop lib b (Some c) nf q 0 (sent (length q) st) w2
     else read_rows_loop lib b (Some c) nf q (tot + of_nat (length q)) (sent (length q) st) w1)"
    using assms(3) 1(1) 2(1) by (subst read_rows_loop.simps) (simp only: p if_False, simp)
  with 1 2 show ?thesis by (cases "tot + of_nat (length q) \<ge> MAX_PACKET_LENGTH") auto
qed

lemma read_rows_loop_steps:
  assumes "net_ok lib inb outb" "b \<noteq> c" "row_packet q \<or> eof_packet q" "list_all (good_row lib nf) (p # rows)"
    "inb w b = rows @ q # rest"
  shows "\<exists>t w'. read_rows_loop lib b (Some c) nf p tot st w =
      read_rows_loop lib b (Some c) nf q t (sent (bytes_of rows + length q) st) w' \<and>
    inb w' = (inb w)(b := rest) \<and> outb w' = (outb w)(c := outb w c @ rows @ [q])"
  using assms(4,5)
proof (induction rows arbitrary: p tot st w)
  case Nil
  then show ?case using read_rows_loop_step [OF assms(1,2) _ _ assms(3), where nf = nf and p = p and w = w and rest = rest and tot = tot and st = st] by (simp add: fun_upd_def)
next
  case (Cons r rows)
  from read_rows_loop_step [OF assms(1,2), where nf = nf and p = p and w = w and q = r and rest = "rows @ q # rest" and tot = tot and st = st] Cons.prems
  obtain t w1 where 1: "read_rows_loop lib b (Some c) nf p tot st w = read_rows_loop lib b (Some c) nf r t (sent (length r) st) w1"
    "inb w1 = (inb w)(b := rows @ q # rest)" "outb w1 = (outb w)(c := outb w c @ [r])" by auto
  from Cons.IH [of r w1 t "sent (length r) st"] 1 Cons.prems(1) show ?case
    by (simp add: add.assoc fun_upd_def cong: if_cong)
qed

lemma backend_read_rows_steps:
  assumes "net_ok lib inb outb" "b \<noteq> c" "row_packet q \<or> eof_packet q" "list_all (good_row lib nf) rows" "inb w b = rows @ q # rest"
  shows "\<exists>t w'. backend_read_rows lib b (Some c) nf st w =
      read_rows_loop lib b (Some c) nf q t (sent (bytes_of rows + length q) st) w' \<and>
    inb w' = (inb w)(b := rest) \<and> outb w' = (outb w)(c := outb w c @ rows @ [q])"
proof (cases rows)
  case Nil
  then obtain w1 where "backend_read_to_proxy lib b (Some c) st w = (Some q, sent (length q) st, w1)"
    "inb w1 = (inb w)(b := rest)" "outb w1 = (outb w)(c := outb w c @ [q])"
    using backend_read_to_proxy_ok [OF assms(1) _ assms(3,2), of w rest st] assms(5) by auto
  then show ?thesis using Nil by (intro exI [of _ 0] exI [of _ w1]) (simp add: backend_read_rows_def)
next
  case (Cons r rs)
  then obtain w1 where 1: "backend_read_to_proxy lib b (Some c) st w = (Some r, sent (length r) st, w1)"
    "inb w1 = (inb w)(b := rs @ q # rest)" "outb w1 = (outb w)(c := outb w c @ [r])"
    using backend_read_to_proxy_ok [OF assms(1) _ _ assms(2), of w r "rs @ q # rest" st] assms(4,5) by auto
  from read_rows_loop_steps [OF assms(1-3), of nf r rs w1 rest 0 "sent (length r) st"] 1 assms(4) Cons show ?thesis
    by (simp add: backend_read_rows_def add.assoc fun_upd_def cong: if_cong)
qed

lemma backend_read_rows_good:
  assumes "net_ok lib inb outb" "b \<noteq> c" "eof_packet e" "list_all (good_row lib nf) rows" "inb w b = rows @ e # rest"
  shows "\<exists>w'. backend_read_rows lib b (Some c) nf st w = Some (False, sent (bytes_of rows + length e) st, w') \<and>
    inb w' = (inb w)(b := rest) \<and> outb w' = (outb w)(c := outb w c @ rows @ [e])"
proof -
  from backend_read_rows_steps [OF assms(1,2) _ assms(4,5), of st] assms(3)
  obtain t w1 where 1: "backend_read_rows lib b (Some c) nf st w =
      read_rows_loop lib b (Some c) nf e t (sent (bytes_of rows + length e) st) w1"
    "inb w1 = (inb w)(b := rest)" "outb w1 = (outb w)(c := outb w c @ rows @ [e])" by auto
  obtain w2 where 2: "proxy_net_flush lib (Some c) w1 = (False, w2)" "inb w2 = inb w1" "outb w2 = outb w1"
    using proxy_net_flush_ok [OF assms(1)] by blast
  have "hd e = EOF_BYTE \<and> length e < 8" using assms(3) by (simp add: eof_packet_def)
  then have "read_rows_loop lib b (Some c) nf e t st' w1 = Some (False, st', w2)" for st'
    using 2(1) by (subst read_rows_loop.simps) simp
  with 1 2 show ?thesis by (intro exI [of _ w2]) simp
qed

section \<open>Rows of values\<close>

text \<open>A row of values that are not NULL, as the protocol encodes it.\<close>

definition encode_row :: "'w lib \<Rightarrow> string list \<Rightarrow> string" where
  "encode_row lib vs = concat (map (net_store_data lib) vs)"

lemma codec_okD:
  assumes "codec_ok lib"
  shows "net_field_length lib (net_store_length lib n @ rest) = (n, length (net_store_length lib n))"
    and "1 \<le> length (net_store_length lib n)" "length (net_store_length lib n) \<le> 9"
    and "NULL_LENGTH lib = - 1" "net_field_length lib (CHR 0xFB # rest) = (- 1, 1)"
    and "length (int2store lib k) = 2" "uint2korr lib (int2store lib k @ rest) = k mod 65536"
  using assms unfolding codec_ok_def by simp_all

lemma unat_ulong: "n < 2 ^ 64 \<Longrightarrow> unat (of_nat n :: ulong) = n"
  by (simp add: unsigned_of_nat take_bit_nat_eq_self)

lemma unat_ulong_pred: "0 < n \<Longrightarrow> n < 2 ^ 64 \<Longrightarrow> unat (of_nat n - 1 :: ulong) = n - 1"
  using unat_ulong [of "n - 1"] by (simp add: of_nat_diff)

lemma unat_max: "unat (- 1 :: ulong) = 2 ^ 64 - 1"
  by (simp add: unsigned_minus_1_eq_mask mask_eq_exp_minus_1)

lemma short_length:
  assumes "n < m" "m < 2 ^ 64"
  shows "\<not> (of_nat n :: ulong) > of_nat m - 1" "(of_nat n :: ulong) \<noteq> - 1" "unat (of_nat n :: ulong) = n"
proof -
  have n: "unat (of_nat n :: ulong) = n" using assms unat_ulong [of n] by simp
  show "\<not> (of_nat n :: ulong) > of_nat m - 1" using n assms unat_ulong_pred [of m] by (simp add: word_less_nat_alt)
  show "(of_nat n :: ulong) \<noteq> - 1"
  proof
    assume "(of_nat n :: ulong) = - 1"
    then have "unat (of_nat n :: ulong) = unat (- 1 :: ulong)" by (rule arg_cong)
    then show False using assms n unat_max by simp
  qed
  show "unat (of_nat n :: ulong) = n" by (fact n)
qed

text \<open>The walk over the fields passes over the values of a row.\<close>

lemma skip_fields_values:
  assumes "codec_ok lib" "length (pre @ encode_row lib vs @ post) < 2 ^ 64"
  shows "skip_fields lib (pre @ encode_row lib vs @ post) (length vs + n) (length pre) =
    skip_fields lib (pre @ encode_row lib vs @ post) n (length (pre @ encode_row lib vs))"
  using assms(2)
proof (induction vs arbitrary: pre)
  case Nil
  then show ?case by (simp add: encode_row_def)
next
  case (Cons v vs)
  let ?L = "net_store_length lib (of_nat (length v))" and ?p = "pre @ encode_row lib (v # vs) @ post"
  have p: "?p = pre @ ?L @ v @ encode_row lib vs @ post" by (simp add: encode_row_def net_store_data_def)
  have v: "length v < length ?p" using codec_okD(2) [OF assms(1), of "of_nat (length v)"] by (auto simp: p)
  have f: "net_field_length lib (drop (length pre) (?p @ [NUL])) = (of_nat (length v), length ?L)"
    using codec_okD(1) [OF assms(1), of "of_nat (length v)" "v @ encode_row lib vs @ post @ [NUL]"] by (simp add: p)
  note w = short_length [OF v Cons.prems]
  have "skip_fields lib ?p (Suc (length vs + n)) (length pre) = skip_fields lib ?p (length vs + n) (length pre + length ?L + length v)"
    using f w codec_okD(4) [OF assms(1)] by (simp add: p)
  with Cons.IH [of "pre @ ?L @ v"] Cons.prems show ?case by (simp add: p encode_row_def net_store_data_def add.assoc)
qed

lemma skip_fields_row: "codec_ok lib \<Longrightarrow> length (encode_row lib vs) < 2 ^ 64 \<Longrightarrow> skip_fields lib (encode_row lib vs) (length vs) 0 = Some True"
  using skip_fields_values [of lib "[]" vs "[]" 0] by simp

lemma skip_fields_null:
  assumes "codec_ok lib" "length (encode_row lib vs @ CHR 0xFB # post) < 2 ^ 64"
  shows "skip_fields lib (encode_row lib vs @ CHR 0xFB # post) (length vs + Suc n) 0 = Some False"
proof -
  let ?p = "encode_row lib vs @ CHR 0xFB # post"
  have "unat (of_nat (length ?p) - 1 :: ulong) = length ?p - 1" by (rule unat_ulong_pred) (use assms(2) in simp_all)
  then have "(- 1 :: ulong) > of_nat (length ?p) - 1" using assms(2) unat_max by (simp add: word_less_nat_alt)
  then have "skip_fields lib ?p (Suc n) (length (encode_row lib vs)) = Some False"
    using codec_okD(5) [OF assms(1), of "post @ [NUL]"] by simp
  then show ?thesis using skip_fields_values [of lib "[]" vs "CHR 0xFB # post" "Suc n"] assms by simp
qed

section \<open>Properties\<close>

text \<open>
  C26: rows of values that are not NULL are forwarded to the client packet by packet, in order and
  unchanged, with the packet that ends the result; nothing behind it is read, the counter of sent
  bytes grows by what was sent, and the operation returns without error.
\<close>

theorem backend_read_rows_forwards:
  assumes "net_ok lib inb outb" "codec_ok lib" "b \<noteq> c" "eof_packet e"
    "list_all (\<lambda>vs. length vs = nf \<and> row_packet (encode_row lib vs) \<and> length (encode_row lib vs) < 2 ^ 64) rows"
    "inb w b = map (encode_row lib) rows @ e # rest"
  shows "\<exists>w'. backend_read_rows lib b (Some c) nf st w = Some (False, sent (bytes_of (map (encode_row lib) rows @ [e])) st, w') \<and>
    outb w' = (outb w)(c := outb w c @ map (encode_row lib) rows @ [e]) \<and> inb w' = (inb w)(b := rest)"
proof -
  have good: "list_all (good_row lib nf) (map (encode_row lib) rows)"
    using assms(5) skip_fields_row [OF assms(2)] by (auto simp: list_all_iff)
  from backend_read_rows_good [OF assms(1,3,4) good assms(6), of st] show ?thesis by (auto simp: add.commute)
qed

text \<open>
  A row with a NULL value among the fields that the caller counts is taken for a malformed
  one: it is still forwarded, but then the operation returns with an error, and the rows behind it and the end of the result stay unread
  on the connection to the backend.
\<close>

theorem backend_read_rows_null_value:
  assumes "net_ok lib inb outb" "codec_ok lib" "b \<noteq> c" "length vs < nf"
    "row_packet (encode_row lib vs @ CHR 0xFB # post)" "length (encode_row lib vs @ CHR 0xFB # post) < 2 ^ 64"
    "inb w b = (encode_row lib vs @ CHR 0xFB # post) # rest"
  shows "\<exists>st' w'. backend_read_rows lib b (Some c) nf st w = Some (True, st', w') \<and>
    outb w' = (outb w)(c := outb w c @ [encode_row lib vs @ CHR 0xFB # post]) \<and> inb w' = (inb w)(b := rest)"
proof -
  let ?p = "encode_row lib vs @ CHR 0xFB # post"
  from backend_read_rows_steps [OF assms(1,3), of ?p nf "[]" w rest st] assms(5,7)
  obtain t w1 where 1: "backend_read_rows lib b (Some c) nf st w = read_rows_loop lib b (Some c) nf ?p t (sent (length ?p) st) w1"
    "inb w1 = (inb w)(b := rest)" "outb w1 = (outb w)(c := outb w c @ [?p])" by auto
  have p: "(hd ?p = EOF_BYTE \<and> length ?p < 8) = False" using assms(5) by (auto simp: row_packet_def)
  have "skip_fields lib ?p nf 0 = Some False"
    using skip_fields_null [OF assms(2,6), of "nf - Suc (length vs)"] assms(4) by simp
  then have "read_rows_loop lib b (Some c) nf ?p t st' w1 = Some (True, st', w1)" for st'
    by (subst read_rows_loop.simps) (simp only: p if_False, simp)
  with 1 show ?thesis by auto
qed

section \<open>Concrete runs\<close>

lemma script_net_ok: "net_ok script_lib in_packets out_packets"
  by (simp add: net_ok_def script_lib_def script_write_def)

definition eof :: string where "eof = EOF_BYTE # replicate 4 NUL"

definition no_status :: status_t where
  "no_status = \<lparr>bytes_recv = 0, bytes_sent = 0, queries = 0, queries_any = 0, queries_all = 0\<rparr>"

theorem backend_read_rows_forwards_witness:
  "let ps = map (encode_row script_lib) [[''a'', ''bc''], [''d'', []]] @ [eof]; w = script_world ((\<lambda>_. [])(1 := ps @ [''next'']))
   in \<exists>w'. backend_read_rows script_lib 1 (Some 0) 2 no_status w = Some (False, sent 13 no_status, w') \<and>
     out_packets w' 0 = ps \<and> in_packets w' 1 = [''next'']"
proof -
  let ?rows = "[[''a'', ''bc''], [''d'', []]]"
  let ?ps = "map (encode_row script_lib) ?rows"
  let ?w = "script_world ((\<lambda>_. [])(1 := (?ps @ [eof]) @ [''next'']))"
  have good: "list_all (\<lambda>vs. length vs = 2 \<and> row_packet (encode_row script_lib vs) \<and> length (encode_row script_lib vs) < 2 ^ 64) ?rows"
    by (simp add: row_packet_def encode_row_def net_store_data_def script_lib_def script_store_length_def ERR_BYTE_def EOF_BYTE_def char_of_def)
  have size: "bytes_of (?ps @ [eof]) = 13"
    by (simp add: encode_row_def net_store_data_def script_lib_def script_store_length_def eof_def)
  have e: "eof_packet eof" by (simp add: eof_packet_def eof_def)
  have i: "in_packets ?w 1 = ?ps @ eof # [''next'']" by (simp add: script_world_def)
  obtain w' where "backend_read_rows script_lib 1 (Some 0) 2 no_status ?w = Some (False, sent (bytes_of (?ps @ [eof])) no_status, w')"
    "out_packets w' = (out_packets ?w)(0 := out_packets ?w 0 @ ?ps @ [eof])" "in_packets w' = (in_packets ?w)(1 := [''next''])"
    using backend_read_rows_forwards [OF script_net_ok script_codec_ok _ e good i, of 0 no_status] by auto
  then show ?thesis unfolding Let_def size by (intro exI [of _ w']) (simp add: script_world_def)
qed

theorem backend_read_rows_null_value_witness:
  "let p = encode_row script_lib [''a''] @ [CHR 0xFB]; rest = [encode_row script_lib [''b'', ''c''], eof];
       w = script_world ((\<lambda>_. [])(1 := p # rest))
   in \<exists>st' w'. backend_read_rows script_lib 1 (Some 0) 2 no_status w = Some (True, st', w') \<and>
     out_packets w' 0 = [p] \<and> in_packets w' 1 = rest"
proof -
  let ?p = "encode_row script_lib [''a''] @ [CHR 0xFB]" and ?rest = "[encode_row script_lib [''b'', ''c''], eof]"
  let ?w = "script_world ((\<lambda>_. [])(1 := ?p # ?rest))"
  have "row_packet ?p" "length ?p < 2 ^ 64"
    by (simp_all add: row_packet_def encode_row_def net_store_data_def script_lib_def script_store_length_def ERR_BYTE_def EOF_BYTE_def char_of_def)
  moreover have "in_packets ?w 1 = ?p # ?rest" by (simp add: script_world_def)
  ultimately obtain st' w' where "backend_read_rows script_lib 1 (Some 0) 2 no_status ?w = Some (True, st', w')"
    "out_packets w' = (out_packets ?w)(0 := out_packets ?w 0 @ [?p])" "in_packets w' = (in_packets ?w)(1 := ?rest)"
    using backend_read_rows_null_value [OF script_net_ok script_codec_ok, of 1 0 "[''a'']" 2 "[]" ?w ?rest no_status] by auto
  then show ?thesis unfolding Let_def by (intro exI [of _ st'] exI [of _ w']) (simp add: script_world_def)
qed

end
