(* ===== verification/Backend.thy ===== *)
theory Backend
  imports Pool Trans Forward
begin

text \<open>
  The backends and the connections to them (\<open>src/proxy_backend.c\<close>, \<open>src/proxy_backend.h\<close>):
  allocation of the arrays, connecting at the start, connections for client threads, adding a
  backend for a new clone, and telling clones to complete a transaction.

  An array is a list of its elements, and a null pointer is \<open>None\<close>, both for the arrays and for
  their elements; an access outside of an array or through a null pointer is undefined. The
  allocations of this file succeed, except those of \<open>backend_resize\<close>, whose outcome is an
  argument. The threads of a backend are represented by their connections. The random numbers
  and what other threads do while a call waits for a pool are arguments.

  The theory shows that after a successful start every client thread finds an open connection
  within the arrays, that a coordinator needs a query mapper, and that adding a backend writes
  outside of allocated memory.
\<close>

section \<open>State\<close>

record proxy_backend_conn_t =
  conn_mysql :: "conn option"
  conn_freed :: bool

record proxy_conn_idx_t =
  idx_bi :: int
  idx_ci :: int

record backend_state =
  backends :: "proxy_host_t option list option"
  backend_conns :: "proxy_backend_conn_t option list option list option"
  backend_pools :: "pool_t option list option"
  backend_num :: int
  backend_threads :: "proxy_backend_conn_t list option list option"
  backend_thread_pool :: "pool_t option"

definition backend_globals :: backend_state where
  "backend_globals = \<lparr>backends = None, backend_conns = None, backend_pools = None, backend_num = 0, backend_threads = None,
     backend_thread_pool = None\<rparr>"

definition proxy_backend_num :: "backend_state \<Rightarrow> int" where
  "proxy_backend_num s = backend_num s"

abbreviation new_conn :: proxy_backend_conn_t where
  "new_conn \<equiv> \<lparr>conn_mysql = None, conn_freed = False\<rparr>"

text \<open>An item of an array of pointers, which must not be null.\<close>

definition item :: "'a option list option \<Rightarrow> int \<Rightarrow> 'a option" where
  "item xs i = do { xs \<leftarrow> xs; x \<leftarrow> read_at xs i; x }"

definition set_item :: "'a option list option \<Rightarrow> int \<Rightarrow> 'a option \<Rightarrow> 'a option list option option" where
  "set_item xs i x = do { xs \<leftarrow> xs; xs \<leftarrow> write_at xs i x; Some (Some xs) }"

section \<open>Allocation\<close>

definition backend_new_threads :: "'w lib \<Rightarrow> options \<Rightarrow> int \<Rightarrow> backend_state \<Rightarrow> 'w \<Rightarrow> (backend_state \<times> 'w) option" where
  "backend_new_threads lib opts bi s w = do {
     ts \<leftarrow> set_item (backend_threads s) bi (Some (replicate (nat (opt_backend_threads opts)) new_conn));
     w \<leftarrow> for_each [0..opt_backend_threads opts - 1] (\<lambda>i w. Some (snd (call lib ''pthread_create'' [Arg_int bi, Arg_int i] w))) w;
     Some (s\<lparr>backend_threads := ts\<rparr>, w) }"

definition backends_alloc :: "'w lib \<Rightarrow> options \<Rightarrow> int \<Rightarrow> backend_state \<Rightarrow> 'w \<Rightarrow> (backend_state \<times> 'w) option" where
  "backends_alloc lib opts num_backends s w = do {
     let n = nat num_backends;
     let s = s\<lparr>backend_num := num_backends\<rparr>;
     let s = (if num_backends > 0 then
        s\<lparr>backends := (if backends s = None then Some (replicate n None) else backends s),
          backend_conns := (if backend_conns s = None
            then Some (replicate n (Some (replicate (nat (opt_num_conns opts)) (Some new_conn)))) else backend_conns s)\<rparr>
        else s);
     if opt_backend_file opts = None \<and> \<not> opt_coordinator opts then Some (s, w)
     else do {
       pool \<leftarrow> proxy_pool_new (opt_num_conns opts);
       let s = s\<lparr>backend_pools := Some (replicate n pool)\<rparr>;
       if opt_mapper opts = None then Some (s, w)
       else do {
         pool \<leftarrow> (case backend_thread_pool s of None \<Rightarrow> proxy_pool_new (opt_backend_threads opts) | Some p \<Rightarrow> Some (Some p));
         let s = s\<lparr>backend_thread_pool := pool\<rparr>;
         if backend_threads s = None then
           for_each [0..num_backends - 1] (\<lambda>i (s, w). backend_new_threads lib opts i s w)
             (s\<lparr>backend_threads := Some (replicate n None)\<rparr>, w)
         else Some (s, w) } } }"

section \<open>Connecting\<close>

text \<open>The result says whether there was an error.\<close>

definition backend_connect ::
  "'w lib \<Rightarrow> options \<Rightarrow> proxy_host_t \<Rightarrow> proxy_backend_conn_t \<Rightarrow> bool \<Rightarrow> 'w \<Rightarrow> bool \<times> proxy_backend_conn_t \<times> 'w" where
  "backend_connect lib opts backend conn bypass w =
     (let p = (if bypass \<and> opt_bypass_port opts > 0 then opt_bypass_port opts else port backend);
          conn = conn\<lparr>conn_mysql := None\<rparr>
      in case mysql_init lib w of
           (None, w) \<Rightarrow> (True, conn, w)
         | (Some mysql, w) \<Rightarrow>
             let w = mysql_reconnect lib mysql w;
                 (ok, w) = (case opt_socket_file opts of
                    Some f \<Rightarrow> mysql_real_connect lib mysql None (opt_user opts) (opt_pass opts) (opt_db opts) 0 (Some f) w
                  | None \<Rightarrow> mysql_real_connect lib mysql (Some (host backend)) (opt_user opts) (opt_pass opts) (opt_db opts) p None w)
             in if \<not> ok then (True, conn, mysql_close lib mysql w)
                else (False, \<lparr>conn_mysql = Some mysql, conn_freed = False\<rparr>,
                  mysql_autocommit lib mysql (opt_autocommit opts \<and> \<not> opt_two_pc opts) w))"

text \<open>Connections in order, up to the first error.\<close>

fun connect_each ::
  "'w lib \<Rightarrow> options \<Rightarrow> proxy_host_t \<Rightarrow> bool \<Rightarrow> proxy_backend_conn_t list \<Rightarrow> 'w \<Rightarrow> bool \<times> proxy_backend_conn_t list \<times> 'w" where
  "connect_each lib opts backend bypass [] w = (False, [], w)"
| "connect_each lib opts backend bypass (c # cs) w =
     (let (error, c, w) = backend_connect lib opts backend c bypass w in
      if error then (True, c # cs, w)
      else let (error, cs, w) = connect_each lib opts backend bypass cs w in (error, c # cs, w))"

text \<open>The connections of a backend for client threads, all of them, and those of its threads.\<close>

definition connect_conns :: "'w lib \<Rightarrow> options \<Rightarrow> int \<Rightarrow> backend_state \<Rightarrow> 'w \<Rightarrow> (bool \<times> backend_state \<times> 'w) option" where
  "connect_conns lib opts bi s w = do {
     backend \<leftarrow> item (backends s) bi;
     row \<leftarrow> item (backend_conns s) bi;
     let n = nat (opt_num_conns opts);
     if length row < n \<or> None \<in> set (take n row) then None
     else do {
       let (error, cs, w) = connect_each lib opts backend True (map the (take n row)) w;
       conns \<leftarrow> set_item (backend_conns s) bi (Some (map Some cs @ drop n row));
       Some (error, s\<lparr>backend_conns := conns\<rparr>, w) } }"

definition connect_threads :: "'w lib \<Rightarrow> options \<Rightarrow> int \<Rightarrow> backend_state \<Rightarrow> 'w \<Rightarrow> (bool \<times> backend_state \<times> 'w) option" where
  "connect_threads lib opts bi s w = do {
     backend \<leftarrow> item (backends s) bi;
     row \<leftarrow> item (backend_threads s) bi;
     let n = nat (opt_backend_threads opts);
     if length row < n then None
     else do {
       let (error, cs, w) = connect_each lib opts backend False (take n row) w;
       ts \<leftarrow> set_item (backend_threads s) bi (Some (cs @ drop n row));
       Some (error, s\<lparr>backend_threads := ts\<rparr>, w) } }"

definition proxy_backend_connect :: "'w lib \<Rightarrow> options \<Rightarrow> backend_state \<Rightarrow> 'w \<Rightarrow> (bool \<times> backend_state \<times> 'w) option" where
  "proxy_backend_connect lib opts s w = do {
     (s, w) \<leftarrow> backends_alloc lib opts 1 s w;
     h \<leftarrow> opt_backend_host opts;
     bs \<leftarrow> set_item (backends s) 0 (Some \<lparr>host = h, port = opt_backend_port opts\<rparr>);
     (error, s, w) \<leftarrow> connect_conns lib opts 0 (s\<lparr>backends := bs\<rparr>) w;
     if error then Some (True, s, w)
     else if opt_coordinator opts then connect_threads lib opts 0 s w
     else Some (False, s, w) }"

fun connect_backends :: "'w lib \<Rightarrow> options \<Rightarrow> int list \<Rightarrow> backend_state \<Rightarrow> 'w \<Rightarrow> (bool \<times> backend_state \<times> 'w) option" where
  "connect_backends lib opts [] s w = Some (False, s, w)"
| "connect_backends lib opts (i # is) s w = do {
     (error, s, w) \<leftarrow> connect_conns lib opts i s w;
     if error then Some (True, s, w)
     else if opt_mapper opts = None then connect_backends lib opts is s w
     else do {
       (error, s, w) \<leftarrow> connect_threads lib opts i s w;
       if error then Some (True, s, w) else connect_backends lib opts is s w } }"

definition proxy_backends_connect ::
  "'w lib \<Rightarrow> options \<Rightarrow> host_file \<Rightarrow> backend_state \<Rightarrow> 'w \<Rightarrow> (bool \<times> backend_state \<times> 'w) option" where
  "proxy_backends_connect lib opts f s w = do {
     (num_backends, hs) \<leftarrow> backend_read_file (opt_backend_file opts) f;
     let s = s\<lparr>backends := hs\<rparr>;
     if hs = None then Some (True, s, w)
     else do {
       (s, w) \<leftarrow> backends_alloc lib opts num_backends s w;
       connect_backends lib opts [0..num_backends - 1] s w } }"

section \<open>Adding a backend\<close>

text \<open>
  Up to ten attempts for each new connection. The field \<open>freed\<close> of a new connection is not
  initialised before the connection is open: \<open>garbage\<close> is its value.
\<close>

fun connect_retry :: "'w lib \<Rightarrow> options \<Rightarrow> proxy_host_t \<Rightarrow> nat \<Rightarrow> proxy_backend_conn_t \<Rightarrow> 'w \<Rightarrow> proxy_backend_conn_t \<times> 'w" where
  "connect_retry lib opts backend 0 c w = (c, w)"
| "connect_retry lib opts backend (Suc n) c w =
     (let (error, c, w) = backend_connect lib opts backend c True w in
      if error then connect_retry lib opts backend n c w else (c, w))"

fun connect_new_conns :: "'w lib \<Rightarrow> options \<Rightarrow> proxy_host_t \<Rightarrow> bool \<Rightarrow> nat \<Rightarrow> 'w \<Rightarrow> proxy_backend_conn_t list \<times> 'w" where
  "connect_new_conns lib opts backend garbage 0 w = ([], w)"
| "connect_new_conns lib opts backend garbage (Suc n) w =
     (let (c, w) = connect_retry lib opts backend 10 \<lparr>conn_mysql = None, conn_freed = garbage\<rparr> w;
          (cs, w) = connect_new_conns lib opts backend garbage n w
      in (c # cs, w))"

text \<open>The connections of new threads are tried once, all of them.\<close>

fun connect_new_threads :: "'w lib \<Rightarrow> options \<Rightarrow> proxy_host_t \<Rightarrow> proxy_backend_conn_t list \<Rightarrow> 'w \<Rightarrow> proxy_backend_conn_t list \<times> 'w" where
  "connect_new_threads lib opts backend [] w = ([], w)"
| "connect_new_threads lib opts backend (c # cs) w =
     (let (c, w) = (if conn_mysql c = None then let (_, c, w) = backend_connect lib opts backend c False w in (c, w) else (c, w));
          (cs, w) = connect_new_threads lib opts backend cs w
      in (c # cs, w))"

definition backend_new_connect :: "'w lib \<Rightarrow> options \<Rightarrow> bool \<Rightarrow> int \<Rightarrow> backend_state \<Rightarrow> 'w \<Rightarrow> (backend_state \<times> 'w) option" where
  "backend_new_connect lib opts garbage bi s w = do {
     backend \<leftarrow> item (backends s) bi;
     cs \<leftarrow> backend_conns s;
     row \<leftarrow> read_at cs bi;
     (s, w) \<leftarrow> (case row of
        Some _ \<Rightarrow> Some (s, w)
      | None \<Rightarrow> do {
          let (new, w) = connect_new_conns lib opts backend garbage (nat (opt_num_conns opts)) w;
          conns \<leftarrow> set_item (backend_conns s) bi (Some (map Some new));
          Some (s\<lparr>backend_conns := conns\<rparr>, w) });
     ps \<leftarrow> backend_pools s;
     p \<leftarrow> read_at ps bi;
     s \<leftarrow> (case p of
        Some _ \<Rightarrow> Some s
      | None \<Rightarrow> do {
          pool \<leftarrow> proxy_pool_new (opt_num_conns opts);
          pools \<leftarrow> set_item (backend_pools s) bi pool;
          Some (s\<lparr>backend_pools := pools\<rparr>) });
     ts \<leftarrow> backend_threads s;
     t \<leftarrow> read_at ts bi;
     case t of
       Some _ \<Rightarrow> Some (s, w)
     | None \<Rightarrow> do {
         (s, w) \<leftarrow> backend_new_threads lib opts bi s w;
         row \<leftarrow> item (backend_threads s) bi;
         let (new, w) = connect_new_threads lib opts backend row w;
         ts \<leftarrow> set_item (backend_threads s) bi (Some new);
         Some (s\<lparr>backend_threads := ts\<rparr>, w) } }"

text \<open>
  Growing or shrinking the three arrays: \<open>mem\<close> are the outcomes of the three reallocations. New
  elements are set to null in a second call, before they are read.
\<close>

definition resize :: "'a option list option \<Rightarrow> int \<Rightarrow> 'a option list option" where
  "resize xs n = (let ys = (case xs of None \<Rightarrow> [] | Some ys \<Rightarrow> ys) in
     Some (take (nat n) ys @ replicate (nat n - length ys) None))"

definition realloc_arrays :: "bool \<times> bool \<times> bool \<Rightarrow> int \<Rightarrow> backend_state \<Rightarrow> bool \<times> backend_state" where
  "realloc_arrays mem n s =
     (if \<not> fst mem then (True, s)
      else let s = s\<lparr>backend_pools := resize (backend_pools s) n\<rparr> in
        if \<not> fst (snd mem) then (True, s)
        else let s = s\<lparr>backend_conns := resize (backend_conns s) n\<rparr> in
          if \<not> snd (snd mem) then (True, s)
          else (False, s\<lparr>backend_threads := resize (backend_threads s) n\<rparr>))"

definition clear_item :: "int \<Rightarrow> backend_state \<Rightarrow> backend_state option" where
  "clear_item i s = do {
     ps \<leftarrow> set_item (backend_pools s) i None;
     cs \<leftarrow> set_item (backend_conns s) i None;
     ts \<leftarrow> set_item (backend_threads s) i None;
     Some (s\<lparr>backend_pools := ps, backend_conns := cs, backend_threads := ts\<rparr>) }"

definition backend_resize :: "bool \<times> bool \<times> bool \<Rightarrow> int \<Rightarrow> bool \<Rightarrow> backend_state \<Rightarrow> (bool \<times> backend_state) option" where
  "backend_resize mem n before s = do {
     let (error, s) =
       (if before \<and> n > backend_num s \<or> \<not> before \<and> (of_int n :: uint) < of_int (backend_num s)
        then realloc_arrays mem n s else (False, s));
     if error then Some (True, s)
     else if \<not> before \<and> n > backend_num s then do {
       s \<leftarrow> for_each [backend_num s..n - 1] clear_item s;
       Some (False, s) }
     else Some (False, s) }"

text \<open>
  The host of a new backend: the code asks for the size of a pointer, 8 bytes, and writes a
  structure of a pointer and an int, 12 bytes. \<open>usable\<close> is the size of the block that the
  allocator returns for a request.
\<close>

definition new_host :: "(nat \<Rightarrow> nat) \<Rightarrow> string \<Rightarrow> int \<Rightarrow> proxy_host_t option" where
  "new_host usable h p = (if 12 \<le> usable 8 then Some \<lparr>host = h, port = p\<rparr> else None)"

definition proxy_backend_add ::
  "'w lib \<Rightarrow> options \<Rightarrow> (nat \<Rightarrow> nat) \<Rightarrow> bool \<times> bool \<times> bool \<Rightarrow> bool \<Rightarrow> string \<Rightarrow> int \<Rightarrow> backend_state \<Rightarrow> clone_state \<Rightarrow> 'w \<Rightarrow>
   (bool \<times> backend_state \<times> clone_state \<times> 'w) option" where
  "proxy_backend_add lib opts usable mem garbage h p s cs w = do {
     (error, s) \<leftarrow> backend_resize mem (backend_num s + 1) True s;
     (error, s) \<leftarrow> (if error then Some (True, s) else backend_resize mem (backend_num s + 1) False s);
     if error then Some (True, s, cs, w)
     else do {
       b \<leftarrow> new_host usable h p;
       bs \<leftarrow> set_item (backends s) (backend_num s) (Some b);
       (s, w) \<leftarrow> backend_new_connect lib opts garbage (backend_num s) (s\<lparr>backends := bs\<rparr>) w;
       Some (False, s\<lparr>backend_num := backend_num s + 1\<rparr>, proxy_clone_notify cs, w) } }"

section \<open>Connections for client threads\<close>

definition pool_take :: "nat \<Rightarrow> ((pool_t \<Rightarrow> pool_t) \<times> nat) list \<Rightarrow> pool_t \<Rightarrow> (int \<times> pool_t) option" where
  "pool_take rand wakes p = do {
     r \<leftarrow> proxy_pool_get rand wakes p;
     case r of Got i p \<Rightarrow> Some (i, p) | Still_waiting _ \<Rightarrow> None }"

definition proxy_backend_get_connection ::
  "nat \<Rightarrow> nat \<Rightarrow> ((pool_t \<Rightarrow> pool_t) \<times> nat) list \<Rightarrow> int \<Rightarrow> backend_state \<Rightarrow> (proxy_conn_idx_t \<times> backend_state) option" where
  "proxy_backend_get_connection r1 r2 wakes thread_id s =
     (if backend_num s = 0 then None
      else
        let bi = int r1 mod backend_num s in
        case backend_pools s of
          None \<Rightarrow> Some (\<lparr>idx_bi = bi, idx_ci = thread_id\<rparr>, s)
        | Some _ \<Rightarrow> do {
            p \<leftarrow> item (backend_pools s) bi;
            (ci, p) \<leftarrow> pool_take r2 wakes p;
            ps \<leftarrow> set_item (backend_pools s) bi (Some p);
            Some (\<lparr>idx_bi = bi, idx_ci = ci\<rparr>, s\<lparr>backend_pools := ps\<rparr>) })"

definition proxy_backend_release_connection :: "proxy_conn_idx_t \<Rightarrow> backend_state \<Rightarrow> (proxy_conn_idx_t \<times> backend_state) option" where
  "proxy_backend_release_connection idx s = do {
     s \<leftarrow> (case backend_pools s of
        None \<Rightarrow> Some s
      | Some _ \<Rightarrow> do {
          p \<leftarrow> item (backend_pools s) (idx_bi idx);
          p \<leftarrow> proxy_pool_return p (idx_ci idx);
          ps \<leftarrow> set_item (backend_pools s) (idx_bi idx) (Some p);
          Some (s\<lparr>backend_pools := ps\<rparr>) });
     Some (\<lparr>idx_bi = - 1, idx_ci = - 1\<rparr>, s) }"

text \<open>The connection that a client uses for a query (\<open>backend_query_idx\<close>).\<close>

definition conn_at :: "backend_state \<Rightarrow> proxy_conn_idx_t \<Rightarrow> proxy_backend_conn_t option" where
  "conn_at s idx = do { row \<leftarrow> item (backend_conns s) (idx_bi idx); item (Some row) (idx_ci idx) }"

section \<open>Completing a transaction on clones\<close>

text \<open>
  The message, and the first backend that has the address of a clone: the code waits for ever
  when it is not connected. \<open>rand\<close> and \<open>wakes\<close> are those of the pool of its connections.
\<close>

definition complete_message :: "bool \<Rightarrow> ulong \<Rightarrow> string" where
  "complete_message commit tid = ''PROXY '' @ (if commit then ''COMMIT'' else ''ROLLBACK'') @ '' '' @ print_ulong tid"

fun tell_clone ::
  "'w lib \<Rightarrow> nat \<Rightarrow> ((pool_t \<Rightarrow> pool_t) \<times> nat) list \<Rightarrow> string \<Rightarrow> proxy_host_t \<Rightarrow> int list \<Rightarrow> backend_state \<Rightarrow> 'w \<Rightarrow>
   (bool \<times> backend_state \<times> 'w) option" where
  "tell_clone lib rand wakes msg addr [] s w = Some (False, s, w)"
| "tell_clone lib rand wakes msg addr (bi # bis) s w = do {
     b \<leftarrow> item (backends s) bi;
     if host addr = host b \<and> port addr = port b then do {
       p \<leftarrow> item (backend_pools s) bi;
       (ci, p) \<leftarrow> pool_take rand wakes p;
       c \<leftarrow> conn_at s \<lparr>idx_bi = bi, idx_ci = ci\<rparr>;
       mysql \<leftarrow> conn_mysql c;
       let (_, w) = mysql_query lib mysql msg w;
       p \<leftarrow> proxy_pool_return p ci;
       ps \<leftarrow> set_item (backend_pools s) bi (Some p);
       Some (True, s\<lparr>backend_pools := ps\<rparr>, w) }
     else tell_clone lib rand wakes msg addr bis s w }"

fun proxy_backend_clone_complete ::
  "'w lib \<Rightarrow> nat \<Rightarrow> ((pool_t \<Rightarrow> pool_t) \<times> nat) list \<Rightarrow> clone_state \<Rightarrow> int list \<Rightarrow> ulong \<Rightarrow> bool \<Rightarrow> backend_state \<Rightarrow> 'w \<Rightarrow>
   (bool \<times> backend_state \<times> 'w) option" where
  "proxy_backend_clone_complete lib rand wakes cs [] tid commit s w = Some (False, s, w)"
| "proxy_backend_clone_complete lib rand wakes cs (i # ids) tid commit s w = do {
     found \<leftarrow> proxy_clone_search cs (of_int i);
     addr \<leftarrow> found;
     (told, s, w) \<leftarrow> tell_clone lib rand wakes (complete_message commit tid) addr [0..backend_num s - 1] s w;
     (error, s, w) \<leftarrow> proxy_backend_clone_complete lib rand wakes cs ids tid commit s w;
     Some (error \<or> \<not> told, s, w) }"

section \<open>Ready backends\<close>

text \<open>
  The invariant after the start: the arrays have an element for each backend, all connections
  are open, and the pools, where there are any, have an item for each connection.
\<close>

definition open_conn :: "proxy_backend_conn_t option \<Rightarrow> bool" where
  "open_conn c \<longleftrightarrow> (\<exists>m b. c = Some \<lparr>conn_mysql = Some m, conn_freed = b\<rparr>)"

definition row_ok :: "options \<Rightarrow> proxy_backend_conn_t option list option \<Rightarrow> bool" where
  "row_ok opts r \<longleftrightarrow> (\<exists>cs. r = Some cs \<and> int (length cs) = opt_num_conns opts \<and> list_all open_conn cs)"

definition conn_pool_ok :: "options \<Rightarrow> pool_t option \<Rightarrow> bool" where
  "conn_pool_ok opts r \<longleftrightarrow> (\<exists>p. r = Some p \<and> pool_inv p \<and> pool_size p = opt_num_conns opts)"

definition backend_ok :: "options \<Rightarrow> backend_state \<Rightarrow> bool" where
  "backend_ok opts s \<longleftrightarrow> 0 < backend_num s \<and> 0 < opt_num_conns opts \<and>
     (\<exists>bs. backends s = Some bs \<and> int (length bs) = backend_num s \<and> None \<notin> set bs) \<and>
     (\<exists>rs. backend_conns s = Some rs \<and> int (length rs) = backend_num s \<and> list_all (row_ok opts) rs) \<and>
     (\<forall>ps. backend_pools s = Some ps \<longrightarrow> int (length ps) = backend_num s \<and> list_all (conn_pool_ok opts) ps)"

lemma connect_each_open:
  assumes "connect_each lib opts b bypass cs w = (False, cs', w')"
  shows "length cs' = length cs \<and> list_all open_conn (map Some cs')"
  using assms
proof (induction cs arbitrary: cs' w)
  case (Cons c cs)
  obtain e c1 w1 where 1: "backend_connect lib opts b c bypass w = (e, c1, w1)" by (cases "backend_connect lib opts b c bypass w") auto
  with Cons.prems have e: "\<not> e" by (auto split: if_splits)
  then have c1: "open_conn (Some c1)" using 1
    by (auto simp: backend_connect_def Let_def open_conn_def split: prod.splits option.splits if_splits)
  obtain cs1 where 2: "connect_each lib opts b bypass cs w1 = (False, cs1, w')" "cs' = c1 # cs1"
    using Cons.prems 1 e by (auto split: prod.splits)
  from Cons.IH [OF 2(1)] c1 2(2) show ?case by simp
qed simp

lemma connect_conns_spec:
  assumes "backends s = Some [Some b]" "backend_conns s = Some [Some (map Some cs)]" "int (length cs) = opt_num_conns opts"
  shows "\<exists>error cs' w'. connect_conns lib opts 0 s w = Some (error, s\<lparr>backend_conns := Some [Some (map Some cs')]\<rparr>, w') \<and>
    connect_each lib opts b True cs w = (error, cs', w')"
proof -
  obtain e cs' w' where "connect_each lib opts b True cs w = (e, cs', w')" by (cases "connect_each lib opts b True cs w") auto
  moreover have "nat (opt_num_conns opts) = length cs" using assms(3) by simp
  ultimately show ?thesis using assms(1,2)
    by (simp add: connect_conns_def item_def set_item_def read_at_def write_at_def comp_def Let_def image_iff)
qed

lemma for_each_total: "\<exists>w'. for_each xs (\<lambda>i w. Some (f i w)) w = Some w'"
  by (induction xs arbitrary: w) simp_all

lemma backends_alloc_one:
  assumes "opt_backend_file opts = None" "0 < opt_num_conns opts" "opt_num_conns opts \<le> 2 ^ 30"
    "0 < opt_backend_threads opts" "opt_backend_threads opts \<le> 2 ^ 30"
  shows "\<exists>s w'. backends_alloc lib opts 1 backend_globals w = Some (s, w') \<and> backends s = Some [None] \<and> backend_num s = 1 \<and>
    backend_conns s = Some [Some (map Some (replicate (nat (opt_num_conns opts)) new_conn))] \<and>
    (\<forall>ps. backend_pools s = Some ps \<longrightarrow> length ps = 1 \<and> list_all (conn_pool_ok opts) ps) \<and>
    backend_threads s = (if opt_coordinator opts \<and> opt_mapper opts \<noteq> None
      then Some [Some (replicate (nat (opt_backend_threads opts)) new_conn)] else None)"
proof -
  obtain p where p: "proxy_pool_new (opt_num_conns opts) = Some (Some p)"
    using proxy_pool_new_correct [OF assms(2,3)] by metis
  obtain q where q: "proxy_pool_new (opt_backend_threads opts) = Some (Some q)"
    using proxy_pool_new_correct [OF assms(4,5)] by metis
  obtain w1 where w1: "for_each [0..opt_backend_threads opts - 1]
      (\<lambda>i w. Some (snd (call lib ''pthread_create'' [Arg_int 0, Arg_int i] w))) w = Some w1"
    using for_each_total [of _ "\<lambda>i w. snd (call lib ''pthread_create'' [Arg_int 0, Arg_int i] w)"] by blast
  have ok: "conn_pool_ok opts (Some p)" using pool_inv_new [OF p assms(3)] by (simp add: conn_pool_ok_def)
  show ?thesis
  proof (cases "opt_coordinator opts")
    case False
    then show ?thesis using assms(1) by (simp add: backends_alloc_def backend_globals_def)
  next
    case True
    show ?thesis
    proof (cases "opt_mapper opts")
      case None
      then show ?thesis using True assms(1) p ok by (simp add: backends_alloc_def backend_globals_def)
    next
      case (Some m)
      then show ?thesis using True assms(1) p q ok w1
        by (simp add: backends_alloc_def backend_globals_def backend_new_threads_def set_item_def write_at_def)
    qed
  qed
qed

lemma connect_threads_defined:
  assumes "backends s = Some [Some b]" "backend_threads s = Some [Some cs]" "int (length cs) = opt_backend_threads opts"
  shows "\<exists>error ts w'. connect_threads lib opts 0 s w = Some (error, s\<lparr>backend_threads := ts\<rparr>, w')"
proof -
  obtain e cs' w' where "connect_each lib opts b False cs w = (e, cs', w')" by (cases "connect_each lib opts b False cs w") auto
  moreover have "nat (opt_backend_threads opts) = length cs" using assms(3) by simp
  ultimately have "connect_threads lib opts 0 s w = Some (e, s\<lparr>backend_threads := Some [Some cs']\<rparr>, w')"
    using assms(1,2) by (simp add: connect_threads_def item_def set_item_def read_at_def write_at_def)
  then show ?thesis by blast
qed

text \<open>
  Connecting to a single backend, up to the threads: the state in which the threads are
  connected next.
\<close>

lemma proxy_backend_connect_conns:
  assumes "options_ok readable opts" "opt_backend_file opts = None" "0 < opt_num_conns opts" "opt_num_conns opts \<le> 2 ^ 30"
    "opt_backend_threads opts \<le> 2 ^ 30"
  obtains error s b w' where
    "proxy_backend_connect lib opts backend_globals w =
       (if error then Some (True, s, w') else if opt_coordinator opts then connect_threads lib opts 0 s w' else Some (False, s, w'))"
    "\<not> error \<Longrightarrow> backend_ok opts s" "backends s = Some [Some b]"
    "backend_threads s = (if opt_coordinator opts \<and> opt_mapper opts \<noteq> None
       then Some [Some (replicate (nat (opt_backend_threads opts)) new_conn)] else None)"
    "error \<longleftrightarrow> fst (connect_each lib opts b True (replicate (nat (opt_num_conns opts)) new_conn)
       (snd (the (backends_alloc lib opts 1 backend_globals w))))"
proof -
  have t: "0 < opt_backend_threads opts" using assms(1) by (simp add: options_ok_def)
  obtain h where h: "opt_backend_host opts = Some h" using assms(1,2) by (auto simp: options_ok_def)
  obtain s1 w1 where s1: "backends_alloc lib opts 1 backend_globals w = Some (s1, w1)" "backends s1 = Some [None]" "backend_num s1 = 1"
    "backend_conns s1 = Some [Some (map Some (replicate (nat (opt_num_conns opts)) new_conn))]"
    "\<forall>ps. backend_pools s1 = Some ps \<longrightarrow> length ps = 1 \<and> list_all (conn_pool_ok opts) ps"
    "backend_threads s1 = (if opt_coordinator opts \<and> opt_mapper opts \<noteq> None
      then Some [Some (replicate (nat (opt_backend_threads opts)) new_conn)] else None)"
    using backends_alloc_one [OF assms(2-4) t assms(5), of lib w] by blast
  define b where "b = \<lparr>host = h, port = opt_backend_port opts\<rparr>"
  define s2 where "s2 = s1\<lparr>backends := Some [Some b]\<rparr>"
  let ?cs = "replicate (nat (opt_num_conns opts)) new_conn"
  from connect_conns_spec [of s2 b ?cs opts lib w1] s1(4) assms(3)
  obtain e cs' w2 where c: "connect_conns lib opts 0 s2 w1 = Some (e, s2\<lparr>backend_conns := Some [Some (map Some cs')]\<rparr>, w2)"
    "connect_each lib opts b True ?cs w1 = (e, cs', w2)" by (auto simp: s2_def)
  define s3 where "s3 = s2\<lparr>backend_conns := Some [Some (map Some cs')]\<rparr>"
  show thesis
  proof (rule that)
    show "proxy_backend_connect lib opts backend_globals w =
      (if e then Some (True, s3, w2) else if opt_coordinator opts then connect_threads lib opts 0 s3 w2 else Some (False, s3, w2))"
      using s1(1,2) h c(1) by (simp add: proxy_backend_connect_def set_item_def write_at_def s2_def s3_def b_def)
    show "backend_ok opts s3" if "\<not> e"
      using connect_each_open [of lib opts b True ?cs w1 cs' w2] c(2) that s1(3,5) assms(3)
      by (auto simp: backend_ok_def s3_def s2_def row_ok_def)
    show "backends s3 = Some [Some b]" by (simp add: s3_def s2_def)
    show "backend_threads s3 = (if opt_coordinator opts \<and> opt_mapper opts \<noteq> None
      then Some [Some (replicate (nat (opt_backend_threads opts)) new_conn)] else None)" using s1(6) by (simp add: s3_def s2_def)
    show "e \<longleftrightarrow> fst (connect_each lib opts b True ?cs (snd (the (backends_alloc lib opts 1 backend_globals w))))"
      unfolding s1(1) using c(2) by simp
  qed
qed

section \<open>Properties\<close>

lemma backend_ok_threads: "backend_ok opts (s\<lparr>backend_threads := ts\<rparr>) = backend_ok opts s"
  by (simp add: backend_ok_def)


text \<open>What the library does when all servers answer.\<close>

definition connects :: "'w lib \<Rightarrow> bool" where
  "connects lib \<longleftrightarrow> (\<forall>w. fst (mysql_init lib w) \<noteq> None) \<and> (\<forall>m h u p d n f w. fst (mysql_real_connect lib m h u p d n f w))"

lemma backend_connect_connects:
  assumes "connects lib"
  shows "\<not> fst (backend_connect lib opts b c bypass w)"
proof -
  obtain m w1 where "mysql_init lib w = (Some m, w1)" using assms unfolding connects_def by (metis not_None_eq prod.collapse)
  then show ?thesis using assms by (simp add: backend_connect_def connects_def Let_def case_prod_beta split: option.split)
qed

lemma connect_each_connects: "connects lib \<Longrightarrow> \<not> fst (connect_each lib opts b bypass cs w)"
  by (induction cs arbitrary: w) (simp_all add: case_prod_beta Let_def backend_connect_connects)

text \<open>
  A coordinator that is started without a query mapper passes the checks of its options and
  connects to its backend, and then reads the threads of the backend, which were never created:
  the array of threads is a null pointer.
\<close>

theorem coordinator_needs_mapper:
  assumes "options_ok readable opts" "opt_backend_file opts = None" "0 < opt_num_conns opts" "opt_num_conns opts \<le> 2 ^ 30"
    "opt_backend_threads opts \<le> 2 ^ 30" "opt_coordinator opts" "opt_mapper opts = None" "connects lib"
  shows "proxy_backend_connect lib opts backend_globals w = None"
proof -
  obtain error s b w' where c: "proxy_backend_connect lib opts backend_globals w =
       (if error then Some (True, s, w') else if opt_coordinator opts then connect_threads lib opts 0 s w' else Some (False, s, w'))"
    "\<not> error \<Longrightarrow> backend_ok opts s" "backends s = Some [Some b]"
    "backend_threads s = (if opt_coordinator opts \<and> opt_mapper opts \<noteq> None
       then Some [Some (replicate (nat (opt_backend_threads opts)) new_conn)] else None)"
    "error \<longleftrightarrow> fst (connect_each lib opts b True (replicate (nat (opt_num_conns opts)) new_conn)
       (snd (the (backends_alloc lib opts 1 backend_globals w))))"
    by (rule proxy_backend_connect_conns [OF assms(1-5), of lib w]) blast
  have "\<not> error" unfolding c(5) using connect_each_connects [OF assms(8)] by blast
  moreover have "connect_threads lib opts 0 s w' = None" using c(3,4) assms(7) by (simp add: connect_threads_def item_def)
  ultimately show ?thesis using c(1) assms(6) by simp
qed

text \<open>Other threads keep the invariant of a pool and its size while a thread waits for an item.\<close>

definition fair_wakes :: "((pool_t \<Rightarrow> pool_t) \<times> nat) list \<Rightarrow> bool" where
  "fair_wakes wakes \<longleftrightarrow> (\<forall>(f, r)\<in>set wakes. \<forall>p. pool_inv p \<longrightarrow> pool_inv (f p) \<and> pool_size (f p) = pool_size p)"

lemma pool_get_wait_ok:
  assumes "fair_wakes wakes" "pool_inv p" "0 < pool_size p" "pool_get_wait wakes p = Some (Got i p')"
  shows "pool_inv p' \<and> pool_size p' = pool_size p \<and> 0 \<le> i \<and> i < pool_size p \<and> \<not> item_free p' i"
  using assms
proof (induction wakes arbitrary: p)
  case (Cons x wakes)
  obtain f r where x: "x = (f, r)" by (cases x)
  have f: "pool_inv (f p)" "pool_size (f p) = pool_size p" using Cons.prems(1,2) x by (auto simp: fair_wakes_def)
  obtain j q where t: "pool_try_locks r (f p) = Some (j, q)" using Cons.prems(4) x by (auto simp: bind_eq_Some_conv)
  show ?case
  proof (cases "0 \<le> j")
    case True
    then show ?thesis using pool_try_locks_hit [OF f(1) _ t True] f Cons.prems(3,4) x t item_free_range [of "f p" j] by auto
  next
    case False
    then have "q = f p" using pool_try_locks_miss [OF f(1) _ t] f(2) Cons.prems(3) by simp
    then show ?thesis using Cons.IH [of q] Cons.prems f x t False by (simp add: fair_wakes_def)
  qed
qed simp

lemma pool_take_ok:
  assumes "fair_wakes wakes" "pool_inv p" "0 < pool_size p" "pool_take r wakes p = Some (i, p')"
  shows "pool_inv p' \<and> pool_size p' = pool_size p \<and> 0 \<le> i \<and> i < pool_size p \<and> \<not> item_free p' i"
proof -
  obtain j q where t: "pool_try_locks r p = Some (j, q)"
    using assms(4) by (auto simp: pool_take_def proxy_pool_get_def bind_eq_Some_conv)
  show ?thesis
  proof (cases "0 \<le> j")
    case True
    then show ?thesis using pool_try_locks_hit [OF assms(2,3) t True] assms(4) t item_free_range [of p j]
      by (auto simp: pool_take_def proxy_pool_get_def)
  next
    case False
    then have "q = p" using pool_try_locks_miss [OF assms(2,3) t] by simp
    then obtain x where x: "pool_get_wait wakes p = Some x" "(case x of Got i p \<Rightarrow> Some (i, p) | Still_waiting _ \<Rightarrow> None) = Some (i, p')"
      using assms(4) t False by (auto simp: pool_take_def proxy_pool_get_def bind_eq_Some_conv)
    then show ?thesis using pool_get_wait_ok [OF assms(1-3), of i p'] by (cases x) auto
  qed
qed

lemma backend_ok_pool:
  assumes "backend_ok opts s" "backend_pools s = Some ps" "0 \<le> bi" "bi < backend_num s"
  shows "\<exists>p. read_at ps bi = Some (Some p) \<and> pool_inv p \<and> pool_size p = opt_num_conns opts \<and> 0 < pool_size p"
proof -
  have "int (length ps) = backend_num s" "list_all (conn_pool_ok opts) ps" "0 < opt_num_conns opts"
    using assms(1,2) by (simp_all add: backend_ok_def)
  moreover have "nat bi < length ps" using calculation(1) assms(3,4) by simp
  ultimately have "conn_pool_ok opts (ps ! nat bi)" "read_at ps bi = Some (ps ! nat bi)"
    using assms(3,4) by (simp_all add: list_all_length)
  then show ?thesis using \<open>0 < opt_num_conns opts\<close> by (auto simp: conn_pool_ok_def)
qed

lemma backend_ok_set_pool:
  assumes "backend_ok opts s" "backend_pools s = Some ps" "0 \<le> bi" "bi < backend_num s" "pool_inv p" "pool_size p = opt_num_conns opts"
  shows "set_item (backend_pools s) bi (Some p) = Some (Some (ps[nat bi := Some p])) \<and>
    backend_ok opts (s\<lparr>backend_pools := Some (ps[nat bi := Some p])\<rparr>) \<and> read_at (ps[nat bi := Some p]) bi = Some (Some p)"
proof -
  have l: "int (length ps) = backend_num s" "list_all (conn_pool_ok opts) ps" using assms(1,2) by (simp_all add: backend_ok_def)
  then have i: "nat bi < length ps" using assms(3,4) by simp
  have "conn_pool_ok opts (Some p)" using assms(5,6) by (simp add: conn_pool_ok_def)
  then have "list_all (conn_pool_ok opts) (ps[nat bi := Some p])" using l(2) i by (simp add: list_all_length nth_list_update)
  then show ?thesis using assms(1-4) l(1) i by (simp add: backend_ok_def set_item_def)
qed

lemma backend_ok_conn:
  assumes "backend_ok opts s" "0 \<le> bi" "bi < backend_num s" "0 \<le> ci" "ci < opt_num_conns opts"
  shows "\<exists>c m. conn_at s \<lparr>idx_bi = bi, idx_ci = ci\<rparr> = Some c \<and> conn_mysql c = Some m"
proof -
  obtain rs where rs: "backend_conns s = Some rs" "int (length rs) = backend_num s" "list_all (row_ok opts) rs"
    using assms(1) by (auto simp: backend_ok_def)
  then have "row_ok opts (rs ! nat bi)" using assms(2,3) by (auto simp: list_all_length)
  then obtain cs where cs: "rs ! nat bi = Some cs" "int (length cs) = opt_num_conns opts" "list_all open_conn cs"
    by (auto simp: row_ok_def)
  then have "open_conn (cs ! nat ci)" using assms(4,5) by (auto simp: list_all_length)
  then show ?thesis using rs cs assms(2-5) by (auto simp: conn_at_def item_def open_conn_def)
qed

text \<open>
  C28: when the backends are ready, a client thread that gets a connection gets the indices of an
  open one; where there are pools it is marked as used. Releasing it returns, resets the indices
  and leaves the backends ready, with the item of the pool free again.
\<close>

theorem client_connection_cycle:
  assumes "backend_ok opts s" "fair_wakes wakes" "backend_pools s \<noteq> None \<or> 0 \<le> tid \<and> tid < opt_num_conns opts"
    "proxy_backend_get_connection r1 r2 wakes tid s = Some (idx, s1)"
  shows "(\<exists>c m. conn_at s1 idx = Some c \<and> conn_mysql c = Some m) \<and> backend_ok opts s1 \<and>
    (\<exists>s2. proxy_backend_release_connection idx s1 = Some (\<lparr>idx_bi = - 1, idx_ci = - 1\<rparr>, s2) \<and> backend_ok opts s2 \<and>
       (backend_pools s \<noteq> None \<longrightarrow> (\<exists>p q. item (backend_pools s1) (idx_bi idx) = Some p \<and> \<not> item_free p (idx_ci idx) \<and>
          item (backend_pools s2) (idx_bi idx) = Some q \<and> item_free q = (item_free p)(idx_ci idx := True))))"
proof -
  define bi where "bi = int r1 mod backend_num s"
  have n: "0 < backend_num s" using assms(1) by (simp add: backend_ok_def)
  then have bi: "0 \<le> bi" "bi < backend_num s" by (simp_all add: bi_def)
  show ?thesis
  proof (cases "backend_pools s")
    case None
    then have "idx = \<lparr>idx_bi = bi, idx_ci = tid\<rparr>" "s1 = s"
      using assms(4) n by (auto simp: proxy_backend_get_connection_def bi_def)
    then show ?thesis using backend_ok_conn [OF assms(1) bi, of tid] assms(1,3) None
      by (simp add: proxy_backend_release_connection_def)
  next
    case (Some ps)
    obtain p where p: "read_at ps bi = Some (Some p)" "pool_inv p" "pool_size p = opt_num_conns opts" "0 < pool_size p"
      using backend_ok_pool [OF assms(1) Some bi] by blast
    obtain ci q where q: "pool_take r2 wakes p = Some (ci, q)" "idx = \<lparr>idx_bi = bi, idx_ci = ci\<rparr>"
      "Some s1 = map_option (\<lambda>ps. s\<lparr>backend_pools := ps\<rparr>) (set_item (backend_pools s) bi (Some q))"
      using assms(4) n Some p(1)
      by (auto simp: proxy_backend_get_connection_def Let_def bi_def [symmetric] item_def bind_eq_Some_conv)
    note t = pool_take_ok [OF assms(2) p(2,4) q(1)]
    have s1: "s1 = s\<lparr>backend_pools := Some (ps[nat bi := Some q])\<rparr>" "backend_ok opts s1" "read_at (ps[nat bi := Some q]) bi = Some (Some q)"
      using backend_ok_set_pool [OF assms(1) Some bi, of q] t p(3) q(3) by auto
    obtain q2 where q2: "proxy_pool_return q ci = Some q2" "pool_inv q2" "pool_size q2 = pool_size q" "item_free q2 = (item_free q)(ci := True)"
      using proxy_pool_return_free [of q ci] t by auto
    have b1: "backend_pools s1 = Some (ps[nat bi := Some q])" "bi < backend_num s1" using s1(1) bi by simp_all
    note s2 = backend_ok_set_pool [OF s1(2) b1(1) bi(1) b1(2) q2(2)]
    show ?thesis
      using backend_ok_conn [OF s1(2) bi(1) b1(2), of ci] t p(3) q(2) s1(2,3) b1(1) s2 q2
      by (auto simp: proxy_backend_release_connection_def item_def)
  qed
qed

text \<open>Growing the arrays does not touch the array of hosts.\<close>

lemma clear_items_keep: "for_each is clear_item s = Some s' \<Longrightarrow> backends s' = backends s \<and> backend_num s' = backend_num s"
proof (induction "is" arbitrary: s)
  case (Cons i "is")
  then obtain s1 where "clear_item i s = Some s1" "for_each is clear_item s1 = Some s'" by (auto simp: bind_eq_Some_conv)
  moreover have "backends s1 = backends s \<and> backend_num s1 = backend_num s"
    using calculation(1) by (auto simp: clear_item_def bind_eq_Some_conv)
  ultimately show ?case using Cons.IH by simp
qed simp

lemma realloc_arrays_keeps:
  "realloc_arrays mem n s = (error, s') \<Longrightarrow>
     backends s' = backends s \<and> backend_num s' = backend_num s \<and> (error \<longleftrightarrow> mem \<noteq> (True, True, True))"
  by (cases mem) (auto simp: realloc_arrays_def Let_def split: if_splits)

lemma backend_resize_keeps:
  assumes "backend_resize mem n before s = Some (error, s')"
  shows "backends s' = backends s \<and> backend_num s' = backend_num s \<and> (error \<longrightarrow> mem \<noteq> (True, True, True))"
proof -
  obtain e s1 where 1: "(if before \<and> n > backend_num s \<or> \<not> before \<and> (of_int n :: uint) < of_int (backend_num s)
      then realloc_arrays mem n s else (False, s)) = (e, s1)" by fastforce
  then have k: "backends s1 = backends s \<and> backend_num s1 = backend_num s \<and> (e \<longrightarrow> mem \<noteq> (True, True, True))"
    by (auto split: if_splits dest: realloc_arrays_keeps)
  have "backends s' = backends s1 \<and> backend_num s' = backend_num s1 \<and> error = e"
    using assms unfolding backend_resize_def 1 by (auto simp: bind_eq_Some_conv split: if_splits dest!: clear_items_keep)
  with k show ?thesis by simp
qed

text \<open>
  Adding a backend never succeeds within allocated memory: the reallocations do not include
  the array of hosts, so when they succeed the new host is written behind its end, whatever size
  the allocator gives the host; it returns only when a reallocation fails, with an error and
  nothing added.
\<close>

theorem proxy_backend_add_overflow:
  assumes "backend_ok opts s" "proxy_backend_add lib opts usable mem garbage h p s cs w = Some (error, s', cs', w')"
  shows "error \<and> mem \<noteq> (True, True, True) \<and> cs' = cs \<and> w' = w \<and> backends s' = backends s \<and> backend_num s' = backend_num s"
proof -
  obtain bs where bs: "backends s = Some bs" "int (length bs) = backend_num s" using assms(1) by (auto simp: backend_ok_def)
  obtain e1 s1 where 1: "backend_resize mem (backend_num s + 1) True s = Some (e1, s1)"
    using assms(2) by (auto simp: proxy_backend_add_def bind_eq_Some_conv)
  note k1 = backend_resize_keeps [OF 1]
  show ?thesis
  proof (cases e1)
    case True
    then show ?thesis using assms(2) 1 k1 by (simp add: proxy_backend_add_def)
  next
    case False
    then obtain e2 s2 where 2: "backend_resize mem (backend_num s1 + 1) False s1 = Some (e2, s2)"
      using assms(2) 1 by (auto simp: proxy_backend_add_def bind_eq_Some_conv)
    note k2 = backend_resize_keeps [OF 2]
    have "set_item (backends s2) (backend_num s2) x = None" for x using bs k1 k2 by (simp add: set_item_def)
    then show ?thesis using assms(2) 1 2 False k1 k2 by (cases e2) (auto simp: proxy_backend_add_def bind_eq_Some_conv)
  qed
qed

section \<open>Concrete runs\<close>

definition sample_opts :: "bool \<Rightarrow> string option \<Rightarrow> options" where
  "sample_opts coord mapper = (set_option_defaults (replicate 46 NUL))
     \<lparr>opt_user := Some ''root'', opt_pass := Some ''root'', opt_db := Some ''test'', opt_iface := Some ''eth0'',
      opt_backend_host := Some ''127.0.0.1'', opt_backend_port := 3306, opt_coordinator := coord, opt_mapper := mapper,
      opt_num_conns := 2, opt_backend_threads := 10\<rparr>"

lemma sample_opts_ok: "coord \<Longrightarrow> options_ok readable (sample_opts coord mapper)"
  by (simp add: options_ok_def sample_opts_def set_option_defaults_def BACKEND_THREADS_def)

lemma sample_opts_fields [simp]:
  "opt_backend_file (sample_opts coord mapper) = None" "opt_num_conns (sample_opts coord mapper) = 2"
  "opt_backend_threads (sample_opts coord mapper) = 10" "opt_coordinator (sample_opts coord mapper) = coord"
  "opt_mapper (sample_opts coord mapper) = mapper"
  by (simp_all add: sample_opts_def set_option_defaults_def)

lemma script_connects: "connects script_lib"
  by (simp add: connects_def script_lib_def)

theorem coordinator_needs_mapper_witness:
  "options_ok (\<lambda>_. True) (sample_opts True None) \<and>
   proxy_backend_connect script_lib (sample_opts True None) backend_globals (script_world (\<lambda>_. [])) = None"
  using coordinator_needs_mapper [of "\<lambda>_. True" "sample_opts True None" script_lib "script_world (\<lambda>_. [])"]
  by (simp add: sample_opts_ok script_connects)


definition sample_backend :: backend_state where
  "sample_backend =
     \<lparr>backends = Some [Some \<lparr>host = ''127.0.0.1'', port = 3306\<rparr>],
      backend_conns = Some [Some [Some \<lparr>conn_mysql = Some 1, conn_freed = False\<rparr>, Some \<lparr>conn_mysql = Some 2, conn_freed = False\<rparr>]],
      backend_pools = Some [Some \<lparr>pool_size = 2, pool_alloc = 2, pool_locked = 0, avail = [True, True]\<rparr>],
      backend_num = 1, backend_threads = Some [None], backend_thread_pool = None\<rparr>"

lemma sample_backend_ok: "backend_ok (sample_opts True mapper) sample_backend"
  by (auto simp: backend_ok_def sample_backend_def row_ok_def open_conn_def conn_pool_ok_def intro!: pool_invI)

theorem proxy_backend_add_overflow_witness:
  "\<exists>s'. proxy_backend_add script_lib (sample_opts True None) (\<lambda>n. 2 * n) (True, False, True) False ''10.0.0.2'' 3306 sample_backend clone_globals
       (script_world (\<lambda>_. [])) = Some (True, s', clone_globals, script_world (\<lambda>_. [])) \<and> backends s' = backends sample_backend"
proof -
  obtain e s' cs' w' where a: "proxy_backend_add script_lib (sample_opts True None) (\<lambda>n. 2 * n) (True, False, True) False ''10.0.0.2'' 3306
    sample_backend clone_globals (script_world (\<lambda>_. [])) = Some (e, s', cs', w')"
    by (simp add: proxy_backend_add_def backend_resize_def realloc_arrays_def sample_backend_def)
  from proxy_backend_add_overflow [OF sample_backend_ok a] a show ?thesis by auto
qed

theorem client_connection_cycle_witness:
  "\<exists>idx s1 s2. proxy_backend_get_connection 3 0 [] 0 sample_backend = Some (idx, s1) \<and> idx = \<lparr>idx_bi = 0, idx_ci = 1\<rparr> \<and>
     conn_at s1 idx \<noteq> None \<and> proxy_backend_release_connection idx s1 = Some (\<lparr>idx_bi = - 1, idx_ci = - 1\<rparr>, s2)"
proof -
  obtain s1 where g: "proxy_backend_get_connection 3 0 [] 0 sample_backend = Some (\<lparr>idx_bi = 0, idx_ci = 1\<rparr>, s1)"
    by (simp add: proxy_backend_get_connection_def sample_backend_def item_def set_item_def pool_take_def proxy_pool_get_def
        pool_try_locks_def numeral_2_eq_2)
  have "fair_wakes []" by (simp add: fair_wakes_def)
  from client_connection_cycle [OF sample_backend_ok [of None] this _ g] show ?thesis using g by (auto simp: sample_backend_def)
qed

end
