(* ===== verification/Query_Map.thy ===== *)
theory Query_Map
  imports C_String
begin

text \<open>
  The query mapper of \<open>map/proxy_map_rowa.c\<close> (read one, write all): statements that start
  with one of four keywords go to any one backend, all others to every backend. The query is a
  buffer with the text at offset 0; the mapper never rewrites it.
\<close>

datatype proxy_query_map_t = QUERY_MAP_ANY | QUERY_MAP_ALL

definition read_only_keywords :: "string list" where
  "read_only_keywords = [''SELECT'', ''SHOW'', ''DESCRIBE'', ''EXPLAIN'']"

text \<open>The disjunction of the code, evaluated from left to right.\<close>

fun strprefix_any :: "cbuf \<Rightarrow> ulong \<Rightarrow> string list \<Rightarrow> bool option" where
  "strprefix_any query len [] = Some False"
| "strprefix_any query len (kw # kws) =
     do { m \<leftarrow> strprefix query 0 kw len; if m then Some True else strprefix_any query len kws }"

text \<open>The second component is the rewritten query: always a null pointer.\<close>

definition proxy_map_query :: "cbuf \<Rightarrow> ulong \<Rightarrow> (proxy_query_map_t \<times> cbuf option) option" where
  "proxy_map_query query query_len =
     do {
       m \<leftarrow> strprefix_any query query_len read_only_keywords;
       Some (if m then QUERY_MAP_ANY else QUERY_MAP_ALL, None)
     }"

section \<open>Correctness\<close>

text \<open>A string starts with a keyword, whatever the case of the letters.\<close>

definition starts_with :: "string \<Rightarrow> string \<Rightarrow> bool" where
  "starts_with s kw \<longleftrightarrow> length kw \<le> length s \<and> map to_lower (take (length kw) s) = map to_lower kw"

lemma strprefix_cstr:
  assumes "cstr b i = Some s" "NUL \<notin> set lit" "length s \<le> unat len" "length lit < 2 ^ 64"
  shows "strprefix b i lit len = Some (starts_with s lit)"
proof (cases "unat len < length lit")
  case True
  then have "of_nat (length lit) > len"
    using assms(4) by (simp add: word_less_nat_alt unat_of_nat)
  then show ?thesis using True assms(3) by (simp add: strprefix_def starts_with_def)
next
  case False
  then have "\<not> of_nat (length lit) > len" using assms(4) by (simp add: word_less_nat_alt unat_of_nat)
  then show ?thesis using strncaseeq_cstr [OF assms(1,2)] by (simp add: strprefix_def starts_with_def)
qed

lemma strprefix_any_cstr:
  assumes "cstr b 0 = Some s" "length s \<le> unat len" "\<forall>kw\<in>set kws. NUL \<notin> set kw \<and> length kw < 2 ^ 64"
  shows "strprefix_any b len kws = Some (\<exists>kw\<in>set kws. starts_with s kw)"
  using assms(3)
proof (induction kws)
  case (Cons kw kws)
  then show ?case using strprefix_cstr [OF assms(1) _ assms(2)] by simp
qed simp

lemma starts_with_unique_first:
  assumes "starts_with s kw" "kw \<noteq> []"
  shows "s \<noteq> [] \<and> to_lower (hd s) = to_lower (hd kw)"
  using assms by (cases s; cases kw) (auto simp: starts_with_def)

text \<open>
  C13: for every query text without NUL, of the given length and followed by NUL, the mapper is
  defined, leaves the query as it is, and sends it to a single backend exactly when it starts,
  in upper or lower case, with one of the four read-only keywords; everything else goes to all
  backends.
\<close>

theorem proxy_map_query_read_one_write_all:
  assumes "NUL \<notin> set s" "length s < 2 ^ 64"
  shows "proxy_map_query (s @ NUL # junk) (of_nat (length s)) =
    Some (if starts_with s ''SELECT'' \<or> starts_with s ''SHOW'' \<or> starts_with s ''DESCRIBE'' \<or> starts_with s ''EXPLAIN''
          then QUERY_MAP_ANY else QUERY_MAP_ALL, None)"
proof -
  have c: "cstr (s @ NUL # junk) 0 = Some s" using cstr_append [OF assms(1), of "[]"] by simp
  have l: "length s \<le> unat (of_nat (length s) :: ulong)" using assms(2) by (simp add: unat_of_nat)
  have "strprefix_any (s @ NUL # junk) (of_nat (length s)) read_only_keywords =
      Some (\<exists>kw\<in>set read_only_keywords. starts_with s kw)"
    by (rule strprefix_any_cstr [OF c l]) (simp add: read_only_keywords_def)
  then show ?thesis by (simp add: proxy_map_query_def read_only_keywords_def)
qed

theorem proxy_map_query_read_one_write_all_witness:
  "proxy_map_query (''select 1'' @ [NUL]) 8 = Some (QUERY_MAP_ANY, None) \<and>
   proxy_map_query (''UPDATE t'' @ [NUL]) 8 = Some (QUERY_MAP_ALL, None)"
proof -
  have "starts_with ''select 1'' ''SELECT''" by code_simp
  moreover have "\<not> starts_with ''UPDATE t'' ''SELECT''" "\<not> starts_with ''UPDATE t'' ''SHOW''"
    "\<not> starts_with ''UPDATE t'' ''DESCRIBE''" "\<not> starts_with ''UPDATE t'' ''EXPLAIN''"
    by code_simp+
  ultimately show ?thesis
    using proxy_map_query_read_one_write_all [of "''select 1''" "[]"]
      proxy_map_query_read_one_write_all [of "''UPDATE t''" "[]"]
    by simp
qed

end
