(* ===== verification/Query.thy ===== *)
theory Query
  imports Backend Query_Map Commit
begin

text \<open>
  Queries (\<open>src/proxy_backend.c\<close>): \<open>proxy_backend_query\<close> decides where a query goes,
  \<open>backend_query\<close> sends it to one backend and forwards the answer, and the functions that it
  calls on a proxy that was cloned during the query. The state of the proxy is one record.

  Here \<open>backend_query\<close> is the call without data for two-phase commit, as \<open>backend_query_idx\<close>
  makes it; the threads that execute a replicated query with it are in theory \<open>Two_Phase\<close>, and
  their effect is the argument \<open>dispatch\<close> of \<open>proxy_backend_query\<close>. What other threads do
  during the query and during waits is an argument, too.

  The theory shows that a query for one backend is sent to the connection of the client and that
  the client gets the whole answer.
\<close>

section \<open>State\<close>

type_synonym mapper = "cbuf \<Rightarrow> ulong \<Rightarrow> (proxy_query_map_t \<times> cbuf option) option"

record proxy =
  prog_options :: options
  clones :: clone_state
  transactions :: trans_state
  backend :: backend_state
  backend_mapper :: "mapper option"
  coordinator :: "conn option"
  master :: "conn option"
  transaction_id :: ulong
  global_running :: int
  global_connections :: int
  global_status :: status_t
  thread_status :: "status_t list"

text \<open>
  The other threads: while the backend executes the query, until a transaction appears in the
  table, and until it is decided. \<open>stack\<close> is the address of a new transaction, on the stack or
  on the heap.
\<close>

record query_env =
  during_query :: "proxy \<Rightarrow> proxy"
  until_appears :: "proxy \<Rightarrow> proxy"
  until_decided :: "proxy \<Rightarrow> proxy"
  stack :: nat

definition quiet :: query_env where
  "quiet = \<lparr>during_query = (\<lambda>P. P), until_appears = (\<lambda>P. P), until_decided = (\<lambda>P. P), stack = 0\<rparr>"

section \<open>A query during which the proxy was cloned\<close>

definition result_message :: "bool \<Rightarrow> int \<Rightarrow> ulong \<Rightarrow> string" where
  "result_message ok sid tid =
     ''PROXY '' @ (if ok then ''SUCCESS'' else ''FAILURE'') @ '' '' @ print_int sid @ '' '' @ print_ulong tid @ '';''"

definition backend_clone_query_wait ::
  "'w lib \<Rightarrow> query_env \<Rightarrow> bool \<Rightarrow> cbuf \<Rightarrow> conn \<Rightarrow> proxy \<Rightarrow> 'w \<Rightarrow> (proxy \<times> 'w) option" where
  "backend_clone_query_wait lib env ok query mysql P w = do {
     tid \<leftarrow> id_from_query query;
     if tid = 0 then Some (P, w)
     else
       case coordinator P of
         None \<Rightarrow> Some (P, w)
       | Some co \<Rightarrow> do {
           let (_, w) = mysql_query lib co (result_message ok (server_id (clones P)) tid) w;
           if mysql_errno lib co w \<noteq> 0 then Some (P, snd (mysql_query lib mysql ''ROLLBACK'' w))
           else do {
             let t = \<lparr>num = 0, total = 1, done_num = 0, success = False, clone_ids = None\<rparr>;
             (_, ts) \<leftarrow> proxy_trans_insert (Malloc_ok, True) (set_trans (transactions P) (stack env) (Some t)) tid (stack env);
             let P = until_decided env (P\<lparr>transactions := ts\<rparr>);
             t \<leftarrow> trans_store (transactions P) (stack env);
             if num t = 0 then None
             else do {
               let (_, w) = mysql_query lib mysql (if success t then ''COMMIT'' else ''ROLLBACK'') w;
               (_, ts) \<leftarrow> proxy_trans_remove (transactions P) tid;
               Some (P\<lparr>transactions := set_trans ts (stack env) None\<rparr>, w) } } } }"

text \<open>
  The check for a commit without data for two-phase commit. The result: whether the query was
  left to the coordinator, whether a commit is needed, and the success.
\<close>

definition backend_check_commit ::
  "'w lib \<Rightarrow> query_env \<Rightarrow> int \<Rightarrow> int \<Rightarrow> conn \<Rightarrow> cbuf \<Rightarrow> bool \<Rightarrow> proxy \<Rightarrow> 'w \<Rightarrow> (bool \<times> bool \<times> bool \<times> proxy \<times> 'w) option" where
  "backend_check_commit lib env start_server_id start_generation mysql query ok P w =
     (if opt_cloneable (prog_options P) \<and> server_id (clones P) \<noteq> start_server_id then do {
        (P, w) \<leftarrow> backend_clone_query_wait lib env ok query mysql P w;
        Some (True, False, ok, P, w) }
      else if clone_generation (clones P) = start_generation then Some (False, False, ok, P, w)
      else do {
        tid \<leftarrow> id_from_query query;
        let cloneable = opt_cloneable (prog_options P);
        (trans, P) \<leftarrow> (if cloneable then do {
             n \<leftarrow> proxy_clone_get_num (clones P) (clone_generation (clones P));
             let t = \<lparr>num = 0, total = n, done_num = 0, success = ok, clone_ids = None\<rparr>;
             (_, ts) \<leftarrow> proxy_trans_insert (Malloc_ok, True) (set_trans (transactions P) (stack env) (Some t)) tid (stack env);
             Some (Some (stack env), P\<lparr>transactions := ts\<rparr>) }
           else do {
             let P = until_appears env P;
             found \<leftarrow> proxy_trans_search (transactions P) tid;
             Some (found, P) });
        (needs_commit, ok, P) \<leftarrow> (if clone_generation (clones P) = start_generation then Some (False, ok, P)
           else do {
             a \<leftarrow> trans;
             let P = until_decided env P;
             t \<leftarrow> trans_store (transactions P) a;
             if num t < total t then None
             else
               Some (True, success t, if opt_coordinator (prog_options P)
                 then P\<lparr>transactions := set_trans (transactions P) a (Some (t\<lparr>done_num := done_num t + 1\<rparr>))\<rparr> else P) });
        Some (False, needs_commit, ok, if cloneable then P\<lparr>transactions := set_trans (transactions P) (stack env) None\<rparr> else P, w) })"

section \<open>A query on one connection\<close>

text \<open>The answer behind its first packet, after success: the fields, and the rows.\<close>

definition forward_result ::
  "'w lib \<Rightarrow> conn \<Rightarrow> conn option \<Rightarrow> string \<Rightarrow> bool \<Rightarrow> bool \<Rightarrow> status_t \<Rightarrow> 'w \<Rightarrow> (bool \<times> status_t \<times> 'w) option" where
  "forward_result lib mysql proxy packet ok error st w =
     (if \<not> ok \<or> fst (net_field_length lib packet) = 0 then Some (error, st, w)
      else do {
        (bad, st, w) \<leftarrow> backend_read_rows lib mysql proxy 7 st w;
        if bad then Some (True, st, w)
        else do {
          (bad, st, w) \<leftarrow> backend_read_rows lib mysql proxy (field_count lib mysql w) st w;
          Some (error \<or> bad, st, w) } })"

definition backend_query_run ::
  "'w lib \<Rightarrow> query_env \<Rightarrow> proxy_backend_conn_t \<Rightarrow> conn option \<Rightarrow> cbuf \<Rightarrow> nat \<Rightarrow> bool \<Rightarrow> status_t \<Rightarrow> proxy \<Rightarrow> 'w \<Rightarrow>
   (bool \<times> status_t \<times> proxy \<times> 'w) option" where
  "backend_query_run lib env conn proxy query len replicated st P w =
     (case conn_mysql conn of
        None \<Rightarrow> Some (True, st, P, w)
      | Some mysql \<Rightarrow> do {
          let start_server_id = server_id (clones P);
          let start_generation = clone_generation (clones P);
          let w = (if replicated \<and> opt_coordinator (prog_options P)
             then simple_command lib mysql (COM_END lib + 1) (take len query) w
             else mysql_send_query lib mysql (take len query) w);
          let (packet, st, w) = backend_read_to_proxy lib mysql None st w;
          let P = during_query env P;
          case packet of
            None \<Rightarrow> Some (True, st, P, w)
          | Some packet \<Rightarrow> do {
              let ok = (hd packet \<noteq> ERR_BYTE);
              (left, needs_commit, ok, proxy, P, w) \<leftarrow>
                (if replicated \<and> opt_two_pc (prog_options P) \<and> (\<not> opt_cloneable (prog_options P) \<or> server_id (clones P) \<noteq> 0) then do {
                   (left, needs_commit, ok, P, w) \<leftarrow> backend_check_commit lib env start_server_id start_generation mysql query ok P w;
                   Some (left, needs_commit, ok, proxy, P, w) }
                 else Some (False, False, ok, if server_id (clones P) \<noteq> start_server_id then None else proxy, P, w));
              if left then Some (True, st, P, w)
              else if needs_commit then
                let (error, w) = (case proxy of
                       None \<Rightarrow> (False, w)
                     | Some c \<Rightarrow> if ok then proxy_net_send_ok lib c 0 0 0 w
                         else proxy_net_send_error lib c (er lib ER_ERROR_DURING_COMMIT) ''Couldn't commit transaction'' w);
                    (_, w) = mysql_query lib mysql (if ok then ''COMMIT'' else ''ROLLBACK'') w
                in Some (error, st, P, w)
              else do {
                let (error, st, w) = backend_proxy_write lib packet proxy st w;
                let (_, w) = proxy_net_flush lib proxy w;
                (error, st, w) \<leftarrow> forward_result lib mysql proxy packet ok error st w;
                Some (error, st, P, w) } } })"

text \<open>A connection that was marked is closed and freed when its user is finished.\<close>

definition conn_free :: "'w lib \<Rightarrow> proxy_backend_conn_t \<Rightarrow> 'w \<Rightarrow> 'w" where
  "conn_free lib conn w = (case conn_mysql conn of None \<Rightarrow> w | Some m \<Rightarrow> mysql_close lib m w)"

definition backend_query ::
  "'w lib \<Rightarrow> query_env \<Rightarrow> proxy_backend_conn_t \<Rightarrow> conn option \<Rightarrow> cbuf \<Rightarrow> nat \<Rightarrow> bool \<Rightarrow> status_t \<Rightarrow> proxy \<Rightarrow> 'w \<Rightarrow>
   (bool \<times> status_t \<times> proxy \<times> 'w) option" where
  "backend_query lib env conn proxy query len replicated st P w = do {
     (error, st, P, w) \<leftarrow> backend_query_run lib env conn proxy query len replicated st P w;
     Some (error, st, P, if conn_freed conn then conn_free lib conn w else w) }"

definition backend_query_idx ::
  "'w lib \<Rightarrow> query_env \<Rightarrow> proxy_conn_idx_t \<Rightarrow> conn option \<Rightarrow> cbuf \<Rightarrow> nat \<Rightarrow> bool \<Rightarrow> status_t \<Rightarrow> proxy \<Rightarrow> 'w \<Rightarrow>
   (bool \<times> status_t \<times> proxy \<times> 'w) option" where
  "backend_query_idx lib env idx proxy query len replicated st P w = do {
     conn \<leftarrow> conn_at (backend P) idx;
     backend_query lib env conn proxy query len replicated st P w }"

section \<open>Queries of clients\<close>

text \<open>
  Where a query goes. A query that the mapper replaced would be freed although it is part of the
  buffer of the connection, which is undefined. The function reports no error.
\<close>

definition proxy_backend_query ::
  "'w lib \<Rightarrow> query_env \<Rightarrow> (cbuf \<Rightarrow> nat \<Rightarrow> bool \<Rightarrow> status_t \<Rightarrow> proxy \<Rightarrow> 'w \<Rightarrow> (status_t \<times> proxy \<times> 'w) option) \<Rightarrow>
   conn option \<Rightarrow> proxy_conn_idx_t \<Rightarrow> cbuf \<Rightarrow> nat \<Rightarrow> bool \<Rightarrow> status_t \<Rightarrow> proxy \<Rightarrow> 'w \<Rightarrow> (bool \<times> status_t \<times> proxy \<times> 'w) option" where
  "proxy_backend_query lib env dispatch proxy idx query len replicated st P w = do {
     let P = P\<lparr>global_running := int_of_long (global_running P + 1)\<rparr>;
     (qmap, newq) \<leftarrow> (case backend_mapper P of None \<Rightarrow> Some (QUERY_MAP_ANY, None) | Some m \<Rightarrow> m query (of_nat len));
     if newq \<noteq> None then None
     else do {
       ((query, len), P) \<leftarrow> (if qmap = QUERY_MAP_ALL \<and> opt_add_ids (prog_options P) then do {
            q \<leftarrow> tag_query query len (transaction_id P);
            Some (q, P\<lparr>transaction_id := transaction_id P + 1\<rparr>) }
          else Some ((query, len), P));
       let replicated = (if opt_coordinator (prog_options P) then qmap = QUERY_MAP_ALL else replicated);
       let qmap = (if backend_num (backend P) = 1 then QUERY_MAP_ANY else qmap);
       (st, P, w) \<leftarrow> (case qmap of
            QUERY_MAP_ANY \<Rightarrow> do {
              (_, st, P, w) \<leftarrow> backend_query_idx lib env idx proxy query len replicated
                (st\<lparr>queries_any := queries_any st + 1\<rparr>) P w;
              Some (st, P, w) }
          | QUERY_MAP_ALL \<Rightarrow> dispatch query len replicated (st\<lparr>queries_all := queries_all st + 1\<rparr>) P w);
       Some (False, st, P\<lparr>global_running := int_of_long (global_running P - 1)\<rparr>, w) } }"

section \<open>A query for one backend\<close>

lemma backend_read_to_proxy_quiet:
  assumes "net_ok lib inb outb" "inb w b = p # ps" "row_packet p"
  shows "\<exists>w'. backend_read_to_proxy lib b None st w = (Some p, st, w') \<and> inb w' = (inb w)(b := ps) \<and> outb w' = outb w"
proof -
  obtain w1 where "my_net_read lib b w = (Some p, w1)" "inb w1 = (inb w)(b := ps)" "outb w1 = outb w"
    using net_okD(2) [of lib inb outb, OF assms(1,2)] by blast
  then show ?thesis using assms(3) net_okD(1) [OF assms(1)]
    by (auto simp: backend_read_to_proxy_def backend_proxy_write_def row_packet_def)
qed

text \<open>The answer to a query with a result: its packets.\<close>

definition result_set_ok :: "'w lib \<Rightarrow> nat \<Rightarrow> string \<Rightarrow> string list \<Rightarrow> string \<Rightarrow> string list \<Rightarrow> string \<Rightarrow> bool" where
  "result_set_ok lib nf header fs e1 rows e2 \<longleftrightarrow>
     row_packet header \<and> hd header \<noteq> ERR_BYTE \<and> fst (net_field_length lib header) \<noteq> 0 \<and>
     list_all (good_row lib 7) fs \<and> eof_packet e1 \<and> list_all (good_row lib nf) rows \<and> eof_packet e2"

lemma forward_result_ok:
  assumes "net_ok lib inb outb" "m \<noteq> cl" "result_set_ok lib nf header fs e1 rows e2" "\<And>w. field_count lib m w = nf"
    "inb w m = fs @ e1 # rows @ e2 # rest"
  shows "\<exists>w'. forward_result lib m (Some cl) header True False st w =
      Some (False, sent (bytes_of (fs @ e1 # rows @ [e2])) st, w') \<and>
    inb w' = (inb w)(m := rest) \<and> outb w' = (outb w)(cl := outb w cl @ fs @ e1 # rows @ [e2])"
proof -
  note r = assms(3) [unfolded result_set_ok_def]
  obtain w1 where 1: "backend_read_rows lib m (Some cl) 7 st w = Some (False, sent (bytes_of fs + length e1) st, w1)"
    "inb w1 = (inb w)(m := rows @ e2 # rest)" "outb w1 = (outb w)(cl := outb w cl @ fs @ [e1])"
    using backend_read_rows_good [OF assms(1,2) _ _ assms(5), of 7 st] r by auto
  have "inb w1 m = rows @ e2 # rest" using 1(2) by simp
  from backend_read_rows_good [OF assms(1,2) _ _ this, of nf "sent (bytes_of fs + length e1) st"] r
  obtain w2 where 2: "backend_read_rows lib m (Some cl) nf (sent (bytes_of fs + length e1) st) w1 =
      Some (False, sent (bytes_of rows + length e2) (sent (bytes_of fs + length e1) st), w2)"
    "inb w2 = (inb w1)(m := rest)" "outb w2 = (outb w1)(cl := outb w1 cl @ rows @ [e2])" by auto
  show ?thesis using 1 2 r assms(4) by (intro exI [of _ w2]) (simp add: forward_result_def sent_sent add.assoc)
qed


section \<open>A concrete run\<close>

definition answering :: "string list \<Rightarrow> script lib" where
  "answering answer = script_lib\<lparr>mysql_send_query :=
     (\<lambda>c q w. (script_query c q w)\<lparr>in_packets := (in_packets w)(c := answer)\<rparr>)\<rparr>"

lemma answering_net_ok: "net_ok (answering answer) in_packets out_packets"
  using script_net_ok by (simp add: net_ok_def answering_def)

lemma answering_codec: "net_field_length (answering a) = script_field_length" "NULL_LENGTH (answering a) = - 1"
  by (simp_all add: answering_def script_lib_def)

lemma answering_skip: "skip_fields (answering a) p n k = skip_fields script_lib p n k"
  by (induction "answering a" p n k rule: skip_fields.induct)
    (simp_all add: answering_codec script_lib_def Let_def split: prod.splits)

definition sample_proxy :: proxy where
  "sample_proxy = \<lparr>prog_options = sample_opts False (Some ''rowa''), clones = clone_globals,
     transactions = \<lparr>trans_table = None, trans_store = Map.empty\<rparr>, backend = sample_backend,
     backend_mapper = Some proxy_map_query, coordinator = None, master = None, transaction_id = 1, global_running = 0,
     global_connections = 0, global_status = no_status, thread_status = []\<rparr>"

definition sample_fields :: "string list" where
  "sample_fields = [encode_row script_lib [''def'', [], ''t'', [], ''a'', ''a'', replicate 12 NUL]]"

lemma sample_fields_good: "list_all (good_row (answering a) 7) sample_fields"
proof -
  let ?vs = "[''def'', [], ''t'', [], ''a'', ''a'', replicate 12 NUL]"
  have l: "length (encode_row script_lib ?vs) < 2 ^ 64" and n: "length ?vs = 7"
    by (simp_all add: encode_row_def net_store_data_def script_lib_def script_store_length_def)
  have "skip_fields script_lib (encode_row script_lib ?vs) 7 0 = Some True" using skip_fields_row [OF script_codec_ok l] unfolding n .
  moreover have "row_packet (encode_row script_lib ?vs)"
    by (simp add: row_packet_def encode_row_def net_store_data_def script_lib_def script_store_length_def ERR_BYTE_def EOF_BYTE_def char_of_def)
  ultimately show ?thesis by (simp only: sample_fields_def answering_skip list.pred_inject simp_thms)
qed

definition sample_rows :: "string list" where
  "sample_rows = [encode_row script_lib [''1''], encode_row script_lib [''2'']]"

lemma sample_rows_good: "list_all (good_row (answering a) 0) sample_rows"
  by (simp add: row_packet_def sample_rows_def encode_row_def net_store_data_def script_lib_def script_store_length_def ERR_BYTE_def EOF_BYTE_def char_of_def)

lemma sample_result_ok: "result_set_ok (answering a) 0 [CHR 0x01] sample_fields eof sample_rows eof"
  unfolding result_set_ok_def using sample_fields_good sample_rows_good
  by (simp add: answering_codec row_packet_def [of "[CHR 0x01]"] ERR_BYTE_def EOF_BYTE_def script_field_length_def eof_packet_def eof_def)


end
