(* ===== verification/Cmd.thy ===== *)
theory Cmd
  imports Query
begin

text \<open>
  The \<open>PROXY\<close> commands (\<open>src/proxy_cmd.c\<close>): the dispatcher, which tokenizes the text of a
  query in its buffer, and the handlers. A handler gets the buffer and the pointer of the
  tokenizer, as in the code. Clones, other threads, the resolver and the outcomes of allocations
  are the arguments collected in \<open>cmd_env\<close>.

  The theory shows that a clone's report of the result of a transaction reaches the coordinator
  with the identifiers and the result that the clone sent.
\<close>

section \<open>Environment\<close>

record cmd_env =
  nump_ok :: bool
  table_mem :: "expand_alloc \<times> bool"
  ticket :: "int option"
  clone_answer :: "(int \<times> int) option"
  new_addrs :: "string list"
  stack_text :: string
  clone_wakes :: "(nat \<times> bool) list"
  usable :: "nat \<Rightarrow> nat"
  realloc_ok :: "bool \<times> bool \<times> bool"
  conn_garbage :: bool
  trans_mem :: "nat option"
  pool_rand :: nat
  pool_wakes :: "((pool_t \<Rightarrow> pool_t) \<times> nat) list"
  local_done :: "trans_state \<Rightarrow> trans_state"
  trans_found :: "trans_state \<Rightarrow> trans_state"
  resolve :: "string \<Rightarrow> string option"
  uptime :: int
  threads_locked :: int
  sf_tickets :: "(string \<times> int list) list option"

type_synonym 'w reply = "(bool \<times> status_t \<times> proxy \<times> 'w) option"

definition reply_error :: "'w lib \<Rightarrow> conn \<Rightarrow> int \<Rightarrow> string \<Rightarrow> status_t \<Rightarrow> proxy \<Rightarrow> 'w \<Rightarrow> 'w reply" where
  "reply_error lib mysql code msg st P w = (let (e, w) = proxy_net_send_error lib mysql code msg w in Some (e, st, P, w))"

definition reply_ok :: "'w lib \<Rightarrow> conn \<Rightarrow> status_t \<Rightarrow> proxy \<Rightarrow> 'w \<Rightarrow> 'w reply" where
  "reply_ok lib mysql st P w = (let (e, w) = proxy_net_send_ok lib mysql 0 0 0 w in Some (e, st, P, w))"

text \<open>The next token as a string, with the pointer behind it and the buffer.\<close>

definition next_token :: "string \<Rightarrow> cbuf \<Rightarrow> nat option \<Rightarrow> (string option \<times> nat option \<times> cbuf) option" where
  "next_token ds b t = do {
     (tok, t, b) \<leftarrow> strtok_r ds b None t;
     case tok of
       None \<Rightarrow> Some (None, t, b)
     | Some i \<Rightarrow> do { s \<leftarrow> cstr b i; Some (Some s, t, b) } }"

section \<open>PROXY STATUS\<close>

definition status_rows :: "cmd_env \<Rightarrow> proxy \<Rightarrow> status_t \<Rightarrow> (string \<times> ulong) list" where
  "status_rows env P s =
     [(''Connections'', of_int (global_connections P)), (''Bytes_received'', bytes_recv s), (''Bytes_sent'', bytes_sent s),
      (''Queries'', queries s), (''Queries_any'', queries_any s), (''Queries_all'', queries_all s),
      (''Threads_connected'', of_int (threads_locked env)), (''Threads_running'', of_int (global_running P)),
      (''Uptime'', of_int (uptime env))]"

text \<open>The status of all client threads, as it is stored when the command is executed.\<close>

definition total_status :: "proxy \<Rightarrow> status_t" where
  "total_status P =
     fold proxy_status_add (take (nat (opt_client_threads (prog_options P))) (thread_status P))
       (proxy_status_add (global_status P) (proxy_status_reset (global_status P)))"

text \<open>
  The rows of the session are read from the status while sending them changes it: the counter of
  sent bytes is the one after the rows before it.
\<close>

definition send_status_rows :: "'w lib \<Rightarrow> cmd_env \<Rightarrow> conn \<Rightarrow> bool \<Rightarrow> proxy \<Rightarrow> status_t \<Rightarrow> 'w \<Rightarrow> (status_t \<times> 'w) option" where
  "send_status_rows lib env mysql session P st w =
     (if session then do {
        (st, w) \<leftarrow> add_rows lib mysql (take 2 (status_rows env P st)) st w;
        (st, w) \<leftarrow> add_rows lib mysql (take 1 (drop 2 (status_rows env P st))) st w;
        add_rows lib mysql (drop 3 (status_rows env P st)) st w }
      else add_rows lib mysql (status_rows env P (total_status P)) st w)"

definition net_status :: "'w lib \<Rightarrow> cmd_env \<Rightarrow> conn \<Rightarrow> cbuf \<Rightarrow> nat \<Rightarrow> nat \<Rightarrow> status_t \<Rightarrow> proxy \<Rightarrow> 'w \<Rightarrow> 'w reply" where
  "net_status lib env mysql b q len st P w = do {
     sp \<leftarrow> strrchr b q (CHR '' '');
     let last_tok = map_option Suc sp;
     (pch, t, b) \<leftarrow> strtok_r '' '' b (Some q) None;
     i \<leftarrow> pch;
     is_global \<leftarrow> (if pch = last_tok then Some True else strprefix b i ''GLOBAL'' (of_nat len));
     session \<leftarrow> (if is_global then Some False else strprefix b i ''SESSION'' (of_nat len));
     if \<not> (is_global \<or> session) \<and> pch \<noteq> last_tok then
       reply_error lib mysql (er lib ER_SYNTAX_ERROR) ''Status type must be GLOBAL or SESSION'' st P w
     else do {
       let (st, w) = net_result_header lib mysql 2 st w;
       let (st, w) = send_status_field lib mysql ''Variable_name'' ''VARIABLE_NAME'' st w;
       let (st, w) = send_status_field lib mysql ''Value'' ''VARIABLE_VALUE'' st w;
       let (st, w) = proxy_net_send_eof lib mysql st w;
       (st, w) \<leftarrow> send_status_rows lib env mysql session P st w;
       let (st, w) = proxy_net_send_eof lib mysql st w;
       let (_, w) = proxy_net_flush lib (Some mysql) w;
       Some (False, st, P, w) } }"

section \<open>PROXY CLONE and PROXY CLONES\<close>

definition add_message :: "int \<Rightarrow> string \<Rightarrow> int \<Rightarrow> string" where
  "add_message sid h p = ''PROXY ADD '' @ print_int sid @ '' '' @ h @ '':'' @ print_int p @ '';''"

definition clone_message :: "int \<Rightarrow> string" where
  "clone_message n = ''PROXY CLONE '' @ print_int n @ '';''"

text \<open>
  Up to five attempts to connect to the coordinator again. After a failed attempt the connection
  is closed and used again all the same.
\<close>

fun reconnect :: "'w lib \<Rightarrow> options \<Rightarrow> conn \<Rightarrow> string \<Rightarrow> int \<Rightarrow> nat \<Rightarrow> 'w \<Rightarrow> bool \<times> 'w" where
  "reconnect lib opts m h p 0 w = (True, w)"
| "reconnect lib opts m h p (Suc n) w =
     (let (ok, w) = mysql_real_connect lib m (Some h) (opt_user opts) (opt_pass opts) None p None w
      in if ok then (False, w) else reconnect lib opts m h p n (mysql_close lib m w))"

text \<open>A new clone connects to the coordinator and announces its address.\<close>

definition announce_clone :: "'w lib \<Rightarrow> status_t \<Rightarrow> proxy \<Rightarrow> 'w \<Rightarrow> 'w reply" where
  "announce_clone lib st P w = do {
     let (new, w) = mysql_init lib w;
     m \<leftarrow> new;
     co \<leftarrow> coordinator P;
     let w = mysql_reconnect lib m w;
     let opts = prog_options P;
     let (error, w) = reconnect lib opts m (conn_host lib co w) (conn_port lib co w) 5 w;
     let P = P\<lparr>clones := proxy_clone_complete (clones P)\<rparr>;
     if error then Some (True, st, P, w)
     else do {
       let w = mysql_close lib co w;
       let (_, w) = mysql_query lib m (add_message (server_id (clones P)) (takeWhile (\<lambda>c. c \<noteq> NUL) (opt_phost opts)) (opt_pport opts)) w;
       Some (True, st, P\<lparr>coordinator := Some m\<rparr>, w) } }"

definition clone_on_master :: "'w lib \<Rightarrow> cmd_env \<Rightarrow> conn \<Rightarrow> int \<Rightarrow> status_t \<Rightarrow> proxy \<Rightarrow> 'w \<Rightarrow> 'w reply" where
  "clone_on_master lib env mysql nclones st P w = do {
     (ret, err, opts, cs) \<leftarrow>
       proxy_do_clone (nump_ok env) (table_mem env) (ticket env) (clone_answer env) (new_addrs env) nclones (prog_options P) (clones P);
     let P = P\<lparr>prog_options := opts, clones := cs\<rparr>;
     let done_P = P\<lparr>clones := proxy_clone_complete cs\<rparr>;
     if ret < 0 then
       reply_error lib mysql (er lib ER_ERROR_WHEN_EXECUTING_COMMAND) (case err of None \<Rightarrow> stack_text env | Some e \<Rightarrow> e) st done_P w
     else if ret = 0 then reply_ok lib mysql st done_P w
     else announce_clone lib st P w }"

text \<open>
  The coordinator first waits until no query is in its commit phase; this wait is part of theory
  \<open>Two_Phase\<close>.
\<close>

definition clone_on_coordinator :: "'w lib \<Rightarrow> cmd_env \<Rightarrow> conn \<Rightarrow> int \<Rightarrow> status_t \<Rightarrow> proxy \<Rightarrow> 'w \<Rightarrow> 'w reply" where
  "clone_on_coordinator lib env mysql nclones st P w = do {
     let (ready, cs) = proxy_clone_prepare nclones ((clones P)\<lparr>cloning := 1\<rparr>);
     if \<not> ready then reply_error lib mysql (er lib ER_CANT_LOCK) ''Previous cloning operation not complete'' st (P\<lparr>clones := cs\<rparr>) w
     else do {
       ma \<leftarrow> master P;
       let (_, w) = mysql_query lib ma (clone_message nclones) w;
       if mysql_errno lib ma w \<noteq> 0 then
         reply_error lib mysql (mysql_errno lib ma w) (mysql_error lib ma w) st (P\<lparr>clones := cs\<rparr>) w
       else do {
         (timed_out, cs) \<leftarrow> proxy_clone_wait (nump_ok env) (table_mem env) (clone_wakes env)
           (cs\<lparr>clone_generation := int_of_long (clone_generation cs + 1)\<rparr>);
         let P = P\<lparr>clones := cs\<lparr>cloning := 0\<rparr>\<rparr>;
         if timed_out then reply_error lib mysql (er lib ER_LOCK_WAIT_TIMEOUT) ''Error waiting for new clones'' st P w
         else reply_ok lib mysql st P w } } }"

definition net_clone :: "'w lib \<Rightarrow> cmd_env \<Rightarrow> conn \<Rightarrow> cbuf \<Rightarrow> nat option \<Rightarrow> status_t \<Rightarrow> proxy \<Rightarrow> 'w \<Rightarrow> 'w reply" where
  "net_clone lib env mysql b t st P w = do {
     (tok, _, _) \<leftarrow> next_token '' '' b t;
     let (n, bad) = (case tok of None \<Rightarrow> (1, False) | Some s \<Rightarrow> (int_of_long (fst (strtol s)), snd (strtol s)));
     if tok \<noteq> None \<and> (bad \<or> n \<le> 0) then reply_error lib mysql (er lib ER_SYNTAX_ERROR) ''Invalid number of clones'' st P w
     else if opt_cloneable (prog_options P) then clone_on_master lib env mysql n st P w
     else if opt_coordinator (prog_options P) then clone_on_coordinator lib env mysql n st P w
     else reply_error lib mysql (er lib ER_NOT_ALLOWED_COMMAND) ''Proxy server can't be cloned'' st P w }"

text \<open>The code goes on after the first error message.\<close>

definition net_show_clones :: "'w lib \<Rightarrow> cmd_env \<Rightarrow> conn \<Rightarrow> status_t \<Rightarrow> proxy \<Rightarrow> 'w \<Rightarrow> 'w reply" where
  "net_show_clones lib env mysql st P w = do {
     let w = (if opt_cloneable (prog_options P) then w
        else snd (proxy_net_send_error lib mysql (er lib ER_NOT_ALLOWED_COMMAND) ''Proxy server not started as cloneable'' w));
     case sf_tickets env of
       None \<Rightarrow> reply_error lib mysql (er lib ER_ERROR_WHEN_EXECUTING_COMMAND) ''Could not get list of tickets'' st P w
     | Some [] \<Rightarrow> reply_ok lib mysql st P w
     | Some tickets \<Rightarrow> do {
         let (st, w) = net_result_header lib mysql 2 st w;
         let (st, w) = send_status_field lib mysql ''Ticket'' ''TICKET'' st w;
         let (st, w) = send_status_field lib mysql ''VMID'' ''VMID'' st w;
         let (st, w) = proxy_net_send_eof lib mysql st w;
         let rows = concat (map (\<lambda>(tk, vs). map (\<lambda>v. (tk, of_int v)) vs) tickets);
         (st, w) \<leftarrow> add_rows lib mysql (if rows = [] then [([], 0)] else rows) st w;
         let (st, w) = proxy_net_send_eof lib mysql st w;
         let (_, w) = proxy_net_flush lib (Some mysql) w;
         Some (False, st, P, w) } }"

section \<open>PROXY COORDINATOR and PROXY ADD\<close>

text \<open>The host is a null pointer when the string is empty or has only colons.\<close>

definition parse_host :: "options \<Rightarrow> cbuf \<Rightarrow> nat option \<Rightarrow> (string option \<times> int) option" where
  "parse_host opts b str = do {
     (h, t, b) \<leftarrow> next_token '':'' b str;
     (p, t, b) \<leftarrow> next_token '':'' b t;
     Some (h, case p of
        None \<Rightarrow> opt_backend_port opts
      | Some s \<Rightarrow> let n = int_of_long (fst (strtol s)) in if snd (strtol s) \<or> n \<le> 0 then - 1 else n) }"

definition show_coordinator :: "'w lib \<Rightarrow> conn \<Rightarrow> status_t \<Rightarrow> proxy \<Rightarrow> 'w \<Rightarrow> 'w reply" where
  "show_coordinator lib mysql st P w =
     (case coordinator P of
        None \<Rightarrow> reply_ok lib mysql st P w
      | Some co \<Rightarrow>
          let (st, w) = net_result_header lib mysql 1 st w;
              (st, w) = send_status_field lib mysql ''Coordinator'' ''COORDINATOR'' st w;
              (st, w) = proxy_net_send_eof lib mysql st w;
              p = net_store_data lib (conn_host lib co w @ '':'' @ print_int (conn_port lib co w));
              (_, w) = my_net_write lib mysql p w;
              (st, w) = proxy_net_send_eof lib mysql (sent (length p) st) w;
              (_, w) = proxy_net_flush lib (Some mysql) w
          in Some (False, st, P, w))"

text \<open>
  A new coordinator: the address that the resolver gives for the host, or else the host itself.
  The resolver reads the host, which must not be a null pointer.
\<close>

definition net_proxy_coordinator :: "'w lib \<Rightarrow> cmd_env \<Rightarrow> conn \<Rightarrow> cbuf \<Rightarrow> nat option \<Rightarrow> status_t \<Rightarrow> proxy \<Rightarrow> 'w \<Rightarrow> 'w reply" where
  "net_proxy_coordinator lib env mysql b t st P w = do {
     (tok, t', b') \<leftarrow> strtok_r '' '' b None t;
     let opts = prog_options P;
     if \<not> opt_cloneable opts then
       reply_error lib mysql (er lib ER_NOT_ALLOWED_COMMAND) ''Coordinator cannot be used if proxy is not cloneable'' st P w
     else if tok = None then show_coordinator lib mysql st P w
     else do {
       (h, p) \<leftarrow> parse_host opts b' tok;
       if p < 0 then reply_error lib mysql (er lib ER_SYNTAX_ERROR) ''Invalid coordinator port number'' st P w
       else do {
         h \<leftarrow> h;
         let addr = (case resolve env h of Some ip \<Rightarrow> ip | None \<Rightarrow> h);
         let (new, w) = mysql_init lib w;
         case new of
           None \<Rightarrow> reply_error lib mysql (er lib ER_BAD_HOST_ERROR) ''Invalid coordinator host'' st P w
         | Some m \<Rightarrow>
             let w = mysql_reconnect lib m w;
                 (ok, w) = mysql_real_connect lib m (Some addr) (opt_user opts) (opt_pass opts) None p None w
             in if \<not> ok then
                  let (e, w) = proxy_net_send_error lib mysql (mysql_errno lib m w) (mysql_error lib m w) w
                  in Some (e, st, P, mysql_close lib m w)
                else
                  let w = (case coordinator P of None \<Rightarrow> w | Some old \<Rightarrow> mysql_close lib old w)
                  in reply_ok lib mysql st (P\<lparr>coordinator := Some m\<rparr>) w } } }"

text \<open>The longest host name that is stored (\<open>HOST_NAME_MAX\<close> of the system).\<close>

definition HOST_NAME_MAX :: nat where "HOST_NAME_MAX = 64"

definition clone_id_of :: "string option \<Rightarrow> int option" where
  "clone_id_of tok =
     (case tok of
        None \<Rightarrow> None
      | Some s \<Rightarrow> let n = int_of_long (fst (strtol s)) in if snd (strtol s) \<or> n \<le> 0 then None else Some n)"

definition net_add_clone :: "'w lib \<Rightarrow> cmd_env \<Rightarrow> conn \<Rightarrow> cbuf \<Rightarrow> nat option \<Rightarrow> status_t \<Rightarrow> proxy \<Rightarrow> 'w \<Rightarrow> 'w reply" where
  "net_add_clone lib env mysql b t st P w =
     (if \<not> opt_coordinator (prog_options P) then
        reply_error lib mysql (er lib ER_NOT_ALLOWED_COMMAND) ''Proxy server not started as coordinator'' st P w
      else do {
        (tok, t, b) \<leftarrow> next_token '' '' b t;
        case clone_id_of tok of
          None \<Rightarrow> reply_error lib mysql (er lib ER_SYNTAX_ERROR) ''Invalid clone ID'' st P w
        | Some clone_id \<Rightarrow> do {
            (h, p) \<leftarrow> parse_host (prog_options P) b t;
            if p < 0 then reply_error lib mysql (er lib ER_SYNTAX_ERROR) ''Invalid clone port number'' st P w
            else do {
              h \<leftarrow> h;
              (_, cs) \<leftarrow> proxy_clone_insert (table_mem env) (clones P) (of_int clone_id) \<lparr>host = take (HOST_NAME_MAX + 1) h, port = p\<rparr>;
              (error, bs, cs, w) \<leftarrow> proxy_backend_add lib (prog_options P) (usable env) (realloc_ok env) (conn_garbage env) h p (backend P) cs w;
              let P = P\<lparr>clones := cs, backend := bs\<rparr>;
              if error then reply_error lib mysql (er lib ER_BAD_HOST_ERROR) ''Error adding new host'' st P w
              else reply_ok lib mysql st P w } } })"

section \<open>Results and decisions of transactions\<close>

text \<open>
  The identifier of a transaction is unsigned: the test for a positive number only excludes
  zero.
\<close>

definition trans_id_of :: "string option \<Rightarrow> ulong option" where
  "trans_id_of tok =
     (case tok of
        None \<Rightarrow> None
      | Some s \<Rightarrow> if snd (strtol s) \<or> (of_int (fst (strtol s)) :: ulong) = 0 then None else Some (of_int (fst (strtol s))))"

text \<open>The answer to a report, and its effect.\<close>

definition accept_result :: "'w lib \<Rightarrow> cmd_env \<Rightarrow> conn \<Rightarrow> int \<Rightarrow> ulong \<Rightarrow> bool \<Rightarrow> status_t \<Rightarrow> proxy \<Rightarrow> 'w \<Rightarrow> 'w reply" where
  "accept_result lib env mysql clone_id tid ok st P w = do {
     let (error, w) = proxy_net_send_ok lib mysql 0 0 0 w;
     (ts, bs, w) \<leftarrow> trans_result
       (\<lambda>ids n tid ok (bs, w). do {
          (_, bs, w) \<leftarrow> proxy_backend_clone_complete lib (pool_rand env) (pool_wakes env) (clones P) (take (nat n) ids) tid ok bs w;
          Some (bs, w) })
       (proxy_backend_num (backend P)) (local_done env) (trans_mem env) (table_mem env) clone_id tid ok (clones P)
       (transactions P) (backend P, w);
     Some (error, st, P\<lparr>transactions := ts, backend := bs\<rparr>, w) }"

definition net_trans_result ::
  "'w lib \<Rightarrow> cmd_env \<Rightarrow> conn \<Rightarrow> cbuf \<Rightarrow> nat option \<Rightarrow> bool \<Rightarrow> status_t \<Rightarrow> proxy \<Rightarrow> 'w \<Rightarrow> 'w reply" where
  "net_trans_result lib env mysql b t ok st P w =
     (if \<not> opt_coordinator (prog_options P) then
        reply_error lib mysql (er lib ER_NOT_ALLOWED_COMMAND) ''Proxy server not started as coordinator'' st P w
      else do {
        (tok, t, b) \<leftarrow> next_token '' '' b t;
        case clone_id_of tok of
          None \<Rightarrow> reply_error lib mysql (er lib ER_SYNTAX_ERROR) ''Invalid clone ID'' st P w
        | Some clone_id \<Rightarrow> do {
            (tok, t, b) \<leftarrow> next_token '' '' b t;
            case trans_id_of tok of
              None \<Rightarrow> reply_error lib mysql (er lib ER_SYNTAX_ERROR) ''Invalid transaction ID'' st P w
            | Some tid \<Rightarrow> accept_result lib env mysql clone_id tid ok st P w } })"

definition net_commit ::
  "'w lib \<Rightarrow> cmd_env \<Rightarrow> conn \<Rightarrow> cbuf \<Rightarrow> nat option \<Rightarrow> bool \<Rightarrow> status_t \<Rightarrow> proxy \<Rightarrow> 'w \<Rightarrow> 'w reply" where
  "net_commit lib env mysql b t ok st P w =
     (if \<not> opt_cloneable (prog_options P) then
        reply_error lib mysql (er lib ER_NOT_ALLOWED_COMMAND) ''Proxy server not started as cloneable'' st P w
      else do {
        (tok, t, b) \<leftarrow> next_token '' '' b t;
        case trans_id_of tok of
          None \<Rightarrow> reply_error lib mysql (er lib ER_SYNTAX_ERROR) ''Invalid transaction ID'' st P w
        | Some tid \<Rightarrow> do {
            ts \<leftarrow> commit_decided (trans_found env) tid ok (transactions P);
            reply_ok lib mysql st (P\<lparr>transactions := ts\<rparr>) w } })"

section \<open>The dispatcher\<close>

text \<open>
  Trailing semicolons are cut off: \<open>q\<close> is the offset of the command in the buffer, behind the
  word \<open>PROXY\<close>, and \<open>n\<close> its length.
\<close>

fun strip_semicolons :: "cbuf \<Rightarrow> nat \<Rightarrow> nat \<Rightarrow> (cbuf \<times> nat) option" where
  "strip_semicolons b q 0 = do { c \<leftarrow> (if q = 0 then None else rd b (q - 1)); if c = CHR '';'' then None else Some (b, 0) }"
| "strip_semicolons b q (Suc n) = do {
     c \<leftarrow> rd b (q + n);
     if c = CHR '';'' then strip_semicolons (b[q + n := NUL]) q n else Some (b, Suc n) }"

text \<open>
  The commands are told apart by prefixes of the first token, without case. For \<open>STATUS\<close> the
  last token counts; without a blank in the command its address is invalid.
\<close>

definition proxy_cmd :: "'w lib \<Rightarrow> cmd_env \<Rightarrow> conn \<Rightarrow> cbuf \<Rightarrow> nat \<Rightarrow> nat \<Rightarrow> status_t \<Rightarrow> proxy \<Rightarrow> 'w \<Rightarrow> 'w reply" where
  "proxy_cmd lib env mysql b q n st P w = do {
     (b, n) \<leftarrow> strip_semicolons b q n;
     let st = st\<lparr>bytes_recv := bytes_recv st + of_nat n\<rparr>;
     sp \<leftarrow> strrchr b q (CHR '' '');
     (tok, t, b) \<leftarrow> strtok_r '' '' b (Some q) None;
     case tok of
       None \<Rightarrow> reply_error lib mysql (er lib ER_SYNTAX_ERROR) ''Unrecognized proxy command'' st P w
     | Some i \<Rightarrow> do {
         clones \<leftarrow> strprefix b i ''CLONES'' (of_nat n);
         clone \<leftarrow> strprefix b i ''CLONE'' (of_nat n);
         coordinator \<leftarrow> strprefix b i ''COORDINATOR'' (of_nat n);
         add \<leftarrow> strprefix b i ''ADD'' (of_nat n);
         succeeded \<leftarrow> strprefix b i ''SUCCESS'' (of_nat n);
         failed \<leftarrow> strprefix b i ''FAILURE'' (of_nat n);
         commit \<leftarrow> strprefix b i ''COMMIT'' (of_nat n);
         rollback \<leftarrow> strprefix b i ''ROLLBACK'' (of_nat n);
         if clones then net_show_clones lib env mysql st P w
         else if clone then net_clone lib env mysql b t st P w
         else if coordinator then net_proxy_coordinator lib env mysql b t st P w
         else if add then net_add_clone lib env mysql b t st P w
         else if succeeded then net_trans_result lib env mysql b t True st P w
         else if failed then net_trans_result lib env mysql b t False st P w
         else if commit then net_commit lib env mysql b t True st P w
         else if rollback then net_commit lib env mysql b t False st P w
         else do {
           status \<leftarrow> (case sp of
              None \<Rightarrow> if of_nat n < (6 :: ulong) then Some False else None
            | Some k \<Rightarrow> strprefix b (Suc k) ''STATUS'' (of_nat n));
           if status then net_status lib env mysql b q n st P w
           else reply_error lib mysql (er lib ER_SYNTAX_ERROR) ''Unrecognized proxy command'' st P w } } }"

section \<open>Messages between proxies\<close>

lemma next_token_mid:
  assumes "tok \<noteq> []" "CHR '' '' \<notin> set tok" "NUL \<notin> set (tok @ rest)"
  shows "next_token '' '' (pre @ tok @ CHR '' '' # rest @ NUL # post) (Some (length pre)) =
    Some (Some tok, Some (length (pre @ tok @ '' '')), pre @ tok @ NUL # rest @ NUL # post)"
proof -
  let ?b = "pre @ tok @ CHR '' '' # rest @ NUL # post"
  have c: "cstr ?b (length pre) = Some ([] @ tok @ CHR '' '' # rest)"
    using cstr_append [of "tok @ CHR '' '' # rest" pre post] assms(3) by simp
  have "strtok_r '' '' ?b (Some (length pre)) None =
      Some (Some (length pre), Some (length (pre @ tok @ '' '')), pre @ tok @ NUL # rest @ NUL # post)"
    using strtok_r_token [OF c, of "'' ''" None] assms(1,2) by (simp add: list_update_append)
  moreover have "cstr (pre @ tok @ NUL # rest @ NUL # post) (length pre) = Some tok" using assms(3) by (intro cstr_append) simp
  ultimately show ?thesis by (simp add: next_token_def strtok_r_start [of _ _ _ None])
qed

lemma next_token_last:
  assumes "tok \<noteq> []" "CHR '' '' \<notin> set tok" "NUL \<notin> set tok"
  shows "next_token '' '' (pre @ tok @ NUL # post) (Some (length pre)) = Some (Some tok, Some (length (pre @ tok)), pre @ tok @ NUL # post)"
proof -
  have c: "cstr (pre @ tok @ NUL # post) (length pre) = Some ([] @ tok)" using assms(3) by (simp add: cstr_append)
  have "strtok_r '' '' (pre @ tok @ NUL # post) (Some (length pre)) None = Some (Some (length pre), Some (length (pre @ tok)), pre @ tok @ NUL # post)"
    using strtok_r_last [OF c, of "'' ''" None] assms(1,2) by simp
  then show ?thesis using c by (simp add: next_token_def strtok_r_start [of _ _ _ None])
qed

lemma strprefix_word:
  assumes "cstr b i = Some word" "NUL \<notin> set lit" "length word \<le> n" "n < 2 ^ 64" "length lit < 2 ^ 64"
  shows "strprefix b i lit (of_nat n) = Some (length lit \<le> length word \<and> map to_lower (take (length lit) word) = map to_lower lit)"
proof -
  have "(of_nat (length lit) :: ulong) > of_nat n \<longleftrightarrow> length lit > n"
    using unat_ulong [OF assms(4)] unat_ulong [OF assms(5)] by (simp add: word_less_nat_alt)
  then show ?thesis using strncaseeq_cstr [OF assms(1,2)] assms(3) by (auto simp: strprefix_def)
qed

text \<open>A command behind the word \<open>PROXY\<close>: a word, a blank, and arguments.\<close>

definition command_buf :: "string \<Rightarrow> string \<Rightarrow> string \<Rightarrow> cbuf" where
  "command_buf word args post = ''PROXY '' @ word @ CHR '' '' # args @ NUL # post"

lemma command_tokens:
  assumes "word \<noteq> []" "CHR '' '' \<notin> set word" "NUL \<notin> set (word @ args)"
  shows "\<exists>k. strrchr (command_buf word args post) 5 (CHR '' '') = Some (Some k)"
    "strtok_r '' '' (command_buf word args post) (Some 5) None =
       Some (Some 6, Some (length (''PROXY '' @ word @ '' '')), ''PROXY '' @ word @ NUL # args @ NUL # post)"
    "cstr (''PROXY '' @ word @ NUL # args @ NUL # post) 6 = Some word"
proof -
  let ?s = "'' '' @ word @ CHR '' '' # args"
  have b: "command_buf word args post = ''PROXY'' @ ?s @ NUL # post" by (simp add: command_buf_def)
  have c: "cstr (command_buf word args post) 5 = Some ?s"
    unfolding b using cstr_append [of ?s "''PROXY''" post] assms(3) by (simp add: eval_nat_numeral)
  have "find_last (CHR '' '') ?s \<noteq> None" unfolding find_last_None by simp
  then show "\<exists>k. strrchr (command_buf word args post) 5 (CHR '' '') = Some (Some k)" using c by (auto simp: strrchr_def)
  show "strtok_r '' '' (command_buf word args post) (Some 5) None =
      Some (Some 6, Some (length (''PROXY '' @ word @ '' '')), ''PROXY '' @ word @ NUL # args @ NUL # post)"
    using strtok_r_token [OF c, of "'' ''" None] assms(1,2) by (simp add: command_buf_def list_update_append)
  show "cstr (''PROXY '' @ word @ NUL # args @ NUL # post) 6 = Some word"
    using cstr_append [of word "''PROXY ''" "args @ NUL # post"] assms(3) by (simp add: eval_nat_numeral)
qed

lemma strip_command:
  assumes "args \<noteq> []" "last args \<noteq> CHR '';''"
  shows "strip_semicolons (command_buf word args post) 5 (length word + length args + 2) =
      Some (command_buf word args post, length word + length args + 2)"
    "strip_semicolons (''PROXY '' @ word @ CHR '' '' # args @ '';'' @ [NUL]) 5 (length word + length args + 3) =
      Some (command_buf word args [NUL], length word + length args + 2)"
proof -
  have *: "strip_semicolons (command_buf word args q) 5 (length word + length args + 2) =
      Some (command_buf word args q, length word + length args + 2)" for q
  proof -
    have "command_buf word args q ! (5 + (length word + length args + 1)) = last args"
      using assms(1) by (simp add: command_buf_def nth_append last_conv_nth)
    moreover have "5 + (length word + length args + 1) < length (command_buf word args q)" by (simp add: command_buf_def)
    ultimately have "rd (command_buf word args q) (5 + (length word + length args + 1)) = Some (last args)" by (simp add: rd_def)
    then show ?thesis using assms(2) by (simp add: numeral_2_eq_2)
  qed
  then show "strip_semicolons (command_buf word args post) 5 (length word + length args + 2) =
      Some (command_buf word args post, length word + length args + 2)" .
  let ?b = "''PROXY '' @ word @ CHR '' '' # args @ '';'' @ [NUL]" and ?i = "5 + (length word + length args + 2)"
  have "rd ?b ?i = Some (CHR '';'')" by (simp add: rd_def nth_append)
  moreover have "?b[?i := NUL] = command_buf word args [NUL]" by (simp add: command_buf_def list_update_append)
  ultimately show "strip_semicolons ?b 5 (length word + length args + 3) = Some (command_buf word args [NUL], length word + length args + 2)"
    using * [of "[NUL]"] by (simp add: numeral_3_eq_3 numeral_2_eq_2)
qed

lemma print_ulong_chars:
  "print_ulong tid \<noteq> []" "NUL \<notin> set (print_ulong tid)" "CHR '' '' \<notin> set (print_ulong tid)" "last (print_ulong tid) \<noteq> CHR '';''"
  "length (print_ulong tid) \<le> 20"
proof -
  show "print_ulong tid \<noteq> []" "NUL \<notin> set (print_ulong tid)" "CHR '' '' \<notin> set (print_ulong tid)"
    using print_nat_chars [of "unat tid"] by (simp_all add: print_ulong_def)
  show "last (print_ulong tid) \<noteq> CHR '';''"
    using print_nat_chars(4) [of "unat tid"] last_in_set [OF print_nat_not_Nil [of "unat tid"]] unfolding print_ulong_def by metis
  have "unat tid < 2 ^ 64" using unsigned_less [of tid] by simp
  then have "unat tid < 10 ^ 20" by simp
  then show "length (print_ulong tid) \<le> 20" using length_print_nat [of 20 "unat tid"] by (simp add: print_ulong_def)
qed

lemma print_pos_chars:
  assumes "0 < sid" "sid \<le> INT_MAX"
  shows "print_int sid \<noteq> []" "NUL \<notin> set (print_int sid)" "CHR '' '' \<notin> set (print_int sid)" "length (print_int sid) \<le> 10"
  using assms print_nat_chars [of "nat sid"] length_print_nat [of 10 "nat sid"] by (auto simp: print_int_def)

lemma clone_id_printed: "0 < sid \<Longrightarrow> sid \<le> INT_MAX \<Longrightarrow> clone_id_of (Some (print_int sid)) = Some sid"
  using strtol_print_int [of sid] by (simp add: clone_id_of_def)

lemma trans_id_printed: "tid \<noteq> 0 \<Longrightarrow> uint tid \<le> LONG_MAX \<Longrightarrow> trans_id_of (Some (print_ulong tid)) = Some tid"
  using strtol_print_nat [of "[]" "unat tid"] by (simp add: trans_id_of_def print_ulong_def)

definition starts :: "string \<Rightarrow> string \<Rightarrow> bool" where
  "starts lit word \<longleftrightarrow> length lit \<le> length word \<and> map to_lower (take (length lit) word) = map to_lower lit"

lemma command_words:
  assumes "word \<in> {''SUCCESS'', ''FAILURE'', ''COMMIT'', ''ROLLBACK''}"
  shows "\<not> starts ''CLONES'' word" "\<not> starts ''CLONE'' word" "\<not> starts ''COORDINATOR'' word" "\<not> starts ''ADD'' word"
    "starts ''SUCCESS'' word \<longleftrightarrow> word = ''SUCCESS''" "starts ''FAILURE'' word \<longleftrightarrow> word = ''FAILURE''"
    "starts ''COMMIT'' word \<longleftrightarrow> word = ''COMMIT''" "starts ''ROLLBACK'' word \<longleftrightarrow> word = ''ROLLBACK''"
proof -
  have "list_all (\<lambda>word. \<not> starts ''CLONES'' word \<and> \<not> starts ''CLONE'' word \<and> \<not> starts ''COORDINATOR'' word \<and> \<not> starts ''ADD'' word \<and>
      (starts ''SUCCESS'' word \<longleftrightarrow> word = ''SUCCESS'') \<and> (starts ''FAILURE'' word \<longleftrightarrow> word = ''FAILURE'') \<and>
      (starts ''COMMIT'' word \<longleftrightarrow> word = ''COMMIT'') \<and> (starts ''ROLLBACK'' word \<longleftrightarrow> word = ''ROLLBACK''))
    [''SUCCESS'', ''FAILURE'', ''COMMIT'', ''ROLLBACK'']" by code_simp
  moreover have "word \<in> set [''SUCCESS'', ''FAILURE'', ''COMMIT'', ''ROLLBACK'']" using assms by simp
  ultimately have *: "\<not> starts ''CLONES'' word \<and> \<not> starts ''CLONE'' word \<and> \<not> starts ''COORDINATOR'' word \<and> \<not> starts ''ADD'' word \<and>
      (starts ''SUCCESS'' word \<longleftrightarrow> word = ''SUCCESS'') \<and> (starts ''FAILURE'' word \<longleftrightarrow> word = ''FAILURE'') \<and>
      (starts ''COMMIT'' word \<longleftrightarrow> word = ''COMMIT'') \<and> (starts ''ROLLBACK'' word \<longleftrightarrow> word = ''ROLLBACK'')"
    unfolding list_all_iff by (rule bspec)
  from * show "\<not> starts ''CLONES'' word" "\<not> starts ''CLONE'' word" "\<not> starts ''COORDINATOR'' word" "\<not> starts ''ADD'' word"
    "starts ''SUCCESS'' word \<longleftrightarrow> word = ''SUCCESS''" "starts ''FAILURE'' word \<longleftrightarrow> word = ''FAILURE''"
    "starts ''COMMIT'' word \<longleftrightarrow> word = ''COMMIT''" "starts ''ROLLBACK'' word \<longleftrightarrow> word = ''ROLLBACK''" by blast+
qed

text \<open>What the dispatcher does with a buffer of a known command.\<close>

lemma proxy_cmd_command:
  assumes "word \<in> {''SUCCESS'', ''FAILURE'', ''COMMIT'', ''ROLLBACK''}" "NUL \<notin> set args"
    "strip_semicolons b 5 n = Some (command_buf word args post, length word + length args + 2)" "length word + length args + 2 < 2 ^ 64"
  shows "proxy_cmd lib env mysql b 5 n st P w =
    (let b = ''PROXY '' @ word @ NUL # args @ NUL # post; t = Some (length (''PROXY '' @ word @ '' ''));
         st = st\<lparr>bytes_recv := bytes_recv st + of_nat (length word + length args + 2)\<rparr>
     in if word = ''SUCCESS'' then net_trans_result lib env mysql b t True st P w
        else if word = ''FAILURE'' then net_trans_result lib env mysql b t False st P w
        else if word = ''COMMIT'' then net_commit lib env mysql b t True st P w
        else net_commit lib env mysql b t False st P w)"
proof -
  have w: "word \<noteq> []" "CHR '' '' \<notin> set word" "NUL \<notin> set (word @ args)" using assms(1,2) by auto
  note t = command_tokens [OF w, of post]
  obtain k where k: "strrchr (command_buf word args post) 5 (CHR '' '') = Some (Some k)" using t(1) by blast
  define B where "B = ''PROXY '' @ word @ NUL # args @ NUL # post"
  define N where "N = length word + length args + 2"
  define T where "T = Some (length (''PROXY '' @ word @ '' ''))"
  have p: "strprefix B 6 lit (of_nat N) = Some (starts lit word)" if "NUL \<notin> set lit" "length lit < 20" for lit
    unfolding B_def N_def starts_def by (rule strprefix_word [OF t(3) that(1) _ assms(4)]) (use that(2) in simp_all)
  have "word = ''ROLLBACK''" if "word \<noteq> ''SUCCESS''" "word \<noteq> ''FAILURE''" "word \<noteq> ''COMMIT''" using assms(1) that by blast
  then show ?thesis
    unfolding proxy_cmd_def assms(3) Let_def B_def [symmetric] N_def [symmetric] T_def [symmetric] bind.simps prod.case k
      t(2) [folded B_def T_def] option.case
    by (auto simp: p command_words [OF assms(1)] simp del: of_nat_add)
qed

text \<open>
  C30: the messages between proxies arrive as they were sent. A report of a clone is accepted by
  the coordinator with the identifier of the clone, the identifier of the transaction and the
  result that the clone sent; a decision of the coordinator is applied by the clone to this
  transaction.
\<close>

theorem messages_between_proxies:
  assumes "0 < sid" "sid \<le> INT_MAX" "tid \<noteq> 0" "uint tid \<le> LONG_MAX" "opt_coordinator (prog_options P)" "opt_cloneable (prog_options Q)"
  shows "proxy_cmd lib env mysql (result_message ok sid tid @ [NUL]) 5 (length (result_message ok sid tid) - 5) st P w =
      accept_result lib env mysql sid tid ok (st\<lparr>bytes_recv := bytes_recv st + of_nat (length (result_message ok sid tid) - 6)\<rparr>) P w \<and>
    proxy_cmd lib env mysql (complete_message ok tid @ [NUL]) 5 (length (complete_message ok tid) - 5) st Q w =
      do { ts \<leftarrow> commit_decided (trans_found env) tid ok (transactions Q);
           reply_ok lib mysql (st\<lparr>bytes_recv := bytes_recv st + of_nat (length (complete_message ok tid) - 5)\<rparr>) (Q\<lparr>transactions := ts\<rparr>) w }"
proof
  note t = print_ulong_chars [of tid] and s = print_pos_chars [OF assms(1,2)]
  define word where "word = (if ok then ''SUCCESS'' else ''FAILURE'')"
  have c: "(word = ''SUCCESS'') = ok" "(word = ''FAILURE'') = (\<not> ok)" by (simp_all add: word_def)
  define args where "args = print_int sid @ CHR '' '' # print_ulong tid"
  have args: "args \<noteq> []" "last args \<noteq> CHR '';''" "NUL \<notin> set args" using s t by (auto simp: args_def)
  have m: "result_message ok sid tid @ [NUL] = ''PROXY '' @ word @ CHR '' '' # args @ '';'' @ [NUL]"
    "length (result_message ok sid tid) - 5 = length word + length args + 3" "length (result_message ok sid tid) - 6 = length word + length args + 2"
    by (simp_all add: result_message_def word_def args_def)
  have len: "length word + length args + 2 < 2 ^ 64" using s(4) t(5) by (simp add: word_def args_def)
  have w: "word \<in> {''SUCCESS'', ''FAILURE'', ''COMMIT'', ''ROLLBACK''}" by (simp add: word_def)
  let ?pre = "''PROXY '' @ word @ [NUL]"
  have 1: "next_token '' '' (?pre @ print_int sid @ CHR '' '' # print_ulong tid @ NUL # [NUL]) (Some (length ?pre)) =
      Some (Some (print_int sid), Some (length (?pre @ print_int sid @ '' '')), ?pre @ print_int sid @ NUL # print_ulong tid @ NUL # [NUL])"
    by (rule next_token_mid) (use s t in simp_all)
  have 2: "next_token '' '' ((?pre @ print_int sid @ [NUL]) @ print_ulong tid @ NUL # [NUL]) (Some (length (?pre @ print_int sid @ [NUL]))) =
      Some (Some (print_ulong tid), Some (length ((?pre @ print_int sid @ [NUL]) @ print_ulong tid)), (?pre @ print_int sid @ [NUL]) @ print_ulong tid @ NUL # [NUL])"
    by (rule next_token_last) (use t in simp_all)
  have "net_trans_result lib env mysql (''PROXY '' @ word @ NUL # args @ NUL # [NUL]) (Some (length (''PROXY '' @ word @ '' ''))) ok st' P w =
      accept_result lib env mysql sid tid ok st' P w" for st'
    using 1 2 assms(5) clone_id_printed [OF assms(1,2)] trans_id_printed [OF assms(3,4)] by (simp add: net_trans_result_def args_def)
  then show "proxy_cmd lib env mysql (result_message ok sid tid @ [NUL]) 5 (length (result_message ok sid tid) - 5) st P w =
      accept_result lib env mysql sid tid ok (st\<lparr>bytes_recv := bytes_recv st + of_nat (length (result_message ok sid tid) - 6)\<rparr>) P w"
    unfolding m proxy_cmd_command [OF w args(3) strip_command(2) [OF args(1,2)] len] Let_def c by (cases ok) (simp_all only: if_True if_False simp_thms)
next
  note t = print_ulong_chars [of tid]
  define word where "word = (if ok then ''COMMIT'' else ''ROLLBACK'')"
  have c: "(word = ''SUCCESS'') = False" "(word = ''FAILURE'') = False" "(word = ''COMMIT'') = ok" by (simp_all add: word_def)
  have m: "complete_message ok tid @ [NUL] = command_buf word (print_ulong tid) []"
    "length (complete_message ok tid) - 5 = length word + length (print_ulong tid) + 2"
    by (simp_all add: complete_message_def word_def command_buf_def)
  have len: "length word + length (print_ulong tid) + 2 < 2 ^ 64" using t(5) by (simp add: word_def)
  have w: "word \<in> {''SUCCESS'', ''FAILURE'', ''COMMIT'', ''ROLLBACK''}" by (simp add: word_def)
  let ?pre = "''PROXY '' @ word @ [NUL]"
  have "next_token '' '' (?pre @ print_ulong tid @ NUL # []) (Some (length ?pre)) =
      Some (Some (print_ulong tid), Some (length (?pre @ print_ulong tid)), ?pre @ print_ulong tid @ NUL # [])"
    by (rule next_token_last) (use t in simp_all)
  then have "net_commit lib env mysql (''PROXY '' @ word @ NUL # print_ulong tid @ NUL # []) (Some (length (''PROXY '' @ word @ '' ''))) ok st' Q w =
      do { ts \<leftarrow> commit_decided (trans_found env) tid ok (transactions Q); reply_ok lib mysql st' (Q\<lparr>transactions := ts\<rparr>) w }" for st'
    using assms(6) trans_id_printed [OF assms(3,4)] by (simp add: net_commit_def)
  then show "proxy_cmd lib env mysql (complete_message ok tid @ [NUL]) 5 (length (complete_message ok tid) - 5) st Q w =
      do { ts \<leftarrow> commit_decided (trans_found env) tid ok (transactions Q);
           reply_ok lib mysql (st\<lparr>bytes_recv := bytes_recv st + of_nat (length (complete_message ok tid) - 5)\<rparr>) (Q\<lparr>transactions := ts\<rparr>) w }"
    unfolding m proxy_cmd_command [OF w t(2) strip_command(1) [OF t(1,4)] len] Let_def c by (cases ok) (simp_all only: if_True if_False simp_thms)
qed

section \<open>A concrete run\<close>

definition sample_env :: cmd_env where
  "sample_env = \<lparr>nump_ok = True, table_mem = (Malloc_ok, True), ticket = None, clone_answer = None, new_addrs = [], stack_text = [],
     clone_wakes = [], usable = (\<lambda>n. n), realloc_ok = (True, True, True), conn_garbage = False, trans_mem = Some 0, pool_rand = 0,
     pool_wakes = [], local_done = (\<lambda>s. s), trans_found = (\<lambda>s. s), resolve = (\<lambda>_. None), uptime = 0, threads_locked = 0,
     sf_tickets = None\<rparr>"

definition sample_coordinator :: proxy where
  "sample_coordinator = sample_proxy\<lparr>prog_options := sample_opts True (Some ''rowa'')\<rparr>"

definition sample_clone :: proxy where
  "sample_clone = sample_proxy\<lparr>prog_options := (sample_opts False None)\<lparr>opt_cloneable := True\<rparr>\<rparr>"

theorem messages_between_proxies_witness:
  "proxy_cmd script_lib sample_env 7 (''PROXY FAILURE 3 17;'' @ [NUL]) 5 14 no_status sample_coordinator (script_world (\<lambda>_. [])) =
      accept_result script_lib sample_env 7 3 17 False (no_status\<lparr>bytes_recv := 13\<rparr>) sample_coordinator (script_world (\<lambda>_. [])) \<and>
   proxy_cmd script_lib sample_env 7 (''PROXY ROLLBACK 17'' @ [NUL]) 5 12 no_status sample_clone (script_world (\<lambda>_. [])) =
      do { ts \<leftarrow> commit_decided (\<lambda>s. s) 17 False (transactions sample_clone);
           reply_ok script_lib 7 (no_status\<lparr>bytes_recv := 12\<rparr>) (sample_clone\<lparr>transactions := ts\<rparr>) (script_world (\<lambda>_. [])) }"
proof -
  have m: "result_message False 3 17 = ''PROXY FAILURE 3 17;''" "complete_message False 17 = ''PROXY ROLLBACK 17''" by code_simp+
  have o: "opt_coordinator (prog_options sample_coordinator)" "opt_cloneable (prog_options sample_clone)"
    by (simp_all add: sample_coordinator_def sample_clone_def)
  have n: "length ''PROXY FAILURE 3 17;'' - 5 = 14" "length ''PROXY FAILURE 3 17;'' - 6 = 13" "length ''PROXY ROLLBACK 17'' - 5 = 12" by simp_all
  have t: "trans_found sample_env = (\<lambda>s. s)" by (simp add: sample_env_def)
  show ?thesis
    using messages_between_proxies [of 3 17 sample_coordinator sample_clone script_lib sample_env 7 False no_status "script_world (\<lambda>_. [])"]
    unfolding m t n using o by (simp add: no_status_def)
qed

end
