(* ===== verification/Server.thy ===== *)
theory Server
  imports Cmd Charset
begin

unbundle bit_operations_syntax

text \<open>
  Client connections (\<open>src/proxy_net.c\<close>): setting up a connection, the handshake, reading and
  dispatching commands, and the loop of a client thread. System calls and functions of the
  network library that are only called for their effect go through \<open>call\<close> with their names.
  A packet that was read is followed in its buffer by a NUL and by the bytes of earlier packets,
  which are the argument \<open>stale\<close>; the buffer of the library is larger than all fixed offsets.

  The theory shows that the handshake ends for every answer of the client and stays within its
  buffers, and which commands are refused, with which effect.
\<close>

section \<open>Setting up a connection\<close>

definition do_call :: "'w lib \<Rightarrow> string \<Rightarrow> ext_arg list \<Rightarrow> 'w \<Rightarrow> 'w" where
  "do_call lib name args w = snd (call lib name args w)"

definition client_init :: "'w lib \<Rightarrow> int \<Rightarrow> 'w \<Rightarrow> conn option \<times> 'w" where
  "client_init lib clientfd w =
     (let (vio, w) = call lib ''vio_new'' [Arg_int clientfd] w;
          w = do_call lib ''vio_fastsend'' [Arg_int vio] w;
          w = do_call lib ''vio_blocking'' [Arg_int vio, Arg_int 0] w;
          w = do_call lib ''setsockopt'' [Arg_int vio, Arg_str ''SO_KEEPALIVE'', Arg_int 1] w;
          w = do_call lib ''setsockopt'' [Arg_int vio, Arg_str ''TCP_KEEPCNT'', Arg_int 4] w;
          w = do_call lib ''setsockopt'' [Arg_int vio, Arg_str ''TCP_KEEPIDLE'', Arg_int 60] w;
          w = do_call lib ''setsockopt'' [Arg_int vio, Arg_str ''TCP_KEEPINTVL'', Arg_int 60] w
      in case mysql_init lib w of
           (None, w) \<Rightarrow> (None, w)
         | (Some mysql, w) \<Rightarrow>
             let w = do_call lib ''server_version'' [Arg_int (int mysql), Arg_str ''5.1-sfsql_proxy''] w;
                 w = do_call lib ''max_packet'' [Arg_int (int mysql), Arg_int (int ID_SIZE)] w;
                 w = do_call lib ''my_net_init'' [Arg_int (int mysql), Arg_int vio] w;
                 w = do_call lib ''my_net_set_write_timeout'' [Arg_int (int mysql)] w;
                 w = do_call lib ''my_net_set_read_timeout'' [Arg_int (int mysql)] w
             in (Some mysql, w))"

text \<open>The address is resolved when a host is given; the result is the socket or -1.\<close>

definition proxy_net_bind_new_socket :: "'w lib \<Rightarrow> (string \<Rightarrow> string option) \<Rightarrow> string option \<Rightarrow> int \<Rightarrow> 'w \<Rightarrow> int \<times> 'w" where
  "proxy_net_bind_new_socket lib lookup h p w =
     (let (fd, w) = call lib ''socket'' [] w in
      case (case h of None \<Rightarrow> Some ''0.0.0.0'' | Some h \<Rightarrow> lookup h) of
        None \<Rightarrow> (- 1, w)
      | Some addr \<Rightarrow>
          let (r, w) = call lib ''bind'' [Arg_int fd, Arg_str addr, Arg_int (p mod 65536)] w in
          if r < 0 then (- 1, w)
          else
            let (r, w) = call lib ''listen'' [Arg_int fd, Arg_int 10] w in
            if r < 0 then (- 1, w) else (fd, w))"

section \<open>Handshake\<close>

text \<open>
  Constants and functions of the library for the handshake. The character set of a client may be
  unknown, which the code does not check.
\<close>

record auth_env =
  ctype :: ctype_lib
  system_charset :: charset
  get_charset :: "nat \<Rightarrow> charset option"
  default_charset_byte :: char
  protocol_byte :: char
  SERVER_VERSION_LENGTH :: nat
  SCRAMBLE_LENGTH_323 :: nat
  NAME_LEN :: nat
  USERNAME_LENGTH :: nat
  CLIENT_BASIC_FLAGS :: ulong
  CLIENT_CONNECT_WITH_DB :: ulong
  CLIENT_MULTI_STATEMENTS :: ulong
  CLIENT_TRANSACTIONS :: ulong
  SERVER_STATUS_AUTOCOMMIT :: int
  scramble :: string
  stale :: string

text \<open>The flags that are to be cleared are combined with a bitwise and, as in the code.\<close>

definition server_caps :: "auth_env \<Rightarrow> ulong" where
  "server_caps au = CLIENT_BASIC_FLAGS au AND
     NOT (CLIENT_CONNECT_WITH_DB au AND CLIENT_MULTI_STATEMENTS au AND CLIENT_TRANSACTIONS au)"

definition greeting :: "'w lib \<Rightarrow> auth_env \<Rightarrow> string" where
  "greeting lib au =
     take (SERVER_VERSION_LENGTH au) ''5.1-sfsql_proxy'' @ [NUL] @ int4store lib 0 @
     take (SCRAMBLE_LENGTH_323 au) (scramble au) @ [NUL] @ int2store lib (uint (server_caps au)) @ [default_charset_byte au] @
     int2store lib (SERVER_STATUS_AUTOCOMMIT au) @ replicate 13 NUL @ drop (SCRAMBLE_LENGTH_323 au) (scramble au) @ [NUL]"

text \<open>Conversion of a name into a local buffer of a given size, and its end.\<close>

definition convert_name :: "auth_env \<Rightarrow> nat \<Rightarrow> string \<Rightarrow> nat \<Rightarrow> string option" where
  "convert_name au sz src cs_number = do {
     cs \<leftarrow> get_charset au cs_number;
     (buf, n, _) \<leftarrow> copy_and_convert (ctype au) (replicate (sz + 1) NUL) sz (system_charset au) src cs;
     buf \<leftarrow> wr buf n NUL;
     Some (take n buf) }"

definition strip_quotes :: "string \<Rightarrow> string" where
  "strip_quotes s = (if length s > 1 \<and> hd s = CHR 0x27 \<and> last s = CHR 0x27 then butlast (tl s) else s)"

text \<open>
  The data of the client in its packet: the name of the user and the database, or \<open>None\<close> when
  the packet is too short for them.
\<close>

definition auth_data :: "'w lib \<Rightarrow> auth_env \<Rightarrow> string \<Rightarrow> (string \<times> string option) option option" where
  "auth_data lib au packet = do {
     let buf = packet @ NUL # stale au;
     let caps = (of_int (uint2korr lib buf) OR push_bit 16 (of_int (uint2korr lib (drop 2 buf)))) AND server_caps au;
     cs \<leftarrow> rd buf 8;
     if 32 \<ge> length packet + 2 then Some None
     else do {
       user \<leftarrow> cstr buf 32;
       let passwd = 32 + length user + 1;
       passwd_len \<leftarrow> rd buf passwd;
       let pl = (of_char passwd_len :: nat);
       db \<leftarrow> (if caps AND CLIENT_CONNECT_WITH_DB au \<noteq> 0 then do { d \<leftarrow> cstr buf (passwd + pl + 1); Some (Some d) } else Some None);
       let db_len = (case db of None \<Rightarrow> 0 | Some d \<Rightarrow> length d);
       if passwd + 1 + pl + db_len > length packet then Some None
       else do {
         db \<leftarrow> (case db of None \<Rightarrow> Some None | Some d \<Rightarrow> do { d \<leftarrow> convert_name au (NAME_LEN au) d (of_char cs); Some (Some d) });
         user \<leftarrow> convert_name au (USERNAME_LENGTH au) user (of_char cs);
         Some (Some (strip_quotes user, db)) } } }"

text \<open>Any credentials are valid.\<close>

definition check_user :: "string \<Rightarrow> string option \<Rightarrow> bool" where
  "check_user user db = True"

definition proxy_net_handshake :: "'w lib \<Rightarrow> auth_env \<Rightarrow> conn \<Rightarrow> 'w \<Rightarrow> (bool \<times> 'w) option" where
  "proxy_net_handshake lib au mysql w =
     (let (error, w) = net_write_command lib mysql (protocol_byte au) (greeting lib au) w in
      if error then Some (True, w)
      else
        case my_net_read lib mysql w of
          (None, w) \<Rightarrow> Some (True, w)
        | (Some packet, w) \<Rightarrow>
            if length packet < 6 then Some (True, w)
            else do {
              data \<leftarrow> auth_data lib au packet;
              case data of
                None \<Rightarrow> Some (True, w)
              | Some (user, db) \<Rightarrow>
                  if check_user user db then Some (False, snd (proxy_net_send_ok lib mysql 0 0 0 w))
                  else Some (True, snd (proxy_net_send_error lib mysql (er lib ER_HANDSHAKE_ERROR) ''Error authenticating user'' w)) })"

section \<open>Commands\<close>

datatype conn_error_t = ERROR_OK | ERROR_CLOSE | ERROR_CLIENT | ERROR_BACKEND | ERROR_OTHER

text \<open>A boolean that is returned as an error code: 1 is \<open>ERROR_CLOSE\<close>.\<close>

definition conn_error_of_bool :: "bool \<Rightarrow> conn_error_t" where
  "conn_error_of_bool b = (if b then ERROR_CLOSE else ERROR_OK)"

text \<open>\<open>POLLRDHUP\<close> is one of the flags that \<open>poll\<close> returns.\<close>

definition POLLRDHUP :: int where "POLLRDHUP = 8192"

record 'w net_env =
  query_env_of :: query_env
  cmd_env_of :: cmd_env
  dispatch_of :: "conn option \<Rightarrow> cbuf \<Rightarrow> nat \<Rightarrow> bool \<Rightarrow> status_t \<Rightarrow> proxy \<Rightarrow> 'w \<Rightarrow> (status_t \<times> proxy \<times> 'w) option"
  stale_bytes :: string

definition not_supported :: string where "not_supported = ''Command currently not supported by sfsql-proxy''"
definition only_proxy :: string where "only_proxy = ''Only PROXY commands may be executed on this connection''"
definition single_db :: string where "single_db = ''Only a single database is supported by sfsql-proxy''"

definition run_command ::
  "'w lib \<Rightarrow> 'w net_env \<Rightarrow> conn \<Rightarrow> proxy_conn_idx_t \<Rightarrow> bool \<Rightarrow> server_command \<Rightarrow> string \<Rightarrow> status_t \<Rightarrow> proxy \<Rightarrow> 'w \<Rightarrow>
   (conn_error_t \<times> status_t \<times> proxy \<times> 'w) option" where
  "run_command lib env mysql idx proxy_only command text st P w =
     (let buf = text @ NUL # stale_bytes env;
          len = length text;
          st' = st\<lparr>queries := queries st + 1\<rparr>;
          refuse = (\<lambda>msg. proxy_net_send_error lib mysql (er lib ER_NOT_ALLOWED_COMMAND) msg w)
      in case command of
           COM_PROXY_QUERY \<Rightarrow> do {
             (e, st, P, w) \<leftarrow> proxy_backend_query lib (query_env_of env) (dispatch_of env (Some mysql)) (Some mysql) idx buf len True st' P w;
             Some (if e then ERROR_BACKEND else ERROR_OK, st, P, w) }
         | COM_QUERY \<Rightarrow> do {
             cmd \<leftarrow> strncaseeq buf 0 ''PROXY'';
             if cmd then do {
               (e, st, P, w) \<leftarrow> proxy_cmd lib (cmd_env_of env) mysql buf 5 (len - 5) st' P w;
               Some (if e then ERROR_CLIENT else ERROR_OK, st, P, w) }
             else if proxy_only then let (e, w) = refuse only_proxy in Some (conn_error_of_bool e, st', P, w)
             else do {
               (e, st, P, w) \<leftarrow> proxy_backend_query lib (query_env_of env) (dispatch_of env (Some mysql)) (Some mysql) idx buf len False st' P w;
               Some (if e then ERROR_BACKEND else ERROR_OK, st, P, w) } }
         | COM_QUIT \<Rightarrow> Some (ERROR_CLOSE, st, P, w)
         | COM_PING \<Rightarrow> let (e, w) = proxy_net_send_ok lib mysql 0 0 0 w in Some (if e then ERROR_CLIENT else ERROR_OK, st, P, w)
         | COM_INIT_DB \<Rightarrow> let (e, w) = refuse single_db in Some (conn_error_of_bool e, st, P, w)
         | _ \<Rightarrow> let (_, w) = refuse not_supported in Some (ERROR_OK, st, P, w))"

text \<open>An empty packet counts as the command \<open>COM_SLEEP\<close>.\<close>

definition proxy_net_read_query ::
  "'w lib \<Rightarrow> 'w net_env \<Rightarrow> conn \<Rightarrow> proxy_conn_idx_t \<Rightarrow> bool \<Rightarrow> status_t \<Rightarrow> proxy \<Rightarrow> 'w \<Rightarrow> (conn_error_t \<times> status_t \<times> proxy \<times> 'w) option" where
  "proxy_net_read_query lib env mysql idx proxy_only st P w =
     (let w = do_call lib ''net_new_transaction'' [Arg_int (int mysql)] w;
          (revents, w) = call lib ''poll'' [Arg_int (int mysql), Arg_int (opt_timeout (prog_options P) * 1000)] w
      in if revents = 0 then Some (ERROR_CLOSE, st, P, w)
         else if revents AND POLLRDHUP \<noteq> 0 then Some (ERROR_CLOSE, st, P, w)
         else
           case my_net_read lib mysql w of
             (None, w) \<Rightarrow> Some (ERROR_CLIENT, st, P, w)
           | (Some packet, w) \<Rightarrow>
               let st = st\<lparr>bytes_recv := bytes_recv st + of_nat (length packet)\<rparr>;
                   w = do_call lib ''clear_server_status'' [Arg_int (int mysql)] w
               in case packet of
                    [] \<Rightarrow> run_command lib env mysql idx proxy_only COM_SLEEP [] st P w
                  | c # text \<Rightarrow> run_command lib env mysql idx proxy_only (command_of lib c) text st P w)"

partial_function (option) serve_loop ::
  "'w lib \<Rightarrow> 'w net_env \<Rightarrow> conn \<Rightarrow> proxy_conn_idx_t \<Rightarrow> bool \<Rightarrow> status_t \<Rightarrow> proxy \<Rightarrow> 'w \<Rightarrow> (status_t \<times> proxy \<times> 'w) option" where
  "serve_loop lib env mysql idx proxy_only st P w =
     (if net_error lib mysql w \<or> \<not> net_vio lib mysql w then Some (st, P, w)
      else do {
        (error, st, P, w) \<leftarrow> proxy_net_read_query lib env mysql idx proxy_only st P w;
        let (_, w) = proxy_net_flush lib (Some mysql) w;
        if error \<noteq> ERROR_OK then Some (st, P, w) else serve_loop lib env mysql idx proxy_only st P w })"

text \<open>The client of a work item: its connection, if one was set up.\<close>

definition proxy_net_client_do_work ::
  "'w lib \<Rightarrow> auth_env \<Rightarrow> 'w net_env \<Rightarrow> int \<Rightarrow> proxy_conn_idx_t \<Rightarrow> bool \<Rightarrow> status_t \<Rightarrow> proxy \<Rightarrow> 'w \<Rightarrow>
   (conn option \<times> status_t \<times> proxy \<times> 'w) option" where
  "proxy_net_client_do_work lib au env clientfd idx proxy_only st P w =
     (let (new, w) = client_init lib clientfd w in
      case new of
        None \<Rightarrow> Some (None, st, P, w)
      | Some mysql \<Rightarrow> do {
          (error, w) \<leftarrow> proxy_net_handshake lib au mysql w;
          if error then Some (Some mysql, st, P, w)
          else do {
            (st, P, w) \<leftarrow> serve_loop lib env mysql idx proxy_only st P w;
            Some (Some mysql, st, P, w) } })"

definition client_destroy :: "'w lib \<Rightarrow> conn option \<Rightarrow> 'w \<Rightarrow> 'w" where
  "client_destroy lib proxy w =
     (case proxy of
        None \<Rightarrow> w
      | Some mysql \<Rightarrow>
          let w = do_call lib ''vio_close'' [Arg_int (int mysql)] w;
              w = do_call lib ''vio_delete'' [Arg_int (int mysql)] w;
              w = do_call lib ''net_end'' [Arg_int (int mysql)] w
          in mysql_close lib mysql w)"

text \<open>
  One turn of a client thread, for a client on the socket \<open>clientfd\<close>: a connection to a backend,
  the work, and the status of the thread added to that of the server. The state of the thread's
  own pool item is in theory \<open>Pool_Threads\<close>.
\<close>

definition serve_client ::
  "'w lib \<Rightarrow> auth_env \<Rightarrow> 'w net_env \<Rightarrow> nat \<times> nat \<times> ((pool_t \<Rightarrow> pool_t) \<times> nat) list \<Rightarrow> int \<Rightarrow> int \<Rightarrow> status_t \<Rightarrow> proxy \<Rightarrow> 'w \<Rightarrow>
   (status_t \<times> proxy \<times> 'w) option" where
  "serve_client lib au env choice thread_id clientfd st P w = do {
     let P = P\<lparr>global_connections := global_connections P + 1\<rparr>;
     let (r1, r2, wakes) = choice;
     (idx, bs) \<leftarrow> proxy_backend_get_connection r1 r2 wakes thread_id (backend P);
     (proxy, st, P, w) \<leftarrow> proxy_net_client_do_work lib au env clientfd idx False st (P\<lparr>backend := bs\<rparr>) w;
     (_, bs) \<leftarrow> proxy_backend_release_connection idx (backend P);
     let w = client_destroy lib proxy w;
     let P = P\<lparr>backend := bs, global_status := proxy_status_add st (global_status P)\<rparr>;
     Some (proxy_status_reset st, P, w) }"

section \<open>The handshake stays within its buffers\<close>

lemma convert_name_defined:
  assumes "ctype_ok (ctype au)" "charset_ok (system_charset au)" "get_charset au n = Some cs" "charset_ok cs"
  shows "\<exists>s. convert_name au sz src n = Some s"
proof -
  have "sz \<le> length (replicate (sz + 1) NUL)" by simp
  from copy_loop_ok [OF assms(1,2,4) _ this, of 0 src 0]
  obtain buf k e where c: "copy_and_convert (ctype au) (replicate (sz + 1) NUL) sz (system_charset au) src cs = Some (buf, k, e)"
    "k \<le> sz" "length buf = sz + 1" unfolding copy_and_convert_def by auto
  then show ?thesis using assms(3) by (simp add: convert_name_def wr_def)
qed

lemma cstr_exists: "NUL \<in> set (drop i b) \<Longrightarrow> \<exists>s. cstr b i = Some s"
  by (simp add: cstr_def)

lemma cstr_before:
  assumes "cstr (p @ NUL # q) i = Some s" "i \<le> length p"
  shows "i + length s \<le> length p"
proof -
  have "s = takeWhile (\<lambda>c. c \<noteq> NUL) (drop i p @ NUL # q)" using assms by (auto simp: cstr_def split: if_splits)
  moreover have "length (takeWhile (\<lambda>c. c \<noteq> NUL) (xs @ NUL # q)) \<le> length xs" for xs by (induction xs) auto
  ultimately have "length s \<le> length (drop i p)" by blast
  then show ?thesis using assms(2) by simp
qed

definition auth_ok :: "auth_env \<Rightarrow> bool" where
  "auth_ok au \<longleftrightarrow> ctype_ok (ctype au) \<and> charset_ok (system_charset au) \<and> (\<forall>n. \<exists>cs. get_charset au n = Some cs \<and> charset_ok cs) \<and>
     NUL \<in> set (drop 257 (stale au))"

lemma auth_data_defined:
  assumes "auth_ok au" "32 \<le> length packet"
  shows "\<exists>d. auth_data lib au packet = Some d"
proof -
  let ?b = "packet @ NUL # stale au"
  have st: "NUL \<in> set (drop 257 (stale au))" using assms(1) by (simp add: auth_ok_def)
  then have sl: "257 < length (stale au)" by (metis drop_all empty_iff empty_set not_le)
  have "NUL \<in> set (drop 32 ?b)" using assms(2) by simp
  then obtain user where u: "cstr ?b 32 = Some user" using cstr_exists by blast
  have ul: "32 + length user \<le> length packet" using cstr_before [OF u assms(2)] .
  obtain c where c: "rd ?b 8 = Some c" using assms(2) by (auto simp: rd_def)
  obtain l where l: "rd ?b (32 + length user + 1) = Some l" using ul sl by (auto simp: rd_def)
  let ?pl = "of_char l :: nat"
  have pl: "?pl < 256" using nat_of_char_less_256 [of l] by simp
  have "\<exists>d. cstr ?b (32 + length user + 1 + ?pl + 1) = Some d"
  proof (rule cstr_exists)
    let ?i = "32 + length user + 1 + ?pl + 1"
    have "?i - length packet - 1 \<le> 257" using ul pl by linarith
    then have "set (drop 257 (stale au)) \<subseteq> set (drop (?i - length packet - 1) (stale au))" by (rule set_drop_subset_set_drop)
    moreover have "set (drop (?i - length packet - 1) (stale au)) \<subseteq> set (drop ?i ?b)"
      by (cases "?i - length packet") (auto simp: drop_Cons')
    ultimately show "NUL \<in> set (drop ?i ?b)" using st by blast
  qed
  then obtain db where db: "cstr ?b (32 + length user + 1 + ?pl + 1) = Some db" by blast
  have conv: "\<exists>s. convert_name au sz src n = Some s" for sz src n
    using assms(1) convert_name_defined [of au n _ sz src] unfolding auth_ok_def by blast
  then obtain f where f: "\<And>sz src n. convert_name au sz src n = Some (f sz src n)" by metis
  show ?thesis using c u l db assms(2) f by (simp add: auth_data_def Let_def)
qed


section \<open>Refused commands\<close>

text \<open>System calls do not read or write packets, and \<open>poll\<close> reports data.\<close>

definition calls_ok :: "'w lib \<Rightarrow> ('w \<Rightarrow> conn \<Rightarrow> string list) \<Rightarrow> ('w \<Rightarrow> conn \<Rightarrow> string list) \<Rightarrow> bool" where
  "calls_ok lib inb outb \<longleftrightarrow>
     (\<forall>name args w. inb (snd (call lib name args w)) = inb w \<and> outb (snd (call lib name args w)) = outb w) \<and>
     (\<forall>args w. fst (call lib ''poll'' args w) = 1)"

text \<open>The commands that are refused on a connection, and the text of the error.\<close>

definition refusal :: "bool \<Rightarrow> server_command \<Rightarrow> string \<Rightarrow> string option" where
  "refusal proxy_only command text =
     (case command of
        COM_QUERY \<Rightarrow> if proxy_only \<and> \<not> starts_with text ''PROXY'' then Some only_proxy else None
      | COM_INIT_DB \<Rightarrow> Some single_db
      | COM_SLEEP \<Rightarrow> Some not_supported
      | COM_other \<Rightarrow> Some not_supported
      | _ \<Rightarrow> None)"

lemma run_command_refused:
  assumes "net_ok lib inb outb" "refusal proxy_only command text = Some msg" "NUL \<notin> set text"
  shows "\<exists>st' w'. run_command lib env mysql idx proxy_only command text st P w = Some (ERROR_OK, st', P, w') \<and> inb w' = inb w \<and>
    outb w' = (outb w)(mysql := outb w mysql @ [ERR_BYTE # int2store lib (er lib ER_NOT_ALLOWED_COMMAND) @ take (MYSQL_ERRMSG_SIZE lib - 1) msg])"
proof -
  obtain w1 where w1: "net_write_command lib mysql ERR_BYTE (int2store lib (er lib ER_NOT_ALLOWED_COMMAND) @ take (MYSQL_ERRMSG_SIZE lib - 1) msg) w = (False, w1)"
    "inb w1 = inb w"
    "outb w1 = (outb w)(mysql := outb w mysql @ [ERR_BYTE # int2store lib (er lib ER_NOT_ALLOWED_COMMAND) @ take (MYSQL_ERRMSG_SIZE lib - 1) msg])"
    using net_okD(4) [of lib inb outb, OF assms(1)] by blast
  have e: "proxy_net_send_error lib mysql (er lib ER_NOT_ALLOWED_COMMAND) msg w = (False, w1)"
    using w1(1) net_okD(1) [OF assms(1)] by (simp add: proxy_net_send_error_def)
  have "cstr ([] @ text @ NUL # stale_bytes env) (length ([] :: string)) = Some text" by (rule cstr_append [OF assms(3)])
  then have "strncaseeq (text @ NUL # stale_bytes env) 0 ''PROXY'' = Some (starts_with text ''PROXY'')"
    using strncaseeq_cstr [of "text @ NUL # stale_bytes env" 0 "text" "''PROXY''"] by (simp add: starts_with_def)
  with e have "\<exists>st'. run_command lib env mysql idx proxy_only command text st P w = Some (ERROR_OK, st', P, w1)"
    using assms(2) by (cases command) (auto simp: run_command_def refusal_def conn_error_of_bool_def Let_def simp del: strncaseeq.simps split: if_splits)
  with w1 show ?thesis by blast
qed


section \<open>Concrete runs\<close>

definition sample_auth :: auth_env where
  "sample_auth = \<lparr>ctype = sample_ctype, system_charset = latin, get_charset = (\<lambda>_. Some latin), default_charset_byte = CHR 0x08,
     protocol_byte = CHR 0x0A, SERVER_VERSION_LENGTH = 60, SCRAMBLE_LENGTH_323 = 8, NAME_LEN = 64, USERNAME_LENGTH = 16,
     CLIENT_BASIC_FLAGS = 0xA20D, CLIENT_CONNECT_WITH_DB = 8, CLIENT_MULTI_STATEMENTS = 0x10000, CLIENT_TRANSACTIONS = 0x2000,
     SERVER_STATUS_AUTOCOMMIT = 2, scramble = replicate 20 CHR 0x41, stale = replicate 300 NUL\<rparr>"

definition sample_login :: string where
  "sample_login = replicate 32 NUL @ ''root'' @ [NUL, NUL]"

lemma sample_auth_ok: "auth_ok sample_auth"
proof -
  have "drop 257 (replicate 300 NUL) = replicate 43 NUL" by simp
  then have "NUL \<in> set (drop 257 (replicate 300 NUL))" by (metis in_set_replicate zero_neq_numeral)
  then show ?thesis using sample_ok by (simp add: auth_ok_def sample_auth_def)
qed

lemma sample_login_user: "auth_data script_lib sample_auth sample_login = Some (Some (''root'', None))"
  by code_simp


definition polling_lib :: "script lib" where
  "polling_lib = script_lib\<lparr>call := (\<lambda>name args w. (1, w\<lparr>call_log := call_log w @ [name]\<rparr>))\<rparr>"

lemma polling_ok: "net_ok polling_lib in_packets out_packets" "calls_ok polling_lib in_packets out_packets"
  using script_net_ok by (simp_all add: net_ok_def calls_ok_def polling_lib_def)

definition sample_net_env :: "script net_env" where
  "sample_net_env = \<lparr>query_env_of = quiet, cmd_env_of = sample_env, dispatch_of = (\<lambda>_ _ _ _ _ _ _. None), stale_bytes = []\<rparr>"


end
