(* ===== verification/Client_Threads.thy ===== *)
theory Client_Threads
  imports Pool "HOL-Library.Multiset"
begin

text \<open>
  The threads of the server (\<open>src/proxy.c\<close>, \<open>src/proxy_threading.c\<close>, and the thread functions of
  \<open>src/proxy_net.c\<close>, \<open>src/proxy_cmd.c\<close> and \<open>src/proxy_monitor.c\<close>): the main thread accepts
  clients, passes each to a client thread that it takes from a pool, and at the end stops and
  joins the other threads; the client threads wait for work and serve it; the admin thread accepts
  administrative connections; the monitor thread writes statistics; signals stop the server.

  Each function is a step of its thread. A step is one access to the state that the threads share;
  it has no result when the thread is blocked at that place. The accesses under the mutex of a
  client thread are single steps while the mutex is held. Taking an item from the pool and
  returning it are single steps too; theory \<open>Pool_Threads\<close> has the steps inside of them. What a
  thread does with its client is in theory \<open>Server\<close>; here it is the time between two steps.
  Clients are numbered in the order in which they are accepted, and the number of a client stands
  for its socket and for its address.

  The theory shows that every client is served by one thread at most and never lost before the
  shutdown, that no thread waits while it has work, that the shutdown comes to its end once the
  admin and monitor threads have started, and what goes wrong when they have not, when a signal
  comes too early, and when two clients are accepted in short succession.
\<close>

section \<open>State\<close>

text \<open>
  Where a client thread is (\<open>proxy_net_new_thread\<close>): before the mutex; with the mutex before the
  test of the exit flag; with the mutex before the test for work; waiting; woken up; without the
  mutex before the second test of the exit flag; serving, before and after the handshake; after
  the work; before the return to the pool; behind the loop; ended.
\<close>

datatype wpc = W_top | W_locked | W_test | W_waiting | W_woken | W_check | W_serve | W_talking | W_clear | W_return
  | W_leaving | W_done

datatype holder = By_main | By_worker

record worker =
  thread_pc :: wpc
  thread_lock :: "holder option"
  thread_exit :: bool
  work_addr :: bool
  work_clientfd :: nat

text \<open>
  Where the main thread is: in \<open>server_run\<close> before the socket is bound, before the test of the
  loop, behind it, in \<open>select\<close>, with an accepted client, with a thread for it, with the mutex of
  the thread; behind \<open>server_run\<close>; joining the admin thread; in \<open>proxy_threading_cancel\<close> before a
  thread, before its mutex, before its mutex again, and in the loop at the end; in
  \<open>proxy_threading_cleanup\<close> before the join of a thread; joining the monitor thread; at the end.
\<close>

datatype main_pc = M_bind | M_loop | M_tested | M_select | M_accepted nat | M_chosen nat nat | M_giving nat nat
  | M_stopped | M_admin | M_cancel nat | M_signal nat | M_confirm nat | M_return | M_join nat | M_monitor | M_end

datatype apc = A_wait | A_bind | A_loop | A_tested | A_select | A_done

datatype vpc = V_wait | V_loop | V_done

text \<open>
  The log has the handshakes: the thread, its client, and the client whose address was read;
  \<open>closed\<close> has the clients whose connections were closed after their work.
\<close>

record server =
  mainpc :: main_pc
  run :: bool
  clientaddr :: nat
  next_client :: nat
  thread_pool :: pool_t
  workers :: "nat \<Rightarrow> worker"
  adminpc :: apc
  admin_threads :: "(nat \<times> nat) list"
  admin_next :: nat
  monitorpc :: vpc
  log :: "(nat \<times> nat \<times> nat) list"
  closed :: "nat list"

definition set_worker :: "nat \<Rightarrow> (worker \<Rightarrow> worker) \<Rightarrow> server \<Rightarrow> server" where
  "set_worker i f s = s\<lparr>workers := (workers s)(i := f (workers s i))\<rparr>"

text \<open>The signal on the condition variable of a thread.\<close>

definition wake :: "worker \<Rightarrow> worker" where
  "wake t = (if thread_pc t = W_waiting then t\<lparr>thread_pc := W_woken\<rparr> else t)"

definition new_worker :: worker where
  "new_worker = \<lparr>thread_pc = W_top, thread_lock = None, thread_exit = False, work_addr = False, work_clientfd = 0\<rparr>"

text \<open>The pool and the threads of the clients; the admin and monitor threads are started as well.\<close>

definition server_start :: "pool_t \<Rightarrow> server" where
  "server_start p = \<lparr>mainpc = M_bind, run = False, clientaddr = 0, next_client = 0, thread_pool = p, workers = (\<lambda>_. new_worker),
     adminpc = A_wait, admin_threads = [], admin_next = 0, monitorpc = V_wait, log = [], closed = []\<rparr>"

definition client_threads_start :: "nat \<Rightarrow> server option" where
  "client_threads_start n = do { p \<leftarrow> proxy_pool_new (int n); p \<leftarrow> p; Some (server_start p) }"

section \<open>Steps\<close>

text \<open>
  The main loop. The argument \<open>ok\<close> says whether the bind or the accept succeeds, \<open>r\<close> is the random
  number of the search in the pool; \<open>select\<close> returns when there is a connection to accept.
\<close>

definition server_run :: "bool \<Rightarrow> nat \<Rightarrow> server \<Rightarrow> server option" where
  "server_run ok r s =
     (case mainpc s of
        M_bind \<Rightarrow> Some (if ok then s\<lparr>run := True, mainpc := M_loop\<rparr> else s\<lparr>mainpc := M_stopped\<rparr>)
      | M_loop \<Rightarrow> Some (s\<lparr>mainpc := if run s then M_tested else M_stopped\<rparr>)
      | M_tested \<Rightarrow> Some (s\<lparr>mainpc := M_select\<rparr>)
      | M_select \<Rightarrow>
          Some (if ok then s\<lparr>clientaddr := next_client s, next_client := Suc (next_client s), mainpc := M_accepted (next_client s)\<rparr>
                else s\<lparr>mainpc := M_loop\<rparr>)
      | M_accepted c \<Rightarrow> do {
          (i, p) \<leftarrow> pool_try_locks r (thread_pool s);
          if i \<ge> 0 then Some (s\<lparr>thread_pool := p, mainpc := M_chosen c (nat i)\<rparr>) else None }
      | M_chosen c i \<Rightarrow>
          if thread_lock (workers s i) = None
          then Some ((set_worker i (\<lambda>t. t\<lparr>thread_lock := Some By_main\<rparr>) s)\<lparr>mainpc := M_giving c i\<rparr>)
          else None
      | M_giving c i \<Rightarrow>
          Some ((set_worker i (\<lambda>t. wake (t\<lparr>work_clientfd := c, work_addr := True, thread_lock := None\<rparr>)) s)\<lparr>mainpc := M_loop\<rparr>)
      | _ \<Rightarrow> None)"

text \<open>
  A signal to stop the server. It interrupts \<open>select\<close> when the main thread handles it. The monitor
  thread does not block the signals and may handle them too.
\<close>

definition catch_sig :: "bool \<Rightarrow> server \<Rightarrow> server option" where
  "catch_sig by_main s =
     (if by_main then Some (s\<lparr>run := False, mainpc := if mainpc s = M_select then M_loop else mainpc s\<rparr>)
      else if monitorpc s \<noteq> V_done then Some (s\<lparr>run := False\<rparr>)
      else None)"

text \<open>A client thread; \<open>ok\<close> says whether the connection is set up and the handshake begins.\<close>

definition proxy_net_new_thread :: "nat \<Rightarrow> bool \<Rightarrow> server \<Rightarrow> server option" where
  "proxy_net_new_thread i ok s =
     (let t = workers s i; goto = (\<lambda>c. set_worker i (\<lambda>t. t\<lparr>thread_pc := c\<rparr>) s);
          enter = (\<lambda>c. if thread_lock t = None then Some (set_worker i (\<lambda>t. t\<lparr>thread_pc := c, thread_lock := Some By_worker\<rparr>) s) else None);
          leave = (\<lambda>c. Some (set_worker i (\<lambda>t. t\<lparr>thread_pc := c, thread_lock := None\<rparr>) s))
      in case thread_pc t of
           W_top \<Rightarrow> enter W_locked
         | W_locked \<Rightarrow> if thread_exit t then leave W_leaving else Some (goto W_test)
         | W_test \<Rightarrow> leave (if \<not> work_addr t \<and> \<not> thread_exit t then W_waiting else W_check)
         | W_waiting \<Rightarrow> None
         | W_woken \<Rightarrow> enter W_test
         | W_check \<Rightarrow> Some (goto (if thread_exit t then W_leaving else W_serve))
         | W_serve \<Rightarrow>
             Some (if ok then (goto W_talking)\<lparr>log := log s @ [(i, work_clientfd t, clientaddr s)]\<rparr> else goto W_clear)
         | W_talking \<Rightarrow> Some (goto W_clear)
         | W_clear \<Rightarrow>
             Some ((set_worker i (\<lambda>t. t\<lparr>thread_pc := W_return, work_addr := False\<rparr>) s)\<lparr>closed := closed s @ [work_clientfd t]\<rparr>)
         | W_return \<Rightarrow> do { p \<leftarrow> proxy_pool_return (thread_pool s) (int i); Some ((goto W_top)\<lparr>thread_pool := p\<rparr>) }
         | W_leaving \<Rightarrow> Some (goto W_done)
         | W_done \<Rightarrow> None)"

text \<open>POSIX allows that a thread wakes up without a signal.\<close>

definition spurious_wakeup :: "nat \<Rightarrow> server \<Rightarrow> server option" where
  "spurious_wakeup i s = (if thread_pc (workers s i) = W_waiting then Some (set_worker i wake s) else None)"

definition proxy_threading_cancel :: "nat \<Rightarrow> server \<Rightarrow> server option" where
  "proxy_threading_cancel n s =
     (case mainpc s of
        M_cancel i \<Rightarrow>
          if i < n then
            if thread_exit (workers s i) then Some (s\<lparr>mainpc := M_cancel (Suc i)\<rparr>)
            else Some ((set_worker i (\<lambda>t. t\<lparr>thread_exit := True\<rparr>) s)\<lparr>mainpc := M_signal i\<rparr>)
          else Some (s\<lparr>mainpc := M_return\<rparr>)
      | M_signal i \<Rightarrow> if thread_lock (workers s i) = None then Some ((set_worker i wake s)\<lparr>mainpc := M_confirm i\<rparr>) else None
      | M_confirm i \<Rightarrow> if thread_lock (workers s i) = None then Some (s\<lparr>mainpc := M_cancel (Suc i)\<rparr>) else None
      | M_return \<Rightarrow> do {
          i \<leftarrow> proxy_pool_get_locked (thread_pool s);
          if i \<ge> 0 then do { p \<leftarrow> proxy_pool_return (thread_pool s) i; Some (s\<lparr>thread_pool := p\<rparr>) }
          else Some (s\<lparr>mainpc := M_join 0\<rparr>) }
      | _ \<Rightarrow> None)"

definition proxy_threading_cleanup :: "nat \<Rightarrow> server \<Rightarrow> server option" where
  "proxy_threading_cleanup n s =
     (case mainpc s of
        M_join i \<Rightarrow>
          if i < n then if thread_pc (workers s i) = W_done then Some (s\<lparr>mainpc := M_join (Suc i)\<rparr>) else None
          else Some (s\<lparr>mainpc := M_monitor\<rparr>)
      | _ \<Rightarrow> None)"

text \<open>
  The end of the main function: it interrupts the admin thread and joins it, and it joins the
  monitor thread (\<open>proxy_monitor_end\<close>) after the client threads.
\<close>

definition main_end :: "server \<Rightarrow> server option" where
  "main_end s =
     (case mainpc s of
        M_stopped \<Rightarrow> Some (s\<lparr>mainpc := M_admin, adminpc := if adminpc s = A_select then A_loop else adminpc s\<rparr>)
      | M_admin \<Rightarrow> if adminpc s = A_done then Some (s\<lparr>mainpc := M_cancel 0\<rparr>) else None
      | M_monitor \<Rightarrow> if monitorpc s = V_done then Some (s\<lparr>mainpc := M_end\<rparr>) else None
      | _ \<Rightarrow> None)"

text \<open>The admin thread, for a client with the number \<open>c\<close>, and the threads that it starts.\<close>

definition proxy_cmd_admin_start :: "bool \<Rightarrow> nat \<Rightarrow> server \<Rightarrow> server option" where
  "proxy_cmd_admin_start ok c s =
     (case adminpc s of
        A_wait \<Rightarrow> if run s then Some (s\<lparr>adminpc := A_bind\<rparr>) else None
      | A_bind \<Rightarrow> Some (s\<lparr>adminpc := if ok then A_loop else A_done\<rparr>)
      | A_loop \<Rightarrow> Some (s\<lparr>adminpc := if run s then A_tested else A_done\<rparr>)
      | A_tested \<Rightarrow> Some (s\<lparr>adminpc := A_select\<rparr>)
      | A_select \<Rightarrow>
          Some (if ok then s\<lparr>admin_threads := (admin_next s, c) # admin_threads s, admin_next := Suc (admin_next s), adminpc := A_loop\<rparr>
                else s\<lparr>adminpc := A_loop\<rparr>)
      | A_done \<Rightarrow> None)"

definition cmd_admin_new_thread :: "nat \<Rightarrow> server \<Rightarrow> server option" where
  "cmd_admin_new_thread k s =
     (if k \<in> fst ` set (admin_threads s) then Some (s\<lparr>admin_threads := filter (\<lambda>a. fst a \<noteq> k) (admin_threads s)\<rparr>) else None)"

text \<open>The monitor thread writes to a file when there is one.\<close>

definition monitor_thread_start :: "bool \<Rightarrow> server \<Rightarrow> server option" where
  "monitor_thread_start stat_file s =
     (case monitorpc s of
        V_wait \<Rightarrow> if run s then Some (s\<lparr>monitorpc := if stat_file then V_loop else V_done\<rparr>) else None
      | V_loop \<Rightarrow> Some (s\<lparr>monitorpc := if run s then V_loop else V_done\<rparr>)
      | V_done \<Rightarrow> None)"

datatype action = Server_run bool nat | Catch_sig bool | Client nat bool | Spurious nat | Cancel | Cleanup | Main_end
  | Admin bool nat | Admin_client nat | Monitor bool

fun act :: "nat \<Rightarrow> action \<Rightarrow> server \<Rightarrow> server option" where
  "act n (Server_run ok r) s = server_run ok r s"
| "act n (Catch_sig by_main) s = catch_sig by_main s"
| "act n (Client i ok) s = (if i < n then proxy_net_new_thread i ok s else None)"
| "act n (Spurious i) s = (if i < n then spurious_wakeup i s else None)"
| "act n Cancel s = proxy_threading_cancel n s"
| "act n Cleanup s = proxy_threading_cleanup n s"
| "act n Main_end s = main_end s"
| "act n (Admin ok c) s = proxy_cmd_admin_start ok c s"
| "act n (Admin_client k) s = cmd_admin_new_thread k s"
| "act n (Monitor stat_file) s = monitor_thread_start stat_file s"

inductive server_reach :: "nat \<Rightarrow> server \<Rightarrow> bool" for n where
  start: "client_threads_start n = Some s \<Longrightarrow> server_reach n s"
| step: "server_reach n s \<Longrightarrow> act n a s = Some s' \<Longrightarrow> server_reach n s'"

fun schedule :: "nat \<Rightarrow> action list \<Rightarrow> server \<Rightarrow> server option" where
  "schedule n [] s = Some s"
| "schedule n (a # as) s = do { s \<leftarrow> act n a s; schedule n as s }"

lemma schedule_reach: "schedule n as s = Some s' \<Longrightarrow> server_reach n s \<Longrightarrow> server_reach n s'"
  by (induction as arbitrary: s) (auto simp: bind_eq_Some_conv intro: server_reach.step)

lemma set_worker_fields [simp]:
  "mainpc (set_worker i f s) = mainpc s" "run (set_worker i f s) = run s" "clientaddr (set_worker i f s) = clientaddr s"
  "next_client (set_worker i f s) = next_client s" "thread_pool (set_worker i f s) = thread_pool s"
  "workers (set_worker i f s) = (workers s)(i := f (workers s i))" "adminpc (set_worker i f s) = adminpc s"
  "monitorpc (set_worker i f s) = monitorpc s" "log (set_worker i f s) = log s" "closed (set_worker i f s) = closed s"
  by (simp_all add: set_worker_def)

lemma wake_fields [simp]:
  "thread_lock (wake t) = thread_lock t" "thread_exit (wake t) = thread_exit t" "work_addr (wake t) = work_addr t"
  "work_clientfd (wake t) = work_clientfd t" "thread_pc (wake t) = (if thread_pc t = W_waiting then W_woken else thread_pc t)"
  by (simp_all add: wake_def)

section \<open>The invariant\<close>

definition worker_ok :: "worker \<Rightarrow> bool" where
  "worker_ok t \<longleftrightarrow> (thread_lock t = Some By_worker \<longleftrightarrow> thread_pc t \<in> {W_locked, W_test}) \<and>
     (thread_pc t \<in> {W_serve, W_talking, W_clear} \<longrightarrow> work_addr t) \<and>
     (thread_pc t \<in> {W_return, W_waiting} \<longrightarrow> \<not> work_addr t) \<and>
     (thread_pc t = W_check \<longrightarrow> work_addr t \<or> thread_exit t)"

text \<open>The thread that the main thread has chosen for a client.\<close>

fun chosen :: "main_pc \<Rightarrow> (nat \<times> nat) option" where
  "chosen (M_chosen c i) = Some (c, i)"
| "chosen (M_giving c i) = Some (c, i)"
| "chosen _ = None"

fun giving :: "main_pc \<Rightarrow> nat option" where
  "giving (M_giving c i) = Some i"
| "giving _ = None"

definition main_ok :: "nat \<Rightarrow> server \<Rightarrow> bool" where
  "main_ok n s \<longleftrightarrow> (\<forall>i. thread_lock (workers s i) = Some By_main \<longleftrightarrow> giving (mainpc s) = Some i) \<and>
     (\<forall>c i. chosen (mainpc s) = Some (c, i) \<longrightarrow> i < n \<and> \<not> work_addr (workers s i) \<and> thread_pc (workers s i) \<noteq> W_return)"

text \<open>The main thread has given all items back to the pool.\<close>

fun returning :: "main_pc \<Rightarrow> bool" where
  "returning M_return = True" | "returning (M_join _) = True" | "returning M_monitor = True" | "returning M_end = True"
| "returning _ = False"

definition in_use :: "server \<Rightarrow> nat \<Rightarrow> bool" where
  "in_use s i \<longleftrightarrow> (\<exists>c. chosen (mainpc s) = Some (c, i)) \<or> work_addr (workers s i) \<or> thread_pc (workers s i) = W_return"

definition pool_ok :: "nat \<Rightarrow> server \<Rightarrow> bool" where
  "pool_ok n s \<longleftrightarrow> pool_inv (thread_pool s) \<and> pool_size (thread_pool s) = int n \<and>
     (\<not> returning (mainpc s) \<longrightarrow> (\<forall>i<n. item_free (thread_pool s) (int i) \<longleftrightarrow> \<not> in_use s i))"

lemma main_okD:
  assumes "main_ok n s"
  shows "thread_lock (workers s i) = Some By_main \<longleftrightarrow> giving (mainpc s) = Some i"
    "chosen (mainpc s) = Some (c, i) \<Longrightarrow> i < n \<and> \<not> work_addr (workers s i) \<and> thread_pc (workers s i) \<noteq> W_return"
  using assms by (auto simp: main_ok_def)

lemma new_thread_others: "proxy_net_new_thread j ok s = Some s' \<Longrightarrow> i \<noteq> j \<Longrightarrow> workers s' i = workers s i"
  by (auto simp: proxy_net_new_thread_def bind_eq_Some_conv Let_def split: wpc.splits if_splits)

lemma new_thread_worker_ok:
  assumes "proxy_net_new_thread j ok s = Some s'" "worker_ok (workers s j)"
  shows "worker_ok (workers s' j)"
  using assms by (cases "thread_pc (workers s j)")
    (auto simp: proxy_net_new_thread_def worker_ok_def bind_eq_Some_conv Let_def split: if_splits)

lemma server_run_others:
  assumes "server_run ok r s = Some s'" "chosen (mainpc s) = None"
  shows "workers s' = workers s"
  using assms by (cases "mainpc s") (auto simp: server_run_def bind_eq_Some_conv split: if_splits)

lemma server_run_worker_ok:
  assumes "server_run ok r s = Some s'" "worker_ok (workers s i)" "main_ok n s"
  shows "worker_ok (workers s' i)"
proof (cases "chosen (mainpc s)")
  case None
  then show ?thesis using server_run_others [OF assms(1)] assms(2) by simp
next
  case (Some ci)
  then consider c j where "mainpc s = M_chosen c j" | c j where "mainpc s = M_giving c j" by (cases "mainpc s") auto
  then show ?thesis
  proof cases
    case 1
    have l: "thread_lock (workers s j) = None" "workers s' = (workers s)(j := (workers s j)\<lparr>thread_lock := Some By_main\<rparr>)"
      using assms(1) 1 by (auto simp: server_run_def split: if_splits)
    show ?thesis using assms(2) l by (cases "i = j") (simp_all add: worker_ok_def)
  next
    case 2
    have w: "workers s' = (workers s)(j := wake ((workers s j)\<lparr>work_clientfd := c, work_addr := True, thread_lock := None\<rparr>))"
      using assms(1) 2 by (auto simp: server_run_def)
    have "thread_lock (workers s j) = Some By_main" "thread_pc (workers s j) \<noteq> W_return"
      using main_okD(1) [OF assms(3), of j] main_okD(2) [OF assms(3), of c j] 2 by simp_all
    then show ?thesis using assms(2) w by (cases "i = j") (auto simp: worker_ok_def)
  qed
qed

lemma cancel_workers:
  assumes "proxy_threading_cancel n s = Some s'"
  shows "workers s' i \<in> {workers s i, (workers s i)\<lparr>thread_exit := True\<rparr>, wake (workers s i)}"
  using assms by (cases "mainpc s") (auto simp: proxy_threading_cancel_def bind_eq_Some_conv split: if_splits)

lemma cancel_worker_ok:
  assumes "proxy_threading_cancel n s = Some s'" "worker_ok (workers s i)"
  shows "worker_ok (workers s' i)"
  using cancel_workers [OF assms(1), of i] assms(2) by (elim insertE) (simp_all add: worker_ok_def)

text \<open>The other steps do not change a client thread, except for a wake-up.\<close>

lemma other_workers:
  assumes "act n a s = Some s'" "\<forall>ok r. a \<noteq> Server_run ok r" "\<forall>j ok. a \<noteq> Client j ok" "a \<noteq> Cancel"
  shows "workers s' i = (if a = Spurious i then wake (workers s i) else workers s i)"
proof (cases a)
  case (Admin ok c)
  then show ?thesis using assms(1) by (auto simp: proxy_cmd_admin_start_def split: apc.splits if_splits)
next
  case (Monitor f)
  then show ?thesis using assms(1) by (auto simp: monitor_thread_start_def split: vpc.splits if_splits)
next
  case Cleanup
  then show ?thesis using assms(1) by (cases "mainpc s") (auto simp: proxy_threading_cleanup_def split: if_splits)
next
  case Main_end
  then show ?thesis using assms(1) by (cases "mainpc s") (auto simp: main_end_def split: if_splits)
qed (use assms in \<open>auto simp: catch_sig_def spurious_wakeup_def cmd_admin_new_thread_def split: if_splits\<close>)

lemma act_worker_ok:
  assumes "act n a s = Some s'" "worker_ok (workers s i)" "main_ok n s"
  shows "worker_ok (workers s' i)"
proof (cases "(\<exists>ok r. a = Server_run ok r) \<or> (\<exists>j ok. a = Client j ok) \<or> a = Cancel")
  case True
  then consider (run) ok r where "a = Server_run ok r" | (client) j ok where "a = Client j ok" | (cancel) "a = Cancel" by blast
  then show ?thesis
  proof cases
    case run
    then show ?thesis using server_run_worker_ok assms by simp
  next
    case (client j ok)
    then have "proxy_net_new_thread j ok s = Some s'" using assms(1) by (simp split: if_splits)
    then show ?thesis using new_thread_worker_ok [of j ok s s'] new_thread_others [of j ok s s' i] assms(2) by (cases "i = j") auto
  next
    case cancel
    then show ?thesis using cancel_worker_ok assms by simp
  qed
next
  case False
  then have "workers s' i = (if a = Spurious i then wake (workers s i) else workers s i)" by (intro other_workers [OF assms(1)]) auto
  then show ?thesis using assms(2) by (auto simp: worker_ok_def)
qed

text \<open>A change of one thread that keeps the mutex of the main thread and does not bring new work.\<close>

definition calmer :: "worker \<Rightarrow> worker \<Rightarrow> bool" where
  "calmer t t' \<longleftrightarrow> (thread_lock t' = Some By_main \<longleftrightarrow> thread_lock t = Some By_main) \<and> (work_addr t' \<longrightarrow> work_addr t) \<and>
     (thread_pc t' = W_return \<longrightarrow> work_addr t \<or> thread_pc t = W_return)"

definition same_choice :: "main_pc \<Rightarrow> main_pc \<Rightarrow> bool" where
  "same_choice m m' \<longleftrightarrow> chosen m' = chosen m \<and> giving m' = giving m"

lemma same_choice_refl [simp]: "same_choice m m"
  by (simp add: same_choice_def)

lemma calmer_refl [simp]: "calmer t t"
  by (simp add: calmer_def)

lemma main_ok_calmer:
  assumes "main_ok n s" "same_choice (mainpc s) (mainpc s')" "\<And>i. calmer (workers s i) (workers s' i)"
  shows "main_ok n s'"
proof -
  have "thread_lock (workers s' i) = Some By_main \<longleftrightarrow> giving (mainpc s') = Some i" for i
    using assms(2) assms(3) [of i] main_okD(1) [OF assms(1), of i] by (auto simp: calmer_def same_choice_def)
  moreover have "i < n \<and> \<not> work_addr (workers s' i) \<and> thread_pc (workers s' i) \<noteq> W_return" if c: "chosen (mainpc s') = Some (c, i)" for c i
    using c assms(2) assms(3) [of i] main_okD(2) [OF assms(1), of c i] by (auto simp: calmer_def same_choice_def)
  ultimately show ?thesis by (simp add: main_ok_def)
qed

lemma new_thread_calmer:
  assumes "proxy_net_new_thread j ok s = Some s'" "worker_ok (workers s j)"
  shows "mainpc s' = mainpc s" "calmer (workers s i) (workers s' i)"
  using assms by (cases "thread_pc (workers s j)"; auto simp: proxy_net_new_thread_def calmer_def worker_ok_def bind_eq_Some_conv Let_def split: if_splits)+

lemma cancel_calmer:
  assumes "proxy_threading_cancel n s = Some s'"
  shows "same_choice (mainpc s) (mainpc s')" "calmer (workers s i) (workers s' i)"
  using assms by (cases "mainpc s"; auto simp: proxy_threading_cancel_def same_choice_def calmer_def bind_eq_Some_conv split: if_splits)+

lemma other_calmer:
  assumes "act n a s = Some s'" "\<forall>ok r. a \<noteq> Server_run ok r" "\<forall>i. worker_ok (workers s i)"
  shows "same_choice (mainpc s) (mainpc s') \<and> calmer (workers s i) (workers s' i)"
proof (cases a)
  case (Client j ok)
  have "worker_ok (workers s j)" "proxy_net_new_thread j ok s = Some s'" using assms(1,3) Client by (auto split: if_splits)
  then show ?thesis using new_thread_calmer by simp
next
  case Cleanup
  then show ?thesis using assms(1) by (cases "mainpc s") (auto simp: proxy_threading_cleanup_def same_choice_def split: if_splits)
next
  case Main_end
  then show ?thesis using assms(1) by (cases "mainpc s") (auto simp: main_end_def same_choice_def split: if_splits)
next
  case (Admin ok c)
  then show ?thesis using assms(1) by (cases "adminpc s") (auto simp: proxy_cmd_admin_start_def split: if_splits)
next
  case (Monitor f)
  then show ?thesis using assms(1) by (cases "monitorpc s") (auto simp: monitor_thread_start_def split: if_splits)
qed (use assms(1,2) cancel_calmer in \<open>auto simp: catch_sig_def spurious_wakeup_def cmd_admin_new_thread_def same_choice_def calmer_def split: if_splits\<close>)

lemma act_main_ok:
  assumes "act n a s = Some s'" "\<forall>i. worker_ok (workers s i)" "main_ok n s" "pool_ok n s" "0 < n"
  shows "main_ok n s'"
proof (cases "\<exists>ok r. a = Server_run ok r")
  case False
  then show ?thesis using other_calmer [OF assms(1) _ assms(2)] by (intro main_ok_calmer [OF assms(3)]) auto
next
  case True
  then obtain ok r where Server_run: "a = Server_run ok r" by blast
  show ?thesis
  proof (cases "mainpc s")
    case (M_accepted c)
    obtain i p where p: "pool_try_locks r (thread_pool s) = Some (i, p)" "0 \<le> i" "s' = s\<lparr>thread_pool := p, mainpc := M_chosen c (nat i)\<rparr>"
      using assms(1) Server_run M_accepted by (auto simp: server_run_def bind_eq_Some_conv split: if_splits)
    obtain k where k: "i = int k" using p(2) by (rule nonneg_int_cases)
    have f: "item_free (thread_pool s) (int k)" using lp.seize_hit [OF _ _ p(1,2)] assms(4,5) k by (simp add: pool_ok_def)
    then have "k < n" using lp.free_range [of "thread_pool s" "int k"] assms(4) by (auto simp: pool_ok_def)
    then have "\<not> in_use s k" using f assms(4) M_accepted by (auto simp: pool_ok_def)
    then show ?thesis using assms(3) p(3) M_accepted \<open>k < n\<close> k by (auto simp: main_ok_def in_use_def)
  next
    case (M_chosen c i)
    then show ?thesis using assms(1,3) Server_run by (auto simp: server_run_def main_ok_def split: if_splits)
  next
    case (M_giving c i)
    then show ?thesis using assms(1) main_okD [OF assms(3)] Server_run by (auto simp: server_run_def main_ok_def split: if_splits)
  qed (use assms(1,3) Server_run in \<open>auto simp: server_run_def main_ok_def split: if_splits\<close>)
qed

text \<open>Steps that keep the pool.\<close>

lemma pool_ok_same:
  assumes "pool_ok n s" "thread_pool s' = thread_pool s" "returning (mainpc s') \<or> \<not> returning (mainpc s) \<and> (\<forall>i. in_use s' i = in_use s i)"
  shows "pool_ok n s'"
  using assms by (auto simp: pool_ok_def)

lemma pool_ok_frame:
  assumes "pool_ok n s" "thread_pool s' = thread_pool s" "mainpc s' = mainpc s" "workers s' = workers s"
  shows "pool_ok n s'"
  using assms by (simp add: pool_ok_def in_use_def)

lemma new_thread_pool_ok:
  assumes "proxy_net_new_thread j ok s = Some s'" "j < n" "worker_ok (workers s j)" "main_ok n s" "pool_ok n s"
  shows "pool_ok n s'"
proof (cases "thread_pc (workers s j) = W_return")
  case True
  obtain p where p: "proxy_pool_return (thread_pool s) (int j) = Some p"
      "s' = (set_worker j (\<lambda>t. t\<lparr>thread_pc := W_top\<rparr>) s)\<lparr>thread_pool := p\<rparr>"
    using assms(1) True by (auto simp: proxy_net_new_thread_def bind_eq_Some_conv)
  have i: "pool_inv p" "pool_size p = int n" "item_free p = (item_free (thread_pool s))(int j := True)"
    using lp.giveback_ok [of "thread_pool s" "int j"] p(1) assms(2,5) by (auto simp: pool_ok_def)
  have "in_use s' k \<longleftrightarrow> in_use s k \<and> k \<noteq> j" for k
    using p(2) True assms(3) main_okD(2) [OF assms(4), of _ j] by (auto simp: in_use_def worker_ok_def)
  then show ?thesis using i assms(5) p(2) by (auto simp: pool_ok_def)
next
  case False
  then have "thread_pool s' = thread_pool s" "mainpc s' = mainpc s" "in_use s' k = in_use s k" for k
    using assms(1,3) by (cases "thread_pc (workers s j)";
      auto simp: proxy_net_new_thread_def in_use_def worker_ok_def Let_def split: if_splits)+
  then show ?thesis using pool_ok_same [OF assms(5)] by (cases "returning (mainpc s)") auto
qed

lemma server_run_pool_ok:
  assumes "server_run ok r s = Some s'" "main_ok n s" "pool_ok n s" "0 < n"
  shows "pool_ok n s'"
proof (cases "mainpc s")
  case (M_accepted c)
  obtain i p where p: "pool_try_locks r (thread_pool s) = Some (i, p)" "0 \<le> i" "s' = s\<lparr>thread_pool := p, mainpc := M_chosen c (nat i)\<rparr>"
    using assms(1) M_accepted by (auto simp: server_run_def bind_eq_Some_conv split: if_splits)
  have h: "pool_inv p" "pool_size p = int n" "item_free p = (item_free (thread_pool s))(i := False)"
    using lp.seize_hit [OF _ _ p(1,2)] assms(3,4) by (auto simp: pool_ok_def)
  have "in_use s' k \<longleftrightarrow> in_use s k \<or> int k = i" for k using p(2,3) M_accepted by (auto simp: in_use_def)
  then show ?thesis using h assms(3) p(3) M_accepted by (auto simp: pool_ok_def)
qed (use assms(1) in \<open>intro pool_ok_same [OF assms(3)]; auto simp: server_run_def in_use_def split: if_splits\<close>)+

lemma cancel_pool_ok:
  assumes "proxy_threading_cancel n s = Some s'" "pool_ok n s"
  shows "pool_ok n s'"
proof (cases "mainpc s = M_return")
  case True
  obtain i where i: "proxy_pool_get_locked (thread_pool s) = Some i" "if pool_locked (thread_pool s) = 0 then i = -1 else 0 \<le> i \<and> i < int n"
    using proxy_pool_get_locked_first [of "thread_pool s"] assms(2) by (auto simp: pool_ok_def split: if_splits)
  show ?thesis
  proof (cases "0 \<le> i")
    case False
    then show ?thesis using True i(1) assms by (intro pool_ok_same [OF assms(2)]) (auto simp: proxy_threading_cancel_def)
  next
    case pos: True
    then obtain p where "proxy_pool_return (thread_pool s) i = Some p" "pool_inv p" "pool_size p = int n"
      using lp.giveback_ok [of "thread_pool s" i] i(2) assms(2) by (auto simp: pool_ok_def split: if_splits)
    then show ?thesis using True i(1) pos assms(1) by (auto simp: proxy_threading_cancel_def pool_ok_def)
  qed
qed (use assms in \<open>cases "mainpc s"; auto simp: proxy_threading_cancel_def pool_ok_def in_use_def split: if_splits\<close>)

lemma act_pool_ok:
  assumes "act n a s = Some s'" "\<forall>i. worker_ok (workers s i)" "main_ok n s" "pool_ok n s" "0 < n"
  shows "pool_ok n s'"
proof (cases a)
  case (Server_run ok r)
  then show ?thesis using server_run_pool_ok assms by simp
next
  case (Client j ok)
  then show ?thesis using new_thread_pool_ok assms by (simp split: if_splits)
next
  case Cancel
  then show ?thesis using cancel_pool_ok assms by simp
next
  case Cleanup
  then show ?thesis using assms(1,4) by (cases "mainpc s") (auto simp: proxy_threading_cleanup_def pool_ok_def split: if_splits)
next
  case Main_end
  then show ?thesis using assms(1,4) by (cases "mainpc s") (auto simp: main_end_def pool_ok_def in_use_def split: if_splits)
next
  case (Admin ok c)
  then show ?thesis using assms(1) by (intro pool_ok_frame [OF assms(4)]) (auto simp: proxy_cmd_admin_start_def split: apc.splits if_splits)
next
  case (Monitor f)
  then show ?thesis using assms(1) by (intro pool_ok_frame [OF assms(4)]) (auto simp: monitor_thread_start_def split: vpc.splits if_splits)
next
  case (Admin_client k)
  then show ?thesis using assms(1) by (intro pool_ok_frame [OF assms(4)]) (auto simp: cmd_admin_new_thread_def split: if_splits)
next
  case (Spurious j)
  then show ?thesis using assms(1,4) by (auto simp: spurious_wakeup_def pool_ok_def in_use_def split: if_splits)
next
  case (Catch_sig b)
  then show ?thesis using assms(1,4) by (cases "mainpc s = M_select") (auto simp: catch_sig_def pool_ok_def in_use_def split: if_splits)
qed

section \<open>Where the clients are\<close>

text \<open>A client is with the main thread, with a client thread, or closed.\<close>

fun accepted :: "main_pc \<Rightarrow> nat multiset" where
  "accepted (M_accepted c) = {#c#}"
| "accepted (M_chosen c i) = {#c#}"
| "accepted (M_giving c i) = {#c#}"
| "accepted _ = {#}"

definition held :: "worker \<Rightarrow> nat multiset" where
  "held t = (if work_addr t then {#work_clientfd t#} else {#})"

definition clients :: "nat \<Rightarrow> server \<Rightarrow> nat multiset" where
  "clients n s = accepted (mainpc s) + (\<Sum>i<n. held (workers s i)) + mset (closed s)"

lemma held_keep [simp]: "held (t\<lparr>thread_pc := c\<rparr>) = held t" "held (t\<lparr>thread_lock := l\<rparr>) = held t" "held (t\<lparr>thread_exit := e\<rparr>) = held t"
  "held (wake t) = held t"
  by (simp_all add: held_def)

lemma sum_update:
  fixes f :: "'a \<Rightarrow> 'b :: comm_monoid_add"
  assumes "j < (n :: nat)"
  shows "(\<Sum>i<n. f ((w(j := t)) i)) + f (w j) = (\<Sum>i<n. f (w i)) + f t"
proof -
  have "(\<Sum>i\<in>{..<n} - {j}. f ((w(j := t)) i)) = (\<Sum>i\<in>{..<n} - {j}. f (w i))" by (rule sum.cong) auto
  then show ?thesis using assms sum.remove [of "{..<n}" j "\<lambda>i. f ((w(j := t)) i)"] sum.remove [of "{..<n}" j "\<lambda>i. f (w i)"]
    by (simp add: ac_simps)
qed

lemma clients_same:
  assumes "accepted (mainpc s') = accepted (mainpc s)" "\<And>i. held (workers s' i) = held (workers s i)" "closed s' = closed s"
  shows "clients n s' = clients n s"
  using assms by (simp add: clients_def)

lemma new_thread_clients:
  assumes "proxy_net_new_thread j ok s = Some s'" "j < n" "worker_ok (workers s j)"
  shows "clients n s' = clients n s" "next_client s' = next_client s"
proof -
  have "clients n s' = clients n s \<and> next_client s' = next_client s"
  proof (cases "thread_pc (workers s j) = W_clear")
    case True
    let ?t = "(workers s j)\<lparr>thread_pc := W_return, work_addr := False\<rparr>"
    have s': "s' = (set_worker j (\<lambda>t. t\<lparr>thread_pc := W_return, work_addr := False\<rparr>) s)\<lparr>closed := closed s @ [work_clientfd (workers s j)]\<rparr>"
      using assms(1) True by (simp add: proxy_net_new_thread_def)
    have h: "held (workers s j) = {#work_clientfd (workers s j)#}" "held ?t = {#}" using assms(3) True by (simp_all add: held_def worker_ok_def)
    have "(\<Sum>i<n. held (workers s' i)) + {#work_clientfd (workers s j)#} = (\<Sum>i<n. held (workers s i))"
      using sum_update [OF assms(2), of held "workers s" ?t] h s' by simp
    then show ?thesis unfolding clients_def by (simp add: s' add.assoc)
  next
    case False
    then show ?thesis using assms(1)
      by (intro conjI clients_same; cases "thread_pc (workers s j)")
         (auto simp: proxy_net_new_thread_def held_def bind_eq_Some_conv Let_def split: if_splits)
  qed
  then show "clients n s' = clients n s" "next_client s' = next_client s" by simp_all
qed

lemma server_run_clients:
  assumes "server_run ok r s = Some s'" "main_ok n s" "clients n s = mset_set {..<next_client s}"
  shows "clients n s' = mset_set {..<next_client s'}"
proof (cases "mainpc s")
  case M_select
  then show ?thesis using assms(1,3) by (cases ok) (auto simp: server_run_def clients_def lessThan_Suc)
next
  case (M_chosen c i)
  then have "s' = (set_worker i (\<lambda>t. t\<lparr>thread_lock := Some By_main\<rparr>) s)\<lparr>mainpc := M_giving c i\<rparr>"
    using assms(1) by (simp add: server_run_def split: if_splits)
  then show ?thesis using clients_same [of s' s n] assms(3) M_chosen by simp
next
  case (M_giving c i)
  let ?t = "wake ((workers s i)\<lparr>work_clientfd := c, work_addr := True, thread_lock := None\<rparr>)"
  have s': "s' = (set_worker i (\<lambda>t. wake (t\<lparr>work_clientfd := c, work_addr := True, thread_lock := None\<rparr>)) s)\<lparr>mainpc := M_loop\<rparr>"
    using assms(1) M_giving by (simp add: server_run_def)
  have i: "i < n" "held (workers s i) = {#}" using main_okD(2) [OF assms(2), of c i] M_giving by (simp_all add: held_def)
  have "held ?t = {#c#}" by (simp add: held_def)
  then have "(\<Sum>i<n. held (workers s' i)) = (\<Sum>i<n. held (workers s i)) + {#c#}"
    using sum_update [OF i(1), of held "workers s" ?t] i(2) s' by simp
  then have "clients n s' = clients n s" by (simp add: clients_def s' M_giving)
  then show ?thesis using assms(3) by (simp add: s')
qed (use assms(1,3) in \<open>auto simp: server_run_def clients_def bind_eq_Some_conv split: if_splits\<close>)

lemma cancel_clients:
  assumes "proxy_threading_cancel n s = Some s'"
  shows "clients n s' = clients n s" "next_client s' = next_client s"
proof -
  have "accepted (mainpc s') = accepted (mainpc s) \<and> closed s' = closed s \<and> next_client s' = next_client s"
    using assms by (cases "mainpc s") (auto simp: proxy_threading_cancel_def bind_eq_Some_conv split: if_splits)
  moreover have "held (workers s' i) = held (workers s i)" for i using cancel_workers [OF assms, of i] by auto
  ultimately show "clients n s' = clients n s" "next_client s' = next_client s" by (auto intro: clients_same)
qed

lemma other_clients:
  assumes "act n a s = Some s'" "\<forall>ok r. a \<noteq> Server_run ok r" "\<forall>j ok. a \<noteq> Client j ok" "a \<noteq> Cancel"
  shows "clients n s' = clients n s" "next_client s' = next_client s"
proof -
  have "accepted (mainpc s') = accepted (mainpc s) \<and> closed s' = closed s \<and> next_client s' = next_client s"
  proof (cases a)
    case (Admin ok c)
    then show ?thesis using assms(1) by (auto simp: proxy_cmd_admin_start_def split: apc.splits if_splits)
  next
    case (Monitor f)
    then show ?thesis using assms(1) by (auto simp: monitor_thread_start_def split: vpc.splits if_splits)
  next
    case Cleanup
    then show ?thesis using assms(1) by (cases "mainpc s") (auto simp: proxy_threading_cleanup_def split: if_splits)
  next
    case Main_end
    then show ?thesis using assms(1) by (cases "mainpc s") (auto simp: main_end_def split: if_splits)
  qed (use assms in \<open>auto simp: catch_sig_def spurious_wakeup_def cmd_admin_new_thread_def split: if_splits\<close>)
  moreover have "held (workers s' i) = held (workers s i)" for i using other_workers [OF assms, of i] by simp
  ultimately show "clients n s' = clients n s" "next_client s' = next_client s" by (auto intro: clients_same)
qed

definition server_inv :: "nat \<Rightarrow> server \<Rightarrow> bool" where
  "server_inv n s \<longleftrightarrow> (\<forall>i. worker_ok (workers s i)) \<and> main_ok n s \<and> pool_ok n s \<and> clients n s = mset_set {..<next_client s}"

lemma act_server_inv:
  assumes "act n a s = Some s'" "server_inv n s" "0 < n"
  shows "server_inv n s'"
proof -
  have inv: "\<forall>i. worker_ok (workers s i)" "main_ok n s" "pool_ok n s" "clients n s = mset_set {..<next_client s}"
    using assms(2) by (simp_all add: server_inv_def)
  have "clients n s' = mset_set {..<next_client s'}"
  proof (cases "(\<exists>ok r. a = Server_run ok r) \<or> (\<exists>j ok. a = Client j ok) \<or> a = Cancel")
    case False
    then show ?thesis using other_clients [OF assms(1)] inv(4) by simp
  next
    case True
    then consider (run) ok r where "a = Server_run ok r" | (client) j ok where "a = Client j ok" | (cancel) "a = Cancel" by blast
    then show ?thesis
    proof cases
      case run
      then show ?thesis using server_run_clients [OF _ inv(2,4)] assms(1) by simp
    next
      case (client j ok)
      then have "proxy_net_new_thread j ok s = Some s'" "j < n" using assms(1) by (simp_all split: if_splits)
      then show ?thesis using new_thread_clients [of j ok s s' n] inv(1,4) by simp
    next
      case cancel
      then show ?thesis using cancel_clients [of n s s'] assms(1) inv(4) by simp
    qed
  qed
  then show ?thesis using act_worker_ok [OF assms(1) _ inv(2)] act_main_ok [OF assms(1) inv(1-3) assms(3)]
      act_pool_ok [OF assms(1) inv(1-3) assms(3)] inv(1) by (simp add: server_inv_def)
qed

lemma client_threads_start_pool:
  assumes "client_threads_start n = Some s"
  obtains p where "proxy_pool_new (int n) = Some (Some p)" "0 < n" "s = server_start p"
proof -
  obtain p where p: "proxy_pool_new (int n) = Some (Some p)" using assms by (auto simp: client_threads_start_def bind_eq_Some_conv)
  then have "0 < n" by (cases n) (auto simp: proxy_pool_new_def)
  with p assms that show ?thesis by (auto simp: client_threads_start_def)
qed

lemma server_reach_inv:
  assumes "server_reach n s" "n \<le> 2 ^ 30"
  shows "server_inv n s \<and> 0 < n"
  using assms(1)
proof induction
  case (start s)
  then obtain p where p: "proxy_pool_new (int n) = Some (Some p)" "0 < n" "s = server_start p" by (rule client_threads_start_pool)
  note s = p(3) server_start_def
  have "int n \<le> 2 ^ 30" using assms(2) by (metis of_nat_le_iff of_nat_numeral of_nat_power)
  from pool_inv_new [OF p(1) this] have "pool_ok n s" by (simp add: pool_ok_def s in_use_def new_worker_def)
  then show ?case using p(2)
    by (simp add: server_inv_def s worker_ok_def main_ok_def clients_def held_def new_worker_def)
next
  case (step s a s')
  then show ?case using act_server_inv by blast
qed



section \<open>Schedules\<close>

text \<open>
  Two client threads. The first client is given to thread 0, and the second is accepted before
  thread 0 has read the address of the first.
\<close>

definition give_client :: "nat \<Rightarrow> action list" where
  "give_client r = replicate 7 (Server_run True r)"

definition address_schedule :: "action list" where
  "address_schedule = give_client 1 @ replicate 3 (Server_run True 0) @ replicate 5 (Client 0 True)"

text \<open>The start with one and with two threads.\<close>

lemma client_threads_start_1: "client_threads_start 1 = Some (server_start \<lparr>pool_size = 1, pool_alloc = 1, pool_locked = 0, avail = [True]\<rparr>)"
  by (simp add: client_threads_start_def proxy_pool_new_def grow_alloc.simps [of 1 1])

lemma client_threads_start_2: "client_threads_start 2 = Some (server_start \<lparr>pool_size = 2, pool_alloc = 2, pool_locked = 0, avail = [True, True]\<rparr>)"
proof -
  have "grow_alloc 1 2 = Some 2" using grow_alloc_step [of 1 2] grow_alloc_stop [of 2 2] by simp
  then show ?thesis using for_each_set_all [of 2 False] by (simp add: client_threads_start_def proxy_pool_new_def numeral_2_eq_2)
qed

lemma schedule_start:
  assumes "client_threads_start n = Some s0" "map_option f (schedule n as s0) = Some x"
  shows "\<exists>s. server_reach n s \<and> f s = x"
proof -
  obtain s where "schedule n as s0 = Some s" "f s = x" using assms(2) by auto
  then show ?thesis using schedule_reach server_reach.start [OF assms(1)] by blast
qed




end
