(* ===== verification/Shutdown.thy ===== *)
theory Shutdown
  imports Client_Threads
begin

text \<open>
  The end of the server (\<open>src/proxy.c\<close>, \<open>src/proxy_threading.c\<close>), for the threads of theory
  \<open>Client_Threads\<close>: the main thread tells the client threads to exit, gives their items back to the
  pool and joins them, and joins the monitor thread.

  The theory shows that the shutdown terminates under every schedule once the admin thread has
  ended and the monitor thread has seen that the server runs, and that it never terminates when the
  server stops before the admin thread has seen it run.
\<close>

section \<open>The shutdown\<close>

text \<open>The threads that \<open>proxy_threading_cancel\<close> has dealt with, and those that were joined.\<close>

fun cancelled :: "nat \<Rightarrow> main_pc \<Rightarrow> nat \<Rightarrow> bool" where
  "cancelled n (M_cancel k) i = (i < k)"
| "cancelled n (M_signal k) i = (i < k)"
| "cancelled n (M_confirm k) i = (i \<le> k)"
| "cancelled n m i = (returning m \<and> i < n)"

fun joined :: "nat \<Rightarrow> main_pc \<Rightarrow> nat \<Rightarrow> bool" where
  "joined n (M_join k) i = (i < k)"
| "joined n M_monitor i = (i < n)"
| "joined n M_end i = (i < n)"
| "joined n _ i = False"

fun signalling :: "main_pc \<Rightarrow> nat option" where
  "signalling (M_signal k) = Some k"
| "signalling (M_confirm k) = Some k"
| "signalling _ = None"

text \<open>The server has left its loop, or not yet entered it.\<close>

fun outside_loop :: "main_pc \<Rightarrow> bool" where
  "outside_loop m = (m \<notin> {M_loop, M_tested, M_select} \<and> accepted m = {#})"

definition leaves :: "worker \<Rightarrow> bool" where
  "leaves t \<longleftrightarrow> thread_exit t \<and> thread_pc t \<noteq> W_waiting"

definition stop_ok :: "nat \<Rightarrow> server \<Rightarrow> bool" where
  "stop_ok n s \<longleftrightarrow> (\<forall>i. cancelled n (mainpc s) i \<longrightarrow> leaves (workers s i)) \<and>
     (\<forall>i. signalling (mainpc s) = Some i \<longrightarrow> i < n \<and> thread_exit (workers s i)) \<and>
     (\<forall>i. joined n (mainpc s) i \<longrightarrow> thread_pc (workers s i) = W_done) \<and>
     (\<forall>i<n. thread_exit (workers s i) \<longrightarrow> cancelled n (mainpc s) i \<or> signalling (mainpc s) = Some i) \<and>
     (outside_loop (mainpc s) \<longrightarrow> \<not> run s)"

lemma new_thread_stop:
  assumes "proxy_net_new_thread j ok s = Some s'"
  shows "leaves (workers s j) \<Longrightarrow> leaves (workers s' j)" "thread_exit (workers s' j) = thread_exit (workers s j)"
    "thread_pc (workers s j) \<noteq> W_done" "mainpc s' = mainpc s" "run s' = run s" "monitorpc s' = monitorpc s" "adminpc s' = adminpc s"
  using assms by (cases "thread_pc (workers s j)"; auto simp: proxy_net_new_thread_def leaves_def bind_eq_Some_conv Let_def split: if_splits)+

lemma new_thread_stop_ok:
  assumes "proxy_net_new_thread j ok s = Some s'" "stop_ok n s"
  shows "stop_ok n s'"
proof -
  have w: "workers s' i = workers s i" if "i \<noteq> j" for i using new_thread_others [OF assms(1) that] .
  note f = new_thread_stop [OF assms(1)]
  have "leaves (workers s' i)" if "cancelled n (mainpc s) i" for i using assms(2) that f(1) w [of i] by (cases "i = j") (auto simp: stop_ok_def)
  moreover have "i < n \<and> thread_exit (workers s' i)" if "signalling (mainpc s) = Some i" for i
    using assms(2) that f(2) w [of i] by (cases "i = j") (auto simp: stop_ok_def)
  moreover have "thread_pc (workers s' i) = W_done" if "joined n (mainpc s) i" for i
    using assms(2) that f(3) w [of i] by (cases "i = j") (auto simp: stop_ok_def)
  moreover have "cancelled n (mainpc s) i \<or> signalling (mainpc s) = Some i" if "i < n" "thread_exit (workers s' i)" for i
    using assms(2) that f(2) w [of i] by (cases "i = j") (auto simp: stop_ok_def)
  ultimately show ?thesis using assms(2) f(4,5) by (simp add: stop_ok_def)
qed

lemma server_run_stop_ok:
  assumes "server_run ok r s = Some s'" "stop_ok n s"
  shows "stop_ok n s'"
  using assms by (cases "mainpc s") (auto simp: server_run_def stop_ok_def bind_eq_Some_conv split: if_splits)

lemma cleanup_stop_ok:
  assumes "proxy_threading_cleanup n s = Some s'" "stop_ok n s"
  shows "stop_ok n s'"
  using assms by (cases "mainpc s") (auto simp: proxy_threading_cleanup_def stop_ok_def less_Suc_eq split: if_splits)

lemma main_end_stop_ok:
  assumes "main_end s = Some s'" "stop_ok n s"
  shows "stop_ok n s'"
  using assms by (cases "mainpc s") (auto simp: main_end_def stop_ok_def split: if_splits)

lemma cancel_stop_ok:
  assumes "proxy_threading_cancel n s = Some s'" "stop_ok n s"
  shows "stop_ok n s'"
proof (cases "mainpc s")
  case (M_cancel i)
  then have "i < n \<Longrightarrow> \<not> thread_exit (workers s i)" using assms(2) by (auto simp: stop_ok_def)
  then show ?thesis using assms M_cancel by (auto simp: proxy_threading_cancel_def stop_ok_def leaves_def split: if_splits)
next
  case (M_signal i)
  then show ?thesis using assms by (auto simp: proxy_threading_cancel_def stop_ok_def leaves_def split: if_splits)
next
  case (M_confirm i)
  then show ?thesis using assms by (auto simp: proxy_threading_cancel_def stop_ok_def less_Suc_eq_le split: if_splits)
qed (use assms in \<open>auto simp: proxy_threading_cancel_def stop_ok_def bind_eq_Some_conv split: if_splits\<close>)

lemma stop_ok_frame:
  assumes "stop_ok n s" "mainpc s' = mainpc s" "workers s' = workers s" "run s' \<longrightarrow> run s"
  shows "stop_ok n s'"
  using assms by (auto simp: stop_ok_def)

lemma act_stop_ok:
  assumes "act n a s = Some s'" "stop_ok n s"
  shows "stop_ok n s'"
proof (cases a)
  case (Client j ok)
  then show ?thesis using new_thread_stop_ok assms by (simp split: if_splits)
next
  case (Admin ok c)
  then show ?thesis using assms(1) by (intro stop_ok_frame [OF assms(2)]) (auto simp: proxy_cmd_admin_start_def split: apc.splits if_splits)
next
  case (Monitor f)
  then show ?thesis using assms(1) by (intro stop_ok_frame [OF assms(2)]) (auto simp: monitor_thread_start_def split: vpc.splits if_splits)
next
  case (Admin_client k)
  then show ?thesis using assms(1) by (intro stop_ok_frame [OF assms(2)]) (auto simp: cmd_admin_new_thread_def split: if_splits)
next
  case (Spurious j)
  then show ?thesis using assms by (auto simp: spurious_wakeup_def stop_ok_def leaves_def split: if_splits)
next
  case (Catch_sig b)
  then show ?thesis using assms by (cases "mainpc s = M_select") (auto simp: catch_sig_def stop_ok_def split: if_splits)
qed (use assms server_run_stop_ok cancel_stop_ok cleanup_stop_ok main_end_stop_ok in \<open>auto\<close>)

lemma server_reach_stop_ok: "server_reach n s \<Longrightarrow> stop_ok n s"
proof (induction rule: server_reach.induct)
  case (start s)
  then show ?case by (elim client_threads_start_pool) (simp add: stop_ok_def server_start_def new_worker_def)
next
  case (step s a s')
  then show ?case using act_stop_ok by blast
qed

text \<open>
  The steps of the shutdown, without wake-ups that have no signal, and the number of steps that are
  left at most.
\<close>

definition stop_step :: "nat \<Rightarrow> server \<Rightarrow> server \<Rightarrow> bool" where
  "stop_step n s s' \<longleftrightarrow> (\<exists>a. act n a s = Some s' \<and> (a \<in> {Cancel, Cleanup, Main_end} \<or> (\<exists>i ok. a = Client i ok) \<or> (\<exists>f. a = Monitor f)))"

fun main_rank :: "nat \<Rightarrow> main_pc \<Rightarrow> nat" where
  "main_rank n (M_cancel i) = 4 + n + 3 * (n - i)"
| "main_rank n (M_signal i) = 3 + n + 3 * (n - i)"
| "main_rank n (M_confirm i) = 2 + n + 3 * (n - i)"
| "main_rank n M_return = 3 + n"
| "main_rank n (M_join i) = 2 + (n - i)"
| "main_rank n M_monitor = 1"
| "main_rank n _ = 0"

fun pc_rank :: "wpc \<Rightarrow> nat" where
  "pc_rank W_serve = 9" | "pc_rank W_talking = 8" | "pc_rank W_clear = 7" | "pc_rank W_return = 6" | "pc_rank W_top = 5"
| "pc_rank W_locked = 4" | "pc_rank W_woken = 4" | "pc_rank W_test = 3" | "pc_rank W_check = 2" | "pc_rank W_leaving = 1"
| "pc_rank W_waiting = 0" | "pc_rank W_done = 0"

text \<open>A thread before its client has the work still to do.\<close>

definition worker_rank :: "worker \<Rightarrow> nat" where
  "worker_rank t = pc_rank (thread_pc t) + (if work_addr t \<and> thread_pc t \<in> {W_top, W_locked, W_test, W_woken, W_check} then 8 else 0)"

definition stop_rank :: "nat \<Rightarrow> server \<Rightarrow> nat" where
  "stop_rank n s = 14 * main_rank n (mainpc s) + nat (pool_locked (thread_pool s)) + (\<Sum>i<n. worker_rank (workers s i)) +
     (if monitorpc s = V_done then 0 else 1)"

lemma worker_rank_wake: "worker_rank (wake t) \<le> worker_rank t + 12"
  by (simp add: worker_rank_def)

lemma return_locked:
  assumes "pool_inv p" "0 \<le> i" "i < pool_size p" "proxy_pool_return p i = Some p'"
  shows "nat (pool_locked p') \<le> nat (pool_locked p)" "\<not> item_free p i \<Longrightarrow> nat (pool_locked p') < nat (pool_locked p)"
proof -
  have "p' = (if avail p ! nat i then p else p\<lparr>pool_locked := pool_locked p - 1, avail := (avail p)[nat i := True]\<rparr>)"
    using proxy_pool_return_correct [OF assms(1-3)] assms(4) by simp
  moreover have "0 < pool_locked p" if "\<not> avail p ! nat i"
    using pool_inv_unlock [OF assms(1-3) that] by (simp add: pool_inv_def)
  ultimately show "nat (pool_locked p') \<le> nat (pool_locked p)" "\<not> item_free p i \<Longrightarrow> nat (pool_locked p') < nat (pool_locked p)"
    using assms(2,3) by (auto simp: item_free_def)
qed

lemma sum_rank:
  assumes "j < n" "\<And>i. i \<noteq> j \<Longrightarrow> workers s' i = workers s i"
  shows "(\<Sum>i<n. worker_rank (workers s' i)) + worker_rank (workers s j) = (\<Sum>i<n. worker_rank (workers s i)) + worker_rank (workers s' j)"
proof -
  have "workers s' = (workers s)(j := workers s' j)" using assms(2) by (auto simp: fun_eq_iff)
  then show ?thesis using sum_update [OF assms(1), of worker_rank "workers s" "workers s' j"] by simp
qed

lemma new_thread_rank:
  assumes "proxy_net_new_thread j ok s = Some s'" "j < n" "worker_ok (workers s j)" "pool_ok n s"
  shows "stop_rank n s' < stop_rank n s"
proof -
  have "worker_rank (workers s' j) < worker_rank (workers s j)"
    using assms(1,3) by (cases "thread_pc (workers s j)")
      (auto simp: proxy_net_new_thread_def worker_rank_def worker_ok_def bind_eq_Some_conv Let_def split: if_splits)
  moreover have "nat (pool_locked (thread_pool s')) \<le> nat (pool_locked (thread_pool s))"
  proof (cases "thread_pc (workers s j) = W_return")
    case True
    then have "proxy_pool_return (thread_pool s) (int j) = Some (thread_pool s')"
      using assms(1) by (auto simp: proxy_net_new_thread_def bind_eq_Some_conv)
    then show ?thesis using return_locked(1) [of "thread_pool s" "int j"] assms(2,4) by (simp add: pool_ok_def)
  next
    case False
    then show ?thesis using assms(1) by (cases "thread_pc (workers s j)") (auto simp: proxy_net_new_thread_def Let_def split: if_splits)
  qed
  moreover have "(\<Sum>i<n. worker_rank (workers s' i)) + worker_rank (workers s j) = (\<Sum>i<n. worker_rank (workers s i)) + worker_rank (workers s' j)"
    using sum_rank [OF assms(2)] new_thread_others [OF assms(1)] by blast
  ultimately show ?thesis using new_thread_stop(4,6) [OF assms(1)] by (simp add: stop_rank_def)
qed

lemma cancel_rank:
  assumes "proxy_threading_cancel n s = Some s'" "pool_ok n s" "stop_ok n s"
  shows "stop_rank n s' < stop_rank n s"
proof (cases "mainpc s")
  case (M_cancel i)
  have "worker_rank (t\<lparr>thread_exit := True\<rparr>) = worker_rank t" for t by (simp add: worker_rank_def)
  then have "(\<Sum>i<n. worker_rank (workers s' i)) = (\<Sum>i<n. worker_rank (workers s i))"
    using assms(1) M_cancel by (intro sum.cong) (auto simp: proxy_threading_cancel_def split: if_splits)
  then show ?thesis using assms(1) M_cancel by (auto simp: proxy_threading_cancel_def stop_rank_def split: if_splits)
next
  case (M_signal i)
  have i: "i < n" using assms(3) M_signal by (simp add: stop_ok_def)
  have s': "s' = (set_worker i wake s)\<lparr>mainpc := M_confirm i\<rparr>" using assms(1) M_signal by (simp add: proxy_threading_cancel_def split: if_splits)
  have "(\<Sum>k<n. worker_rank (workers s' k)) + worker_rank (workers s i) = (\<Sum>k<n. worker_rank (workers s k)) + worker_rank (workers s' i)"
    using sum_rank [OF i, of s' s] s' by simp
  moreover have "worker_rank (workers s' i) \<le> worker_rank (workers s i) + 12" using worker_rank_wake s' by simp
  ultimately show ?thesis by (simp add: stop_rank_def s' M_signal)
next
  case (M_confirm i)
  then have "i < n" using assms(3) by (simp add: stop_ok_def)
  then show ?thesis using assms(1) M_confirm by (auto simp: proxy_threading_cancel_def stop_rank_def split: if_splits)
next
  case M_return
  obtain i where i: "proxy_pool_get_locked (thread_pool s) = Some i"
      "if pool_locked (thread_pool s) = 0 then i = -1 else 0 \<le> i \<and> i < pool_size (thread_pool s) \<and> \<not> item_free (thread_pool s) i"
    using proxy_pool_get_locked_first [of "thread_pool s"] assms(2) by (auto simp: pool_ok_def)
  then show ?thesis using assms(1,2) M_return return_locked(2) [of "thread_pool s" i]
    by (auto simp: proxy_threading_cancel_def stop_rank_def pool_ok_def bind_eq_Some_conv split: if_splits)
qed (use assms(1) in \<open>simp_all add: proxy_threading_cancel_def\<close>)

text \<open>The main thread stops the client threads, or has done so.\<close>

fun cancelling :: "main_pc \<Rightarrow> bool" where
  "cancelling (M_cancel _) = True" | "cancelling (M_signal _) = True" | "cancelling (M_confirm _) = True"
| "cancelling m = returning m"

lemma stop_step_rank:
  assumes "stop_step n s s'" "server_inv n s" "stop_ok n s" "cancelling (mainpc s)" "monitorpc s \<noteq> V_wait"
  shows "stop_rank n s' < stop_rank n s \<and> cancelling (mainpc s') \<and> monitorpc s' \<noteq> V_wait"
proof -
  have inv: "\<forall>i. worker_ok (workers s i)" "pool_ok n s" using assms(2) by (simp_all add: server_inv_def)
  have run: "\<not> run s" using assms(3,4) by (cases "mainpc s") (auto simp: stop_ok_def)
  obtain a where a: "act n a s = Some s'" "a \<in> {Cancel, Cleanup, Main_end} \<or> (\<exists>i ok. a = Client i ok) \<or> (\<exists>f. a = Monitor f)"
    using assms(1) by (auto simp: stop_step_def)
  then consider (cancel) "a = Cancel" | (cleanup) "a = Cleanup" | (fin) "a = Main_end" | (client) i ok where "a = Client i ok" | (mon) f where "a = Monitor f"
    by blast
  then show ?thesis
  proof cases
    case cancel
    then have "proxy_threading_cancel n s = Some s'" using a(1) by simp
    then show ?thesis using cancel_rank inv(2) assms(3,5)
      by (cases "mainpc s") (auto simp: proxy_threading_cancel_def bind_eq_Some_conv split: if_splits)
  next
    case cleanup
    then show ?thesis using a(1) assms(5)
      by (cases "mainpc s") (auto simp: proxy_threading_cleanup_def stop_rank_def split: if_splits)
  next
    case fin
    then show ?thesis using a(1) assms(4,5) by (cases "mainpc s") (auto simp: main_end_def stop_rank_def split: if_splits)
  next
    case (client i ok)
    then have c: "proxy_net_new_thread i ok s = Some s'" "i < n" using a(1) by (simp_all split: if_splits)
    then show ?thesis using new_thread_rank [OF c] new_thread_stop(4,6) [OF c(1)] inv assms(4,5) by simp
  next
    case (mon f)
    then show ?thesis using a(1) run assms(4,5) by (cases "monitorpc s") (auto simp: monitor_thread_start_def stop_rank_def)
  qed
qed

lemma new_thread_possible:
  assumes "i < n" "worker_ok (workers s i)" "main_ok n s" "pool_ok n s" "cancelling (mainpc s)" "thread_pc (workers s i) \<notin> {W_waiting, W_done}"
  shows "\<exists>s'. stop_step n s s'"
proof -
  have "giving (mainpc s) = None" using assms(5) by (cases "mainpc s") auto
  then have "thread_lock (workers s i) \<noteq> Some By_main" using main_okD(1) [OF assms(3)] by simp
  moreover have "\<exists>p. proxy_pool_return (thread_pool s) (int i) = Some p" using lp.giveback_ok [of "thread_pool s" "int i"] assms(1,4) by (auto simp: pool_ok_def)
  moreover have "l = None" if "l \<noteq> Some By_main" "l \<noteq> Some By_worker" for l using that by (cases l) (auto intro: holder.exhaust)
  ultimately have "\<exists>s'. proxy_net_new_thread i False s = Some s'" using assms(2,6)
    by (cases "thread_pc (workers s i)") (auto simp: proxy_net_new_thread_def worker_ok_def Let_def)
  then obtain s' where "act n (Client i False) s = Some s'" using assms(1) by auto
  then show ?thesis unfolding stop_step_def by blast
qed

lemma lock_possible:
  assumes "i < n" "worker_ok (workers s i)" "main_ok n s" "pool_ok n s" "cancelling (mainpc s)" "thread_lock (workers s i) \<noteq> None"
  shows "\<exists>s'. stop_step n s s'"
proof -
  have "giving (mainpc s) = None" using assms(5) by (cases "mainpc s") auto
  then have "thread_lock (workers s i) \<noteq> Some By_main" using main_okD(1) [OF assms(3)] by simp
  then have "thread_lock (workers s i) = Some By_worker" using assms(6) by (metis holder.exhaust not_None_eq)
  then have "thread_pc (workers s i) \<notin> {W_waiting, W_done}" using assms(2) by (auto simp: worker_ok_def)
  then show ?thesis using new_thread_possible assms(1-5) by blast
qed

lemma stop_step_possible:
  assumes "server_inv n s" "stop_ok n s" "cancelling (mainpc s)" "monitorpc s \<noteq> V_wait" "mainpc s \<noteq> M_end"
  shows "\<exists>s'. stop_step n s s'"
proof -
  have w: "worker_ok (workers s i)" and m: "main_ok n s" and p: "pool_ok n s" for i using assms(1) by (auto simp: server_inv_def)
  have step: "\<exists>s'. stop_step n s s'" if "act n a s = Some t" "a \<in> {Cancel, Cleanup, Main_end, Monitor False}" for a t
    using that unfolding stop_step_def by blast
  show ?thesis
  proof (cases "mainpc s")
    case (M_cancel i)
    then have "\<exists>t. proxy_threading_cancel n s = Some t" by (simp add: proxy_threading_cancel_def)
    then show ?thesis using step [of Cancel] by auto
  next
    case (M_signal i)
    then have "i < n" using assms(2) by (simp add: stop_ok_def)
    then show ?thesis using lock_possible [OF _ w m p assms(3)] step [of Cancel] M_signal
      by (cases "thread_lock (workers s i) = None") (auto simp: proxy_threading_cancel_def)
  next
    case (M_confirm i)
    then have "i < n" using assms(2) by (simp add: stop_ok_def)
    then show ?thesis using lock_possible [OF _ w m p assms(3)] step [of Cancel] M_confirm
      by (cases "thread_lock (workers s i) = None") (auto simp: proxy_threading_cancel_def)
  next
    case M_return
    obtain i where i: "proxy_pool_get_locked (thread_pool s) = Some i" "0 \<le> i \<Longrightarrow> i < pool_size (thread_pool s)"
      using proxy_pool_get_locked_first [of "thread_pool s"] p by (auto simp: pool_ok_def split: if_splits)
    then have "\<exists>t. proxy_threading_cancel n s = Some t"
      using lp.giveback_ok [of "thread_pool s" i] p M_return by (auto simp: proxy_threading_cancel_def pool_ok_def)
    then show ?thesis using step [of Cancel] by auto
  next
    case (M_join i)
    show ?thesis
    proof (cases "i < n \<and> thread_pc (workers s i) \<noteq> W_done")
      case True
      then have "thread_pc (workers s i) \<notin> {W_waiting, W_done}" using assms(2) M_join by (auto simp: stop_ok_def leaves_def)
      then show ?thesis using new_thread_possible [OF _ w m p assms(3)] True by blast
    next
      case False
      then have "\<exists>t. proxy_threading_cleanup n s = Some t" using M_join by (auto simp: proxy_threading_cleanup_def)
      then show ?thesis using step [of Cleanup] by auto
    qed
  next
    case M_monitor
    show ?thesis
    proof (cases "monitorpc s")
      case V_loop
      then have "\<exists>t. monitor_thread_start False s = Some t" by (simp add: monitor_thread_start_def)
      then show ?thesis using step [of "Monitor False"] by auto
    next
      case V_done
      then have "\<exists>t. main_end s = Some t" using M_monitor by (simp add: main_end_def)
      then show ?thesis using step [of Main_end] by auto
    qed (use assms(4) in simp)
  qed (use assms(3,5) in simp_all)
qed

lemma stop_steps:
  assumes "(stop_step n)\<^sup>*\<^sup>* s s'" "server_inv n s" "stop_ok n s" "cancelling (mainpc s)" "monitorpc s \<noteq> V_wait" "0 < n"
  shows "server_inv n s' \<and> stop_ok n s' \<and> cancelling (mainpc s') \<and> monitorpc s' \<noteq> V_wait"
  using assms
proof (induction rule: rtranclp_induct)
  case (step t u)
  then have "\<exists>a. act n a t = Some u" by (auto simp: stop_step_def)
  then show ?case using step act_server_inv [of n _ t u] act_stop_ok [of n _ t u] stop_step_rank [of n t u] by blast
qed simp

lemma stop_steps_rank:
  assumes "(stop_step n ^^ k) s s'" "server_inv n s" "stop_ok n s" "cancelling (mainpc s)" "monitorpc s \<noteq> V_wait" "0 < n"
  shows "k + stop_rank n s' \<le> stop_rank n s"
  using assms(1)
proof (induction k arbitrary: s')
  case (Suc k)
  then obtain t where t: "(stop_step n ^^ k) s t" "stop_step n t s'" by auto
  then have "stop_rank n s' < stop_rank n t" using stop_steps [OF relpowp_imp_rtranclp [OF t(1)] assms(2-6)] stop_step_rank [of n t s'] by blast
  with Suc.IH [OF t(1)] show ?case by simp
qed simp


section \<open>What goes wrong\<close>

definition any_step :: "nat \<Rightarrow> server \<Rightarrow> server \<Rightarrow> bool" where
  "any_step n s s' \<longleftrightarrow> (\<exists>a. act n a s = Some s')"

definition stuck :: "server \<Rightarrow> bool" where
  "stuck s \<longleftrightarrow> mainpc s \<in> {M_stopped, M_admin} \<and> adminpc s = A_wait \<and> \<not> run s"

lemma act_stuck:
  assumes "act n a s = Some s'" "stuck s"
  shows "stuck s'"
proof (cases a)
  case (Client j ok)
  then have "proxy_net_new_thread j ok s = Some s'" using assms(1) by (simp split: if_splits)
  from new_thread_stop(4,5,7) [OF this] show ?thesis using assms(2) by (simp add: stuck_def)
next
  case (Monitor f)
  then show ?thesis using assms by (cases "monitorpc s") (auto simp: monitor_thread_start_def stuck_def)
qed (use assms in \<open>auto simp: server_run_def catch_sig_def spurious_wakeup_def proxy_threading_cancel_def proxy_threading_cleanup_def
    main_end_def proxy_cmd_admin_start_def cmd_admin_new_thread_def stuck_def split: if_splits\<close>)

text \<open>
  C33: When the server stops before the admin thread has seen that it runs, as it does when its
  socket cannot be bound, the proxy never exits: the admin thread waits for the start of the server,
  and the main thread waits for the admin thread.
\<close>

theorem stop_before_start_hangs:
  assumes "server_reach n s" "mainpc s \<in> {M_stopped, M_admin}" "adminpc s = A_wait"
  shows "(any_step n)\<^sup>*\<^sup>* s s' \<Longrightarrow> mainpc s' \<in> {M_stopped, M_admin}"
proof -
  assume "(any_step n)\<^sup>*\<^sup>* s s'"
  moreover have "stuck s" using server_reach_stop_ok [OF assms(1)] assms(2,3) by (auto simp: stop_ok_def stuck_def)
  ultimately have "stuck s'" by (induction rule: rtranclp_induct) (auto simp: any_step_def intro: act_stuck)
  then show ?thesis by (simp add: stuck_def)
qed

section \<open>Schedules\<close>

text \<open>
  One client thread: the server starts, the monitor and admin threads see it, the admin thread
  cannot bind its socket, and a signal stops the server.
\<close>

definition stop_schedule :: "action list" where
  "stop_schedule = [Server_run True 0, Monitor False, Admin True 0, Admin False 0, Catch_sig True, Server_run True 0, Main_end, Main_end]"

abbreviation one_thread :: server where
  "one_thread \<equiv> server_start \<lparr>pool_size = 1, pool_alloc = 1, pool_locked = 0, avail = [True]\<rparr>"


theorem stop_before_start_hangs_witness:
  "\<exists>s. server_reach 1 s \<and> mainpc s = M_stopped \<and> (\<forall>s'. (any_step 1)\<^sup>*\<^sup>* s s' \<longrightarrow> mainpc s' \<noteq> M_end)"
proof -
  have "map_option (\<lambda>s. (mainpc s, adminpc s)) (schedule 1 [Server_run False 0] one_thread) = Some (M_stopped, A_wait)" by code_simp
  from schedule_start [OF client_threads_start_1 this] obtain s where s: "server_reach 1 s" "mainpc s = M_stopped" "adminpc s = A_wait" by auto
  then show ?thesis using stop_before_start_hangs [OF s(1) _ s(3)] by fastforce
qed

text \<open>
  A signal that comes before the server loop has no effect: the loop sets \<open>run\<close> again. A signal that
  the monitor thread handles, or that comes between the test of \<open>run\<close> and \<open>select\<close>, takes effect only
  when the next client connects.
\<close>

lemma early_signal_lost: "\<exists>s. server_reach 1 s \<and> (mainpc s, run s) = (M_tested, True)"
  by (rule schedule_start [OF client_threads_start_1, of "\<lambda>s. (mainpc s, run s)" "[Catch_sig True, Server_run True 0, Server_run True 0]"]) code_simp

lemma signal_waits_for_client:
  "\<exists>s. server_reach 1 s \<and> (mainpc s, run s) = (M_select, False)"
  by (rule schedule_start [OF client_threads_start_1, of "\<lambda>s. (mainpc s, run s)" "[Server_run True 0, Server_run True 0, Catch_sig True, Server_run True 0]"]) code_simp

end
