(* ===== verification/Slist.thy ===== *)
theory Slist
  imports Prelude "HOL-Library.Multiset"
begin

text \<open>
  The linked lists of \<open>libltdl/slist.c\<close>. The items lie in a heap, a map from addresses to items,
  since the operations change the links of existing items; the address 0 is the null pointer and
  reading an address without an item is undefined. A callback gets the address of an item and the
  heap. A loop over a list is a \<open>partial_function\<close>, because a list may be cyclic.

  The theory shows that the operations act on the lists of addresses that a pointer stands for
  (\<open>seg\<close>), and change no other item. The sorting function of this version does not return.
\<close>

section \<open>Items\<close>

record 'a SList =
  sl_next :: nat
  sl_userdata :: 'a

type_synonym 'a heap = "nat \<rightharpoonup> 'a SList"

abbreviation NULL :: nat where "NULL \<equiv> 0"

definition set_next :: "nat \<Rightarrow> nat \<Rightarrow> 'a heap \<Rightarrow> 'a heap option" where
  "set_next a p h = do { n \<leftarrow> h a; Some (h(a \<mapsto> n\<lparr>sl_next := p\<rparr>)) }"

section \<open>Operations\<close>

partial_function (option) slist_delete :: "(nat \<Rightarrow> 'a heap \<Rightarrow> 'a heap option) \<Rightarrow> nat \<Rightarrow> 'a heap \<Rightarrow> (nat \<times> 'a heap) option" where
  "slist_delete delete_fct head h =
     (if head = NULL then Some (NULL, h)
      else do { n \<leftarrow> h head; h \<leftarrow> delete_fct head h; slist_delete delete_fct (sl_next n) h })"

partial_function (option) remove_loop :: "(nat \<Rightarrow> 'a heap \<Rightarrow> nat option) \<Rightarrow> nat \<Rightarrow> 'a heap \<Rightarrow> (nat \<times> 'a heap) option" where
  "remove_loop find_fct head h = do {
     n \<leftarrow> h head;
     if sl_next n = NULL then Some (NULL, h)
     else do {
       result \<leftarrow> find_fct (sl_next n) h;
       if result \<noteq> NULL then do { stale \<leftarrow> h (sl_next n); h \<leftarrow> set_next head (sl_next stale) h; Some (result, h) }
       else remove_loop find_fct (sl_next n) h } }"

text \<open>The result, the head and the heap; without a place for the head nothing happens.\<close>

definition slist_remove ::
  "nat option \<Rightarrow> (nat \<Rightarrow> 'a heap \<Rightarrow> nat option) \<Rightarrow> 'a heap \<Rightarrow> (nat \<times> nat option \<times> 'a heap) option" where
  "slist_remove phead find_fct h =
     (case phead of
        None \<Rightarrow> Some (NULL, None, h)
      | Some head \<Rightarrow>
          if head = NULL then Some (NULL, Some head, h)
          else do {
            result \<leftarrow> find_fct head h;
            if result \<noteq> NULL then do { stale \<leftarrow> h head; Some (result, Some (sl_next stale), h) }
            else do { (result, h) \<leftarrow> remove_loop find_fct head h; Some (result, Some head, h) } })"

partial_function (option) slist_find :: "nat \<Rightarrow> (nat \<Rightarrow> 'a heap \<Rightarrow> nat option) \<Rightarrow> 'a heap \<Rightarrow> nat option" where
  "slist_find slist find_fct h =
     (if slist = NULL then Some NULL
      else do {
        result \<leftarrow> find_fct slist h;
        if result \<noteq> NULL then Some result
        else do { n \<leftarrow> h slist; slist_find (sl_next n) find_fct h } })"

partial_function (option) slist_last :: "nat \<Rightarrow> 'a heap \<Rightarrow> nat option" where
  "slist_last p h = do { n \<leftarrow> h p; if sl_next n = NULL then Some p else slist_last (sl_next n) h }"

definition slist_concat :: "nat \<Rightarrow> nat \<Rightarrow> 'a heap \<Rightarrow> (nat \<times> 'a heap) option" where
  "slist_concat head tail h =
     (if head = NULL then Some (tail, h)
      else do { p \<leftarrow> slist_last head h; h \<leftarrow> set_next p tail h; Some (head, h) })"

text \<open>A failed assertion ends the program.\<close>

definition slist_cons :: "nat \<Rightarrow> nat \<Rightarrow> 'a heap \<Rightarrow> (nat \<times> 'a heap) option" where
  "slist_cons item slist h =
     (if item = NULL then Some (slist, h)
      else do {
        n \<leftarrow> h item;
        if sl_next n \<noteq> NULL then None
        else do { h \<leftarrow> set_next item slist h; Some (item, h) } })"

definition slist_tail :: "nat \<Rightarrow> 'a heap \<Rightarrow> nat option" where
  "slist_tail slist h = (if slist = NULL then Some NULL else do { n \<leftarrow> h slist; Some (sl_next n) })"

partial_function (option) slist_nth :: "nat \<Rightarrow> ulong \<Rightarrow> 'a heap \<Rightarrow> nat option" where
  "slist_nth slist n h =
     (if n > 1 \<and> slist \<noteq> NULL then do { i \<leftarrow> h slist; slist_nth (sl_next i) (n - 1) h } else Some slist)"

partial_function (option) length_loop :: "nat \<Rightarrow> ulong \<Rightarrow> 'a heap \<Rightarrow> ulong option" where
  "length_loop slist n h = (if slist = NULL then Some n else do { i \<leftarrow> h slist; length_loop (sl_next i) (n + 1) h })"

definition slist_length :: "nat \<Rightarrow> 'a heap \<Rightarrow> ulong option" where
  "slist_length slist h = length_loop slist 0 h"

partial_function (option) reverse_loop :: "nat \<Rightarrow> nat \<Rightarrow> 'a heap \<Rightarrow> (nat \<times> 'a heap) option" where
  "reverse_loop slist result h =
     (if slist = NULL then Some (result, h)
      else do { n \<leftarrow> h slist; h \<leftarrow> set_next slist result h; reverse_loop (sl_next n) slist h })"

definition slist_reverse :: "nat \<Rightarrow> 'a heap \<Rightarrow> (nat \<times> 'a heap) option" where
  "slist_reverse slist h = reverse_loop slist NULL h"

partial_function (option) slist_foreach :: "nat \<Rightarrow> (nat \<Rightarrow> 'a heap \<Rightarrow> (nat \<times> 'a heap) option) \<Rightarrow> 'a heap \<Rightarrow> (nat \<times> 'a heap) option" where
  "slist_foreach slist foreach h =
     (if slist = NULL then Some (NULL, h)
      else do {
        n \<leftarrow> h slist;
        (result, h) \<leftarrow> foreach slist h;
        if result \<noteq> NULL then Some (result, h) else slist_foreach (sl_next n) foreach h })"

text \<open>
  Merging: the result is built behind an item \<open>merged\<close> on the stack, whose link is the first
  component of the state. \<open>insert\<close> is \<open>None\<close> as long as it points to this item.
\<close>

definition set_insert :: "nat option \<Rightarrow> nat \<Rightarrow> nat \<Rightarrow> 'a heap \<Rightarrow> (nat \<times> 'a heap) option" where
  "set_insert ins p merged h = (case ins of None \<Rightarrow> Some (p, h) | Some i \<Rightarrow> do { h \<leftarrow> set_next i p h; Some (merged, h) })"

partial_function (option) merge_loop ::
  "('a SList \<Rightarrow> 'a SList \<Rightarrow> int) \<Rightarrow> nat option \<Rightarrow> nat \<Rightarrow> nat \<Rightarrow> nat \<Rightarrow> 'a heap \<Rightarrow> (nat \<times> 'a heap) option" where
  "merge_loop compare ins merged left right h =
     (if left \<noteq> NULL \<and> right \<noteq> NULL then do {
        l \<leftarrow> h left;
        r \<leftarrow> h right;
        if compare l r \<le> 0 then do {
          (merged, h) \<leftarrow> set_insert ins left merged h;
          l \<leftarrow> h left;
          merge_loop compare (Some left) merged (sl_next l) right h }
        else do {
          (merged, h) \<leftarrow> set_insert ins right merged h;
          r \<leftarrow> h right;
          merge_loop compare (Some right) merged left (sl_next r) h } }
      else set_insert ins (if left \<noteq> NULL then left else right) merged h)"

definition slist_sort_merge :: "nat \<Rightarrow> nat \<Rightarrow> ('a SList \<Rightarrow> 'a SList \<Rightarrow> int) \<Rightarrow> 'a heap \<Rightarrow> (nat \<times> 'a heap) option" where
  "slist_sort_merge left right compare h = merge_loop compare None NULL left right h"

partial_function (option) split_loop :: "nat \<Rightarrow> nat \<Rightarrow> 'a heap \<Rightarrow> nat option" where
  "split_loop slist right h =
     (if right = NULL then Some slist
      else do {
        n \<leftarrow> h right;
        if sl_next n = NULL then Some slist
        else do {
          n \<leftarrow> h (sl_next n);
          if sl_next n = NULL then Some slist
          else do { s \<leftarrow> h slist; split_loop (sl_next s) (sl_next n) h } } })"

text \<open>The order in which the two halves are sorted is not specified in C; here it is the second half first.\<close>

partial_function (option) slist_sort :: "nat \<Rightarrow> ('a SList \<Rightarrow> 'a SList \<Rightarrow> int) \<Rightarrow> 'a heap \<Rightarrow> (nat \<times> 'a heap) option" where
  "slist_sort slist compare h =
     (if slist = NULL then Some (slist, h)
      else do {
        n \<leftarrow> h slist;
        mid \<leftarrow> split_loop slist (sl_next n) h;
        m \<leftarrow> h mid;
        h \<leftarrow> set_next mid NULL h;
        (right, h) \<leftarrow> slist_sort (sl_next m) compare h;
        (left, h) \<leftarrow> slist_sort slist compare h;
        slist_sort_merge left right compare h })"

text \<open>The address of a new item is an argument, \<open>None\<close> when there is no memory.\<close>

definition slist_box :: "nat option \<Rightarrow> 'a \<Rightarrow> 'a heap \<Rightarrow> nat \<times> 'a heap" where
  "slist_box mem data h = (case mem of None \<Rightarrow> (NULL, h) | Some a \<Rightarrow> (a, h(a \<mapsto> \<lparr>sl_next = NULL, sl_userdata = data\<rparr>)))"

definition slist_unbox :: "nat \<Rightarrow> 'a heap \<Rightarrow> ('a option \<times> 'a heap) option" where
  "slist_unbox item h = (if item = NULL then Some (None, h) else do { n \<leftarrow> h item; Some (Some (sl_userdata n), h(item := None)) })"

section \<open>Lists in the heap\<close>

text \<open>The items from one pointer up to another, and whole lists.\<close>

primrec seg :: "'a heap \<Rightarrow> nat \<Rightarrow> nat list \<Rightarrow> nat \<Rightarrow> bool" where
  "seg h p [] q \<longleftrightarrow> p = q"
| "seg h p (a # as) q \<longleftrightarrow> p = a \<and> a \<noteq> NULL \<and> (\<exists>n. h a = Some n \<and> seg h (sl_next n) as q)"

abbreviation chain :: "'a heap \<Rightarrow> nat \<Rightarrow> nat list \<Rightarrow> bool" where
  "chain h p xs \<equiv> seg h p xs NULL"

text \<open>Only links of items of a set were changed.\<close>

definition relinked :: "nat set \<Rightarrow> 'a heap \<Rightarrow> 'a heap \<Rightarrow> bool" where
  "relinked A h h' \<longleftrightarrow> (\<forall>a. a \<notin> A \<longrightarrow> h' a = h a) \<and> (\<forall>a. map_option sl_userdata (h' a) = map_option sl_userdata (h a))"

definition userdata :: "'a heap \<Rightarrow> nat \<Rightarrow> 'a" where
  "userdata h a = sl_userdata (the (h a))"

lemma seg_append: "seg h p (xs @ ys) q \<longleftrightarrow> (\<exists>r. seg h p xs r \<and> seg h r ys q)"
  by (induction xs arbitrary: p) auto

lemma chain_NULL [simp]: "chain h NULL xs \<longleftrightarrow> xs = []"
  by (cases xs) auto

lemma chain_not_NULL: "chain h p xs \<Longrightarrow> xs \<noteq> [] \<Longrightarrow> p \<noteq> NULL"
  by (cases xs) auto

lemma chain_item: "p \<noteq> NULL \<Longrightarrow> chain h p xs \<longleftrightarrow> (\<exists>n ys. xs = p # ys \<and> h p = Some n \<and> chain h (sl_next n) ys)"
  by (cases xs) auto

lemma seg_frame: "(\<And>a. a \<in> set xs \<Longrightarrow> h' a = h a) \<Longrightarrow> seg h' p xs q \<longleftrightarrow> seg h p xs q"
  by (induction xs arbitrary: p) auto

lemma seg_upd [simp]: "a \<notin> set xs \<Longrightarrow> seg (h(a := n)) p xs q \<longleftrightarrow> seg h p xs q"
  by (rule seg_frame) auto

lemma seg_in_heap: "seg h p xs q \<Longrightarrow> set xs \<subseteq> dom h"
  by (induction xs arbitrary: p) auto

lemma seg_not_NULL: "seg h p xs q \<Longrightarrow> NULL \<notin> set xs"
  by (induction xs arbitrary: p) auto

lemma chain_unique: "chain h p xs \<Longrightarrow> chain h p ys \<Longrightarrow> xs = ys"
proof (induction xs arbitrary: p ys)
  case (Cons a xs)
  then show ?case by (cases ys) auto
qed simp

lemma chain_distinct: "chain h p xs \<Longrightarrow> distinct xs"
proof (induction xs arbitrary: p)
  case (Cons a xs)
  then obtain n where n: "h a = Some n" "chain h (sl_next n) xs" by auto
  have "a \<notin> set xs"
  proof
    assume "a \<in> set xs"
    then obtain ys zs where xs: "xs = ys @ a # zs" by (auto simp: in_set_conv_decomp)
    then have "chain h (sl_next n) zs" using n by (auto simp: seg_append)
    with n(2) have "xs = zs" by (rule chain_unique)
    with xs show False by simp
  qed
  with Cons n show ?case by simp
qed simp

lemma relinked_refl [simp]: "relinked A h h"
  by (simp add: relinked_def)

lemma relinked_trans: "relinked A h h1 \<Longrightarrow> relinked B h1 h2 \<Longrightarrow> A \<subseteq> C \<Longrightarrow> B \<subseteq> C \<Longrightarrow> relinked C h h2"
  unfolding relinked_def by (metis subsetD)

lemma relinked_mono: "relinked A h h' \<Longrightarrow> A \<subseteq> B \<Longrightarrow> relinked B h h'"
  unfolding relinked_def by auto

lemma relinked_userdata: "relinked A h h' \<Longrightarrow> a \<in> dom h \<Longrightarrow> userdata h' a = userdata h a"
  unfolding relinked_def userdata_def by (metis domD map_option_eq_Some option.sel)

lemma relinked_dom: "relinked A h h' \<Longrightarrow> dom h' = dom h"
  unfolding relinked_def dom_def by (metis map_option_is_None)

lemma relinked_chain: "relinked A h h' \<Longrightarrow> A \<inter> set xs = {} \<Longrightarrow> seg h' p xs q \<longleftrightarrow> seg h p xs q"
  by (rule seg_frame) (auto simp: relinked_def)

lemma set_next_ok:
  assumes "h a = Some n"
  shows "set_next a p h = Some (h(a \<mapsto> n\<lparr>sl_next := p\<rparr>))" "relinked {a} h (h(a \<mapsto> n\<lparr>sl_next := p\<rparr>))"
  using assms by (auto simp: set_next_def relinked_def)

section \<open>The operations on whole lists\<close>

lemma reverse_loop_ok:
  assumes "chain h p xs" "chain h q ys" "set xs \<inter> set ys = {}"
  shows "\<exists>r h'. reverse_loop p q h = Some (r, h') \<and> chain h' r (rev xs @ ys) \<and> relinked (set xs) h h'"
  using assms
proof (induction xs arbitrary: p q ys h)
  case Nil
  then show ?case by (auto simp: reverse_loop.simps)
next
  case (Cons a xs)
  then obtain n where n: "p = a" "a \<noteq> NULL" "h a = Some n" "chain h (sl_next n) xs" by auto
  have a: "a \<notin> set xs" "a \<notin> set ys" using chain_distinct [OF Cons.prems(1)] Cons.prems(3) by auto
  let ?h = "h(a \<mapsto> n\<lparr>sl_next := q\<rparr>)"
  have "chain ?h (sl_next n) xs" "chain ?h a (a # ys)" "set xs \<inter> set (a # ys) = {}" using n a Cons.prems by auto
  from Cons.IH [OF this] obtain r h' where r: "reverse_loop (sl_next n) a ?h = Some (r, h')"
    "chain h' r (rev xs @ a # ys)" "relinked (set xs) ?h h'" by blast
  have "relinked (set (a # xs)) h h'" using relinked_trans [OF set_next_ok(2) [of h a, OF n(3)] r(3)] by auto
  moreover have "reverse_loop p q h = Some (r, h')" using n r(1) by (simp add: reverse_loop.simps [of a] set_next_ok(1) [of h a, OF n(3)])
  ultimately show ?case using r(2) by auto
qed

lemma slist_reverse_ok:
  assumes "chain h p xs"
  shows "\<exists>r h'. slist_reverse p h = Some (r, h') \<and> chain h' r (rev xs) \<and> relinked (set xs) h h'"
  using reverse_loop_ok [OF assms, of NULL "[]"] by (simp add: slist_reverse_def)

lemma slist_last_ok: "chain h p (xs @ [a]) \<Longrightarrow> slist_last p h = Some a"
proof (induction xs arbitrary: p)
  case Nil
  then show ?case by (auto simp: slist_last.simps)
next
  case (Cons b xs)
  then obtain n where n: "p = b" "h b = Some n" "chain h (sl_next n) (xs @ [a])" by auto
  have "sl_next n \<noteq> NULL" using chain_not_NULL [OF n(3)] by simp
  with n Cons.IH show ?case by (simp add: slist_last.simps [of b])
qed

lemma slist_concat_ok:
  assumes "chain h p xs" "chain h q ys" "set xs \<inter> set ys = {}"
  shows "\<exists>r h'. slist_concat p q h = Some (r, h') \<and> chain h' r (xs @ ys) \<and> relinked (set xs) h h'"
proof (cases xs rule: rev_cases)
  case Nil
  then show ?thesis using assms by (simp add: slist_concat_def)
next
  case (snoc zs a)
  obtain n where n: "seg h p zs a" "a \<noteq> NULL" "h a = Some n" using assms(1) by (auto simp: snoc seg_append)
  have p: "p \<noteq> NULL" using chain_not_NULL [OF assms(1)] snoc by simp
  have a: "a \<notin> set zs" "a \<notin> set ys" using chain_distinct [OF assms(1)] assms(3) snoc by auto
  let ?h = "h(a \<mapsto> n\<lparr>sl_next := q\<rparr>)"
  have "slist_concat p q h = Some (p, ?h)"
    using slist_last_ok [of h p zs a] assms(1) snoc p set_next_ok(1) [of h a, OF n(3)] by (simp add: slist_concat_def)
  moreover have "chain ?h p (xs @ ys)" using n a assms(2) by (auto simp: snoc seg_append)
  moreover have "relinked (set xs) h ?h" using relinked_mono [OF set_next_ok(2) [of h a, OF n(3)]] snoc by auto
  ultimately show ?thesis by blast
qed

lemma slist_cons_ok:
  assumes "chain h p xs" "h a = Some n" "sl_next n = NULL" "a \<noteq> NULL" "a \<notin> set xs"
  shows "\<exists>h'. slist_cons a p h = Some (a, h') \<and> chain h' a (a # xs) \<and> relinked {a} h h'"
  using assms set_next_ok [of h a, OF assms(2)] by (auto simp: slist_cons_def)

text \<open>The items that a callback finds: those for which it returns a value.\<close>

definition finds :: "(nat \<Rightarrow> 'a heap \<Rightarrow> nat option) \<Rightarrow> 'a heap \<Rightarrow> nat set \<Rightarrow> (nat \<Rightarrow> nat) \<Rightarrow> bool" where
  "finds find_fct h A g \<longleftrightarrow> (\<forall>a\<in>A. find_fct a h = Some (g a))"

lemma slist_find_ok:
  assumes "chain h p xs" "finds find_fct h (set xs) g"
  shows "slist_find p find_fct h = Some (case find (\<lambda>a. g a \<noteq> NULL) xs of None \<Rightarrow> NULL | Some a \<Rightarrow> g a)"
  using assms
proof (induction xs arbitrary: p)
  case Nil
  then show ?case by (auto simp: slist_find.simps)
next
  case (Cons a xs)
  then show ?case by (auto simp: slist_find.simps [of a] finds_def)
qed

lemma remove_loop_ok:
  assumes "chain h p (a # xs)" "finds find_fct h (set xs) g"
  shows "\<exists>h'. remove_loop find_fct p h = Some (case find (\<lambda>a. g a \<noteq> NULL) xs of None \<Rightarrow> NULL | Some a \<Rightarrow> g a, h') \<and>
    chain h' p (a # (case find (\<lambda>a. g a \<noteq> NULL) xs of None \<Rightarrow> xs | Some b \<Rightarrow> remove1 b xs)) \<and> relinked (set (a # xs)) h h'"
  using assms
proof (induction xs arbitrary: p a)
  case Nil
  then show ?case by (auto simp: remove_loop.simps)
next
  case (Cons b xs)
  then obtain n m where n: "p = a" "a \<noteq> NULL" "h a = Some n" "sl_next n = b" "b \<noteq> NULL" "h b = Some m" "chain h (sl_next m) xs" by auto
  have d: "a \<noteq> b" "a \<notin> set xs" "b \<notin> set xs" using chain_distinct [OF Cons.prems(1)] by auto
  have f: "find_fct b h = Some (g b)" "finds find_fct h (set xs) g" using Cons.prems(2) by (auto simp: finds_def)
  show ?case
  proof (cases "g b = NULL")
    case False
    let ?h = "h(a \<mapsto> n\<lparr>sl_next := sl_next m\<rparr>)"
    have "remove_loop find_fct p h = Some (g b, ?h)" using n f False set_next_ok(1) [of h a, OF n(3)] by (simp add: remove_loop.simps [of _ a])
    moreover have "chain ?h p (a # xs)" using n d by auto
    moreover have "relinked (set (a # b # xs)) h ?h" using relinked_mono [OF set_next_ok(2) [of h a, OF n(3)]] by auto
    ultimately show ?thesis using False by auto
  next
    case True
    have c: "chain h b (b # xs)" using n by auto
    from Cons.IH [OF c f(2)] obtain h' where h': "remove_loop find_fct b h = Some (case find (\<lambda>a. g a \<noteq> NULL) xs of None \<Rightarrow> NULL | Some a \<Rightarrow> g a, h')"
      "chain h' b (b # (case find (\<lambda>a. g a \<noteq> NULL) xs of None \<Rightarrow> xs | Some c \<Rightarrow> remove1 c xs))" "relinked (set (b # xs)) h h'" by blast
    have "h' a = h a" using h'(3) d unfolding relinked_def by auto
    then have "chain h' p (a # b # (case find (\<lambda>a. g a \<noteq> NULL) xs of None \<Rightarrow> xs | Some c \<Rightarrow> remove1 c xs))" using n h'(2) by auto
    moreover have "remove_loop find_fct p h = remove_loop find_fct b h" using n f True by (simp add: remove_loop.simps [of _ a])
    moreover have "find (\<lambda>a. g a \<noteq> NULL) xs = Some c \<Longrightarrow> remove1 c (b # xs) = b # remove1 c xs" for c
      using d by (auto simp: find_Some_iff)
    moreover have "relinked (set (a # b # xs)) h h'" using relinked_mono [OF h'(3)] by (meson set_subset_Cons)
    ultimately show ?thesis using h'(1) True by (auto split: option.splits)
  qed
qed

lemma slist_remove_ok:
  assumes "chain h p xs" "finds find_fct h (set xs) g"
  shows "\<exists>p' h'. slist_remove (Some p) find_fct h = Some (case find (\<lambda>a. g a \<noteq> NULL) xs of None \<Rightarrow> NULL | Some a \<Rightarrow> g a, Some p', h') \<and>
    chain h' p' (case find (\<lambda>a. g a \<noteq> NULL) xs of None \<Rightarrow> xs | Some a \<Rightarrow> remove1 a xs) \<and> relinked (set xs) h h'"
proof (cases xs)
  case Nil
  then show ?thesis using assms by (auto simp: slist_remove_def)
next
  case (Cons a ys)
  obtain n where n: "p = a" "a \<noteq> NULL" "h a = Some n" "chain h (sl_next n) ys" using assms(1) by (auto simp: Cons)
  have f: "find_fct a h = Some (g a)" "finds find_fct h (set ys) g" using assms(2) by (auto simp: finds_def Cons)
  have a: "a \<notin> set ys" using chain_distinct [OF assms(1)] Cons by simp
  show ?thesis
  proof (cases "g a = NULL")
    case False
    then have "slist_remove (Some p) find_fct h = Some (g a, Some (sl_next n), h)" using n f by (simp add: slist_remove_def)
    then show ?thesis using n False by (auto simp: Cons)
  next
    case True
    obtain h' where h': "remove_loop find_fct p h = Some (case find (\<lambda>a. g a \<noteq> NULL) ys of None \<Rightarrow> NULL | Some a \<Rightarrow> g a, h')"
      "chain h' p (a # (case find (\<lambda>a. g a \<noteq> NULL) ys of None \<Rightarrow> ys | Some b \<Rightarrow> remove1 b ys))" "relinked (set (a # ys)) h h'"
      using remove_loop_ok [of h p a ys, OF assms(1) [unfolded Cons] f(2)] by blast
    then have "slist_remove (Some p) find_fct h = Some (case find (\<lambda>a. g a \<noteq> NULL) ys of None \<Rightarrow> NULL | Some a \<Rightarrow> g a, Some p, h')"
      using n f True by (simp add: slist_remove_def)
    moreover have "find (\<lambda>a. g a \<noteq> NULL) ys = Some c \<Longrightarrow> c \<noteq> a" for c using a by (auto simp: find_Some_iff)
    ultimately show ?thesis using h'(2,3) True by (auto simp: Cons split: option.splits)
  qed
qed

lemma length_loop_ok: "chain h p xs \<Longrightarrow> length_loop p n h = Some (n + of_nat (length xs))"
proof (induction xs arbitrary: p n)
  case Nil
  then show ?case by (auto simp: length_loop.simps)
next
  case (Cons a xs)
  then show ?case by (auto simp: length_loop.simps [of a] algebra_simps)
qed

lemma slist_length_ok: "chain h p xs \<Longrightarrow> slist_length p h = Some (of_nat (length xs))"
  using length_loop_ok [of h p xs 0] by (simp add: slist_length_def)

lemma slist_nth_ok: "chain h p xs \<Longrightarrow> \<exists>q. slist_nth p n h = Some q \<and> chain h q (drop (unat n - 1) xs)"
proof (induction xs arbitrary: p n)
  case Nil
  then show ?case by (auto simp: slist_nth.simps)
next
  case (Cons a xs)
  then obtain i where i: "p = a" "a \<noteq> NULL" "h a = Some i" "chain h (sl_next i) xs" by auto
  show ?case
  proof (cases "n > 1")
    case True
    then have "n \<noteq> 0" by (metis word_not_simps(1))
    then have u: "unat (n - 1) = unat n - 1" "unat n > 1" using True by (simp_all add: unat_minus_one word_less_nat_alt)
    obtain q where q: "slist_nth (sl_next i) (n - 1) h = Some q" "chain h q (drop (unat (n - 1) - 1) xs)" using Cons.IH [OF i(4)] by blast
    have "drop (unat n - 1) (a # xs) = drop (unat (n - 1) - 1) xs" using u by (cases "unat n - 1") auto
    then show ?thesis using q i True by (auto simp: slist_nth.simps [of a])
  next
    case False
    then have "unat n - 1 = 0" by (simp add: word_less_nat_alt)
    then show ?thesis using Cons.prems i False by (auto simp: slist_nth.simps [of a])
  qed
qed

section \<open>Merging and sorting\<close>

text \<open>The merge of two lists of addresses.\<close>

fun merge_items :: "(nat \<Rightarrow> nat \<Rightarrow> bool) \<Rightarrow> nat list \<Rightarrow> nat list \<Rightarrow> nat list" where
  "merge_items le (x # xs) (y # ys) = (if le x y then x # merge_items le xs (y # ys) else y # merge_items le (x # xs) ys)"
| "merge_items le [] ys = ys"
| "merge_items le xs [] = xs"

lemma merge_items_mset: "mset (merge_items le xs ys) = mset xs + mset ys"
  by (induction le xs ys rule: merge_items.induct) simp_all

lemma merge_items_set: "set (merge_items le xs ys) = set xs \<union> set ys"
  using merge_items_mset [of le xs ys] by (metis set_mset_mset set_mset_union)

lemma merge_items_sorted:
  assumes "sorted_wrt le xs" "sorted_wrt le ys" "\<forall>x y. le x y \<or> le y x" "transp le"
  shows "sorted_wrt le (merge_items le xs ys)"
  using assms
proof (induction le xs ys rule: merge_items.induct)
  case (1 le x xs y ys)
  note trans = transpD [OF 1(6)]
  show ?case
  proof (cases "le x y")
    case True
    have "sorted_wrt le xs" using 1(3) by simp
    then have "sorted_wrt le (merge_items le xs (y # ys))" using 1(1) [OF True _ 1(4-6)] by blast
    moreover have "\<forall>z\<in>set ys. le x z" using 1(4) trans [OF True] by auto
    ultimately show ?thesis using 1(3) True by (auto simp: merge_items_set)
  next
    case False
    then have "le y x" using 1(5) by blast
    moreover have "sorted_wrt le ys" using 1(4) by simp
    then have "sorted_wrt le (merge_items le (x # xs) ys)" using 1(2) [OF False 1(3) _ 1(5,6)] by blast
    moreover have "\<forall>z\<in>set xs. le y z" using 1(3) trans [OF \<open>le y x\<close>] by auto
    ultimately show ?thesis using 1(4) False by (auto simp: merge_items_set)
  qed
qed (simp_all only: merge_items.simps)

text \<open>
  The state of the loop: the items in \<open>ds\<close> have been merged, the last of them is \<open>ins\<close>.
\<close>

definition built :: "'a heap \<Rightarrow> nat option \<Rightarrow> nat \<Rightarrow> nat list \<Rightarrow> bool" where
  "built h ins merged ds \<longleftrightarrow>
     (case ins of None \<Rightarrow> ds = [] | Some i \<Rightarrow> i \<noteq> NULL \<and> i \<in> dom h \<and> ds \<noteq> [] \<and> last ds = i \<and> seg h merged (butlast ds) i)"

lemma set_insert_ok:
  assumes "built h ins merged ds" "distinct ds"
  shows "\<exists>m h'. set_insert ins p merged h = Some (m, h') \<and> seg h' m ds p \<and> relinked (set ds) h h'"
proof (cases ins)
  case None
  then show ?thesis using assms by (simp add: built_def set_insert_def)
next
  case (Some i)
  then have b: "i \<noteq> NULL" "i \<in> dom h" "ds \<noteq> []" "last ds = i" "seg h merged (butlast ds) i" using assms(1) by (simp_all add: built_def)
  define cs where "cs = butlast ds"
  obtain n where i: "ds = cs @ [i]" "i \<noteq> NULL" "h i = Some n" "seg h merged cs i"
    using b append_butlast_last_id [of ds] unfolding cs_def by force
  let ?h = "h(i \<mapsto> n\<lparr>sl_next := p\<rparr>)"
  have "set_insert ins p merged h = Some (merged, ?h)" using Some set_next_ok(1) [of h i, OF i(3)] by (simp add: set_insert_def)
  moreover have "seg ?h merged ds p" using i assms(2) by (auto simp: seg_append)
  moreover have "relinked (set ds) h ?h" using relinked_mono [OF set_next_ok(2) [of h i, OF i(3)]] i by simp
  ultimately show ?thesis by blast
qed

lemma built_next:
  assumes "seg h m ds a" "a \<noteq> NULL" "h a = Some n"
  shows "built h (Some a) m (ds @ [a])"
  using assms by (auto simp: built_def)

lemma merge_step:
  assumes "built h ins merged ds" "chain h a (a # zs)" "chain h q ys" "distinct ds" "set ds \<inter> set (a # zs) = {}" "set ds \<inter> set ys = {}"
  shows "\<exists>m h' n. set_insert ins a merged h = Some (m, h') \<and> h' a = Some n \<and> built h' (Some a) m (ds @ [a]) \<and>
    chain h' (sl_next n) zs \<and> chain h' q ys \<and> relinked (set ds) h h'"
proof -
  obtain m h' where m: "set_insert ins a merged h = Some (m, h')" "seg h' m ds a" "relinked (set ds) h h'"
    using set_insert_ok [OF assms(1,4)] by blast
  have "chain h' a (a # zs)" "chain h' q ys" using relinked_chain [OF m(3)] assms(2,3,5,6) by blast+
  then obtain n where "a \<noteq> NULL" "h' a = Some n" "chain h' (sl_next n) zs" "chain h' q ys" by auto
  then show ?thesis using m built_next [OF m(2)] by blast
qed

lemma merge_items_cong:
  assumes "\<And>x y. x \<in> set xs \<Longrightarrow> y \<in> set ys \<Longrightarrow> le' x y \<longleftrightarrow> le x y"
  shows "merge_items le' xs ys = merge_items le xs ys"
  using assms by (induction le xs ys rule: merge_items.induct) auto

lemma merge_loop_ok:
  assumes "built h ins merged ds" "chain h l xs" "chain h r ys" "distinct (ds @ xs @ ys)"
    "\<And>a b. compare a b = cmp (sl_userdata a) (sl_userdata b)"
  shows "\<exists>m h'. merge_loop compare ins merged l r h = Some (m, h') \<and>
    chain h' m (ds @ merge_items (\<lambda>a b. cmp (userdata h a) (userdata h b) \<le> 0) xs ys) \<and> relinked (set (ds @ xs @ ys)) h h'"
  using assms(1-4)
proof (induction "length xs + length ys" arbitrary: h ins merged ds l r xs ys rule: less_induct)
  case less
  let ?le = "\<lambda>a b. cmp (userdata h a) (userdata h b) \<le> 0"
  have d: "distinct ds" and dx: "set ds \<inter> set xs = {}" and dy: "set ds \<inter> set ys = {}" using less.prems(4) by auto
  have dom: "set xs \<union> set ys \<subseteq> dom h" using seg_in_heap less.prems(2,3) by blast
  have again: "\<exists>m h'. merge_loop compare (Some a) m1 l1 r1 h1 = Some (m, h') \<and>
      chain h' m (ds @ a # merge_items ?le xs1 ys1) \<and> relinked (set (ds @ xs @ ys)) h h'"
    if "built h1 (Some a) m1 (ds @ [a])" "chain h1 l1 xs1" "chain h1 r1 ys1" "relinked (set ds) h h1"
      "mset (a # xs1 @ ys1) = mset (xs @ ys)" for a m1 l1 r1 h1 xs1 ys1
  proof -
    note prem = that
    have len: "length xs1 + length ys1 < length xs + length ys" using arg_cong [OF prem(5), of size] by simp
    have sets: "set (a # xs1 @ ys1) = set (xs @ ys)" using prem(5) by (metis set_mset_mset)
    have "mset ((ds @ [a]) @ xs1 @ ys1) = mset (ds @ xs @ ys)" using prem(5) by simp
    then have dist: "distinct ((ds @ [a]) @ xs1 @ ys1)" using less.prems(4) using mset_eq_imp_distinct_iff by blast
    obtain m h' where m: "merge_loop compare (Some a) m1 l1 r1 h1 = Some (m, h')"
      "chain h' m ((ds @ [a]) @ merge_items (\<lambda>a b. cmp (userdata h1 a) (userdata h1 b) \<le> 0) xs1 ys1)"
      "relinked (set ((ds @ [a]) @ xs1 @ ys1)) h1 h'"
      using less.hyps [OF len prem(1-3) dist] by blast
    have "merge_items (\<lambda>a b. cmp (userdata h1 a) (userdata h1 b) \<le> 0) xs1 ys1 = merge_items ?le xs1 ys1"
    proof (rule merge_items_cong)
      fix x y assume "x \<in> set xs1" "y \<in> set ys1"
      then have "x \<in> dom h" "y \<in> dom h" using sets dom by auto
      then show "cmp (userdata h1 x) (userdata h1 y) \<le> 0 \<longleftrightarrow> ?le x y" using relinked_userdata [OF prem(4)] by simp
    qed
    then have "chain h' m (ds @ a # merge_items ?le xs1 ys1)" using m(2) by simp
    moreover have "set ((ds @ [a]) @ xs1 @ ys1) = set (ds @ xs @ ys)" using sets by (simp only: set_append) auto
    then have "relinked (set (ds @ xs @ ys)) h h'" using relinked_trans [OF prem(4) m(3), of "set (ds @ xs @ ys)"] by simp
    ultimately show ?thesis using m(1) by blast
  qed
  show ?case
  proof (cases "l = NULL \<or> r = NULL")
    case True
    let ?p = "if l \<noteq> NULL then l else r" and ?zs = "if l \<noteq> NULL then xs else ys"
    obtain m h' where m: "set_insert ins ?p merged h = Some (m, h')" "seg h' m ds ?p" "relinked (set ds) h h'"
      using set_insert_ok [OF less.prems(1) d] by blast
    have "merge_items ?le xs ys = ?zs" using True less.prems(2,3) by (cases xs) auto
    moreover have "chain h' ?p ?zs" using relinked_chain [OF m(3) dx] relinked_chain [OF m(3) dy] less.prems(2,3) by simp
    ultimately have "chain h' m (ds @ merge_items ?le xs ys)" using m(2) by (auto simp: seg_append)
    moreover have "relinked (set (ds @ xs @ ys)) h h'" using relinked_mono [OF m(3)] by simp
    moreover have "merge_loop compare ins merged l r h = Some (m, h')" using True m(1) by (subst merge_loop.simps) auto
    ultimately show ?thesis by blast
  next
    case False
    then obtain nl nr xs' ys' where x: "xs = l # xs'" "h l = Some nl" and y: "ys = r # ys'" "h r = Some nr"
      using less.prems(2,3) by (auto simp: chain_item)
    have le: "?le l r \<longleftrightarrow> compare nl nr \<le> 0" using assms(5) x y by (simp add: userdata_def)
    show ?thesis
    proof (cases "?le l r")
      case True
      obtain m1 h1 n1 where s: "set_insert ins l merged h = Some (m1, h1)" "h1 l = Some n1" "built h1 (Some l) m1 (ds @ [l])"
        "chain h1 (sl_next n1) xs'" "chain h1 r ys" "relinked (set ds) h h1"
        using merge_step [OF less.prems(1) _ less.prems(3) d _ dy, of l xs'] less.prems(2) dx x by blast
      have "merge_loop compare ins merged l r h = merge_loop compare (Some l) m1 (sl_next n1) r h1"
        using False x y le True s by (simp add: merge_loop.simps [of _ _ _ l])
      then show ?thesis using again [OF s(3-6)] x y True by simp
    next
      case le_r: False
      obtain m1 h1 n1 where s: "set_insert ins r merged h = Some (m1, h1)" "h1 r = Some n1" "built h1 (Some r) m1 (ds @ [r])"
        "chain h1 (sl_next n1) ys'" "chain h1 l xs" "relinked (set ds) h h1"
        using merge_step [OF less.prems(1) _ less.prems(2) d _ dx, of r ys'] less.prems(3) dy y by blast
      have "merge_loop compare ins merged l r h = merge_loop compare (Some r) m1 l (sl_next n1) h1"
        using False x y le le_r s by (simp add: merge_loop.simps [of _ _ _ l])
      then show ?thesis using again [OF s(3,5,4,6)] x y le_r by simp
    qed
  qed
qed

lemma slist_sort_merge_ok:
  assumes "chain h l xs" "chain h r ys" "set xs \<inter> set ys = {}" "\<And>a b. compare a b = cmp (sl_userdata a) (sl_userdata b)"
  shows "\<exists>m h'. slist_sort_merge l r compare h = Some (m, h') \<and>
    chain h' m (merge_items (\<lambda>a b. cmp (userdata h a) (userdata h b) \<le> 0) xs ys) \<and> relinked (set (xs @ ys)) h h'"
  using merge_loop_ok [of h None NULL "[]" l xs r ys compare cmp] assms chain_distinct [OF assms(1)] chain_distinct [OF assms(2)]
  by (simp add: built_def slist_sort_merge_def)

lemma slist_sort_NULL:
  assumes "slist_sort p compare h = Some r"
  shows "p = NULL"
proof (rule slist_sort.raw_induct [OF _ assms, where P = "\<lambda>p _ _ _. p = NULL"], goal_cases)
  case (1 sort p compare h r)
  show ?case
  proof (rule ccontr)
    assume "p \<noteq> NULL"
    with 1(2) obtain h1 r1 where "sort p compare h1 = Some r1" by (auto simp: bind_eq_Some_conv)
    then have "p = NULL" using 1(1) by blast
    with \<open>p \<noteq> NULL\<close> show False by simp
  qed
qed

section \<open>Properties\<close>


text \<open>
  C35: merging two sorted lists by a comparison of their data gives a sorted list with the items
  of both.
\<close>

theorem slist_sort_merge_sorted:
  assumes "chain h l xs" "chain h r ys" "set xs \<inter> set ys = {}" "\<And>a b. compare a b = cmp (sl_userdata a) (sl_userdata b)"
    "\<forall>x y. cmp x y \<le> 0 \<or> cmp y x \<le> 0" "transp (\<lambda>x y. cmp x y \<le> 0)"
    "sorted_wrt (\<lambda>a b. cmp (userdata h a) (userdata h b) \<le> 0) xs" "sorted_wrt (\<lambda>a b. cmp (userdata h a) (userdata h b) \<le> 0) ys"
  shows "\<exists>m h' zs. slist_sort_merge l r compare h = Some (m, h') \<and> chain h' m zs \<and> mset zs = mset xs + mset ys \<and>
    sorted_wrt (\<lambda>a b. cmp (userdata h' a) (userdata h' b) \<le> 0) zs \<and> relinked (set (xs @ ys)) h h'"
proof -
  let ?le = "\<lambda>a b. cmp (userdata h a) (userdata h b) \<le> 0"
  obtain m h' where m: "slist_sort_merge l r compare h = Some (m, h')" "chain h' m (merge_items ?le xs ys)" "relinked (set (xs @ ys)) h h'"
    using slist_sort_merge_ok [of h l xs r ys compare cmp, OF assms(1-4)] by blast
  have "\<forall>x y. ?le x y \<or> ?le y x" using assms(5) by blast
  moreover have "transp ?le" using assms(6) unfolding transp_def by blast
  ultimately have sorted: "sorted_wrt ?le (merge_items ?le xs ys)" by (rule merge_items_sorted [OF assms(7,8)])
  have same: "userdata h' a = userdata h a" if "a \<in> set (merge_items ?le xs ys)" for a
  proof -
    have "a \<in> dom h" using that seg_in_heap [OF assms(1)] seg_in_heap [OF assms(2)] by (auto simp: merge_items_set)
    then show ?thesis by (rule relinked_userdata [OF m(3)])
  qed
  have "sorted_wrt (\<lambda>a b. cmp (userdata h' a) (userdata h' b) \<le> 0) (merge_items ?le xs ys)"
    by (rule sorted_wrt_mono_rel [OF _ sorted]) (simp add: same)
  then show ?thesis using m merge_items_mset [of ?le xs ys]
    by (intro exI [of _ m] exI [of _ h'] exI [of _ "merge_items ?le xs ys"] conjI)
qed

text \<open>
  C36: the sorting function returns for the empty list only. It calls itself with the same first
  item, also when this item is the only one.
\<close>

theorem slist_sort_does_not_return:
  "(p = NULL \<longrightarrow> slist_sort p compare h = Some (NULL, h)) \<and> (p \<noteq> NULL \<longrightarrow> slist_sort p compare h = None)"
proof -
  have "slist_sort NULL compare h = Some (NULL, h)" by (subst slist_sort.simps) simp
  then show ?thesis using slist_sort_NULL [of p compare h] by (cases "slist_sort p compare h") auto
qed

section \<open>Concrete lists\<close>

definition sample_heap :: "int heap" where
  "sample_heap = [1 \<mapsto> \<lparr>sl_next = 2, sl_userdata = 10\<rparr>, 2 \<mapsto> \<lparr>sl_next = 0, sl_userdata = 30\<rparr>, 3 \<mapsto> \<lparr>sl_next = 0, sl_userdata = 20\<rparr>]"

definition find_30 :: "nat \<Rightarrow> int heap \<Rightarrow> nat option" where
  "find_30 a h = do { n \<leftarrow> h a; Some (if sl_userdata n = 30 then a else NULL) }"

lemma sample_chains: "chain sample_heap 1 [1, 2]" "chain sample_heap 3 [3]" "set [1, 2] \<inter> set [3 :: nat] = {}"
  by (simp_all add: sample_heap_def)


theorem slist_sort_merge_sorted_witness:
  "\<exists>m h' zs. slist_sort_merge 1 3 (\<lambda>a b. sl_userdata a - sl_userdata b) sample_heap = Some (m, h') \<and> chain h' m zs \<and>
     mset zs = mset [1, 2, 3] \<and> sorted_wrt (\<lambda>a b. userdata h' a \<le> userdata h' b) zs"
proof -
  let ?cmp = "\<lambda>a b. sl_userdata a - sl_userdata b :: int"
  have total: "\<forall>x y :: int. x - y \<le> 0 \<or> y - x \<le> 0" "transp (\<lambda>x y :: int. x - y \<le> 0)" by (auto simp: transp_def)
  have sorted: "sorted_wrt (\<lambda>a b. userdata sample_heap a - userdata sample_heap b \<le> 0) [1, 2]"
    "sorted_wrt (\<lambda>a b. userdata sample_heap a - userdata sample_heap b \<le> 0) [3]"
    by (simp_all add: userdata_def sample_heap_def)
  obtain m h' zs where "slist_sort_merge 1 3 ?cmp sample_heap = Some (m, h')" "chain h' m zs" "mset zs = mset [1, 2] + mset [3]"
    "sorted_wrt (\<lambda>a b. userdata h' a - userdata h' b \<le> 0) zs"
    using slist_sort_merge_sorted [OF sample_chains, of ?cmp "\<lambda>x y. x - y", OF refl total sorted] by blast
  then show ?thesis by (intro exI [of _ m] exI [of _ h'] exI [of _ zs]) simp
qed

theorem slist_sort_does_not_return_witness:
  "slist_sort 0 (\<lambda>_ _. 0) sample_heap = Some (0, sample_heap) \<and> slist_sort 1 (\<lambda>_ _. 0) sample_heap = None"
  using slist_sort_does_not_return [of 0 _ sample_heap] slist_sort_does_not_return [of 1 _ sample_heap] by simp

end
