(* ===== verification/Argz.thy ===== *)
theory Argz
  imports C_String
begin

text \<open>
  Vectors of strings (\<open>libltdl/argz.c\<close>) and bounded copies (\<open>libltdl/lt__strl.c\<close>). A vector is a
  block of bytes with a length, a null pointer with length 0 when it is empty; its strings follow
  each other, each with a NUL. Positions are offsets in the block. A failed assertion ends the
  program and is undefined here.

  The theory shows that the operations act on the list of strings that a vector stands for
  (\<open>vec\<close>), that a separated list is split and joined again, and that bounded copies stay within
  the destination.
\<close>

section \<open>Vectors\<close>

type_synonym argz = "cbuf option \<times> nat"

abbreviation ENOMEM :: int where "ENOMEM \<equiv> 12"

text \<open>The unsigned type \<open>size_t\<close> wraps around when 0 is decremented.\<close>

definition size_dec :: "nat \<Rightarrow> nat" where
  "size_dec n = (if n = 0 then 2 ^ 64 - 1 else n - 1)"

text \<open>A block of a new size; bytes that are added have some value, which is not read.\<close>

definition realloc_bytes :: "cbuf option \<Rightarrow> nat \<Rightarrow> cbuf" where
  "realloc_bytes b n = (let old = (case b of None \<Rightarrow> [] | Some b \<Rightarrow> b) in take n old @ replicate (n - length old) NUL)"

definition argz_assert :: "argz \<Rightarrow> bool" where
  "argz_assert v \<longleftrightarrow> (fst v \<noteq> None \<and> snd v \<noteq> 0) \<or> (fst v = None \<and> snd v = 0)"

definition argz_append :: "bool \<Rightarrow> argz \<Rightarrow> cbuf \<Rightarrow> nat \<Rightarrow> (int \<times> argz) option" where
  "argz_append mem v buf buf_len =
     (if \<not> argz_assert v then None
      else if buf_len = 0 then Some (0, v)
      else if \<not> mem then Some (ENOMEM, v)
      else if length buf < buf_len then None
      else do {
        let argz_len = snd v + buf_len;
        b \<leftarrow> put (realloc_bytes (fst v) argz_len) (snd v) (take buf_len buf);
        Some (0, (Some b, argz_len)) })"

text \<open>The loop of \<open>argz_create_sep\<close>: \<open>q\<close> is the position of the next byte that is written.\<close>

fun sep_loop :: "char \<Rightarrow> string \<Rightarrow> cbuf \<Rightarrow> nat \<Rightarrow> nat \<Rightarrow> (cbuf \<times> nat) option" where
  "sep_loop delim [] b q n = do { b \<leftarrow> wr b q NUL; Some (b, n) }"
| "sep_loop delim (c # cs) b q n =
     (if c = delim then do {
        fresh \<leftarrow> (if q > 0 then do { p \<leftarrow> rd b (q - 1); Some (p \<noteq> NUL) } else Some False);
        if fresh then do { b \<leftarrow> wr b q NUL; sep_loop delim cs b (q + 1) n }
        else sep_loop delim cs b q (n - 1) }
      else do { b \<leftarrow> wr b q c; sep_loop delim cs b (q + 1) n })"

text \<open>The result is assigned only without an error.\<close>

definition argz_create_sep :: "bool \<Rightarrow> string \<Rightarrow> char \<Rightarrow> (int \<times> argz option) option" where
  "argz_create_sep mem str delim =
     (if \<not> mem then Some (ENOMEM, None)
      else do {
        (b, n) \<leftarrow> sep_loop delim str (realloc_bytes None (1 + length str)) 0 (1 + length str);
        Some (0, Some (if n = 0 then None else Some b, n)) })"

fun scan_back :: "cbuf \<Rightarrow> nat \<Rightarrow> nat option" where
  "scan_back b 0 = Some 0"
| "scan_back b (Suc i) = do { c \<leftarrow> rd b i; if c \<noteq> NUL then scan_back b i else Some (Suc i) }"

definition argz_insert :: "bool \<Rightarrow> argz \<Rightarrow> nat option \<Rightarrow> string \<Rightarrow> (int \<times> argz) option" where
  "argz_insert mem v before entry =
     (if entry = [] then None
      else
        case before of
          None \<Rightarrow> argz_append mem v (entry @ [NUL]) (1 + length entry)
        | Some p \<Rightarrow> do {
            old \<leftarrow> fst v;
            offset \<leftarrow> scan_back old p;
            let entry_len = 1 + length entry;
            let argz_len = snd v + entry_len;
            if \<not> mem then Some (ENOMEM, v)
            else if offset > snd v then None
            else do {
              let b = realloc_bytes (Some old) argz_len;
              b \<leftarrow> put b (offset + entry_len) (take (snd v - offset) (drop offset b));
              b \<leftarrow> put b offset (entry @ [NUL]);
              Some (0, (Some b, argz_len)) } })"

definition argz_next :: "argz \<Rightarrow> nat option \<Rightarrow> nat option option" where
  "argz_next v entry =
     (if \<not> argz_assert v then None
      else
        case entry of
          Some e \<Rightarrow> do {
            b \<leftarrow> fst v;
            if \<not> e < snd v then None
            else do {
              s \<leftarrow> cstr b e;
              let e = e + length s + 1;
              Some (if e \<ge> snd v then None else Some e) } }
        | None \<Rightarrow> Some (if snd v > 0 then Some 0 else None))"

partial_function (option) stringify_loop :: "cbuf option \<Rightarrow> nat \<Rightarrow> char \<Rightarrow> cbuf option option" where
  "stringify_loop argz n sep =
     (let n = size_dec n in
      if n > 0 then do {
        b \<leftarrow> argz;
        c \<leftarrow> rd b n;
        b \<leftarrow> (if c = NUL then wr b n sep else Some b);
        stringify_loop (Some b) n sep }
      else Some argz)"

definition argz_stringify :: "argz \<Rightarrow> char \<Rightarrow> argz option" where
  "argz_stringify v sep =
     (if \<not> argz_assert v then None
      else if sep = NUL then Some v
      else do { b \<leftarrow> stringify_loop (fst v) (size_dec (snd v)) sep; Some (b, snd v) })"

section \<open>Bounded copies\<close>

text \<open>
  The loop copies while there are characters and room: \<open>len\<close> is the position in \<open>dst\<close>, the result
  is the position behind the copy and the rest of the source.
\<close>

fun strl_loop :: "cbuf \<Rightarrow> nat \<Rightarrow> string \<Rightarrow> nat \<Rightarrow> (cbuf \<times> nat \<times> string) option" where
  "strl_loop dst len [] dstsize = Some (dst, len, [])"
| "strl_loop dst len (c # cs) dstsize =
     (if len < dstsize - 1 then do { dst \<leftarrow> wr dst len c; strl_loop dst (len + 1) cs dstsize } else Some (dst, len, c # cs))"

definition lt_strlcat :: "cbuf \<Rightarrow> string \<Rightarrow> nat \<Rightarrow> (nat \<times> cbuf) option" where
  "lt_strlcat dst src dstsize =
     (if dstsize < 1 then None
      else do {
        old \<leftarrow> cstr dst 0;
        (dst, len, rest) \<leftarrow> strl_loop dst (length old) src dstsize;
        dst \<leftarrow> wr dst len NUL;
        Some (len + length rest, dst) })"

definition lt_strlcpy :: "cbuf \<Rightarrow> string \<Rightarrow> nat \<Rightarrow> (nat \<times> cbuf) option" where
  "lt_strlcpy dst src dstsize =
     (if dstsize < 1 then None
      else do {
        (dst, len, rest) \<leftarrow> strl_loop dst 0 src dstsize;
        dst \<leftarrow> wr dst len NUL;
        Some (len + length rest, dst) })"

section \<open>The strings of a vector\<close>

definition encode :: "string list \<Rightarrow> string" where
  "encode ss = concat (map (\<lambda>s. s @ [NUL]) ss)"

definition vec :: "argz \<Rightarrow> string list \<Rightarrow> bool" where
  "vec v ss \<longleftrightarrow> (\<forall>s\<in>set ss. NUL \<notin> set s) \<and> snd v = length (encode ss) \<and>
     (case fst v of None \<Rightarrow> ss = [] | Some b \<Rightarrow> ss \<noteq> [] \<and> length (encode ss) \<le> length b \<and> take (length (encode ss)) b = encode ss)"

lemma encode_simps [simp]: "encode [] = []" "encode (s # ss) = s @ NUL # encode ss" "encode (ss @ ts) = encode ss @ encode ts"
  by (simp_all add: encode_def)

lemma encode_eq_Nil [simp]: "encode ss = [] \<longleftrightarrow> ss = []"
  by (cases ss) simp_all

lemma vec_Nil [simp]: "vec v [] \<longleftrightarrow> v = (None, 0)"
  by (cases v) (auto simp: vec_def split: option.splits)

lemma vec_block:
  assumes "vec v ss" "ss \<noteq> []"
  shows "\<exists>post. v = (Some (encode ss @ post), length (encode ss))"
proof -
  obtain b where b: "v = (Some b, length (encode ss))" "take (length (encode ss)) b = encode ss"
    using assms by (cases v) (auto simp: vec_def split: option.splits)
  then have "b = encode ss @ drop (length (encode ss)) b" by (metis append_take_drop_id)
  with b show ?thesis by blast
qed

lemma vec_I: "\<forall>s\<in>set ss. NUL \<notin> set s \<Longrightarrow> ss \<noteq> [] \<Longrightarrow> vec (Some (encode ss @ post), length (encode ss)) ss"
  by (simp add: vec_def)

lemma vec_assert: "vec v ss \<Longrightarrow> argz_assert v"
  by (auto simp: vec_def argz_assert_def split: option.splits)

lemma vec_chars: "vec v ss \<Longrightarrow> s \<in> set ss \<Longrightarrow> NUL \<notin> set s"
  by (simp add: vec_def)

lemma realloc_bytes_length [simp]: "length (realloc_bytes b n) = n"
  by (simp add: realloc_bytes_def Let_def)

lemma realloc_bytes_keeps: "m \<le> n \<Longrightarrow> m \<le> length b \<Longrightarrow> take m (realloc_bytes (Some b) n) = take m b"
  by (simp add: realloc_bytes_def Let_def min_def)

lemma put_ok: "i + length bs \<le> length b \<Longrightarrow> put b i bs = Some (take i b @ bs @ drop (i + length bs) b)"
  by (simp add: put_def)

lemma argz_append_ok:
  assumes "vec v ss" "NUL \<notin> set s"
  shows "\<exists>v'. argz_append True v (s @ [NUL]) (1 + length s) = Some (0, v') \<and> vec v' (ss @ [s])"
proof -
  let ?n = "snd v + (1 + length s)"
  have v: "snd v = length (encode ss)" using assms(1) by (simp add: vec_def)
  have t: "take (snd v) (realloc_bytes (fst v) ?n) = encode ss"
  proof (cases "ss = []")
    case False
    then obtain post where "v = (Some (encode ss @ post), length (encode ss))" using vec_block [OF assms(1)] by blast
    then show ?thesis using realloc_bytes_keeps [of "snd v" ?n "encode ss @ post"] by simp
  qed (use v in simp)
  have "put (realloc_bytes (fst v) ?n) (snd v) (s @ [NUL]) = Some (encode ss @ (s @ [NUL]))"
    using put_ok [of "snd v" "s @ [NUL]" "realloc_bytes (fst v) ?n"] t by simp
  then have "argz_append True v (s @ [NUL]) (1 + length s) = Some (0, (Some (encode ss @ s @ [NUL]), ?n))"
    using vec_assert [OF assms(1)] by (simp add: argz_append_def Let_def)
  moreover have "vec (Some (encode ss @ s @ [NUL]), ?n) (ss @ [s])"
    using vec_I [of "ss @ [s]" "[]"] assms v by (auto simp: vec_def)
  ultimately show ?thesis by blast
qed

lemma argz_next_first: "vec v ss \<Longrightarrow> argz_next v None = Some (if ss = [] then None else Some 0)"
  by (frule vec_assert) (auto simp: argz_next_def vec_def)

lemma argz_next_ok:
  assumes "vec v (ss @ s # ts)"
  shows "argz_next v (Some (length (encode ss))) = Some (if ts = [] then None else Some (length (encode (ss @ [s]))))"
proof -
  obtain post where v: "v = (Some (encode (ss @ s # ts) @ post), length (encode (ss @ s # ts)))" using vec_block [OF assms] by blast
  have "NUL \<notin> set s" using vec_chars [OF assms] by simp
  then have "cstr (encode ss @ s @ NUL # (encode ts @ post)) (length (encode ss)) = Some s" by (rule cstr_append)
  then show ?thesis using vec_assert [OF assms] v by (simp add: argz_next_def)
qed

text \<open>The string at the position of an entry.\<close>

lemma vec_cstr:
  assumes "vec v (ss @ s # ts)"
  shows "\<exists>b. fst v = Some b \<and> cstr b (length (encode ss)) = Some s"
proof -
  obtain post where v: "v = (Some (encode (ss @ s # ts) @ post), length (encode (ss @ s # ts)))" using vec_block [OF assms] by blast
  have "NUL \<notin> set s" using vec_chars [OF assms] by simp
  then have "cstr (encode ss @ s @ NUL # (encode ts @ post)) (length (encode ss)) = Some s" by (rule cstr_append)
  then show ?thesis using v by simp
qed

lemma scan_back_entry: "scan_back (encode ss @ post) (length (encode ss)) = Some (length (encode ss))"
proof (cases ss rule: rev_cases)
  case (snoc rs r)
  have "(encode rs @ r @ NUL # post) ! (length (encode rs) + length r) = NUL" by (simp add: nth_append)
  then show ?thesis by (simp add: snoc rd_def)
qed simp

lemma argz_insert_ok:
  assumes "vec v (ss @ ts)" "ts \<noteq> []" "NUL \<notin> set s" "s \<noteq> []"
  shows "\<exists>v'. argz_insert True v (Some (length (encode ss))) s = Some (0, v') \<and> vec v' (ss @ s # ts)"
proof -
  obtain post where v: "v = (Some (encode (ss @ ts) @ post), length (encode (ss @ ts)))" using vec_block [OF assms(1)] assms(2) by blast
  let ?o = "length (encode ss)" and ?n = "length (encode (ss @ ts)) + (1 + length s)"
  let ?b = "realloc_bytes (Some (encode (ss @ ts) @ post)) ?n"
  have "take (length (encode (ss @ ts))) ?b = encode ss @ encode ts" by (subst realloc_bytes_keeps) simp_all
  then obtain g where g: "?b = encode ss @ encode ts @ g" by (metis append.assoc append_take_drop_id)
  have "length (encode ss @ encode ts @ g) = ?n" using realloc_bytes_length [of "Some (encode (ss @ ts) @ post)" ?n] by (simp only: g)
  then have lg: "length g = 1 + length s" by simp
  then have p1: "put ?b (?o + (1 + length s)) (encode ts) = Some (take (?o + (1 + length s)) ?b @ encode ts)" by (simp add: put_ok)
  have "put (take (?o + (1 + length s)) ?b @ encode ts) ?o (s @ [NUL]) = Some (encode ss @ s @ NUL # encode ts)"
    using g lg by (simp add: put_ok)
  then have "argz_insert True v (Some ?o) s = Some (0, (Some (encode ss @ s @ NUL # encode ts), ?n))"
    using assms(4) v p1 g scan_back_entry [of ss "encode ts @ post"] by (simp add: argz_insert_def Let_def)
  moreover have "vec (Some (encode ss @ s @ NUL # encode ts), ?n) (ss @ s # ts)"
    using assms by (auto simp: vec_def)
  ultimately show ?thesis by blast
qed

section \<open>Splitting and joining\<close>

fun join :: "char \<Rightarrow> string list \<Rightarrow> string" where
  "join sep [] = []"
| "join sep [s] = s"
| "join sep (s # ss) = s @ sep # join sep ss"

text \<open>What splitting does: separators become NUL, except at the start and behind another one.\<close>

fun fold_delims :: "char \<Rightarrow> bool \<Rightarrow> string \<Rightarrow> string" where
  "fold_delims d skip [] = []"
| "fold_delims d skip (c # cs) =
     (if c = d then if skip then fold_delims d True cs else NUL # fold_delims d True cs else c # fold_delims d False cs)"

lemma sep_loop_ok:
  assumes "length (out @ cs) < length b" "take (length out) b = out" "NUL \<notin> set cs"
  shows "\<exists>b'. sep_loop d cs b (length out) (1 + length (out @ cs)) =
      Some (b', 1 + length (out @ fold_delims d (out = [] \<or> last out = NUL) cs)) \<and> length b' = length b \<and>
    take (1 + length (out @ fold_delims d (out = [] \<or> last out = NUL) cs)) b' = out @ fold_delims d (out = [] \<or> last out = NUL) cs @ [NUL]"
  using assms
proof (induction cs arbitrary: out b)
  case Nil
  then show ?case by (auto simp: wr_def take_Suc_conv_app_nth)
next
  case (Cons c cs)
  have w: "take (length out + 1) (b[length out := x]) = out @ [x]" for x
    using Cons.prems(1,2) by (simp add: take_Suc_conv_app_nth)
  have step: "\<exists>b'. sep_loop d cs (b[length out := x]) (length out + 1) (1 + length (out @ c # cs)) =
      Some (b', 1 + length (out @ x # fold_delims d (x = NUL) cs)) \<and> length b' = length b \<and>
      take (1 + length (out @ x # fold_delims d (x = NUL) cs)) b' = out @ x # fold_delims d (x = NUL) cs @ [NUL]" for x
    using Cons.IH [of "out @ [x]" "b[length out := x]"] Cons.prems w [of x] by simp
  have last: "0 < length out \<Longrightarrow> rd b (length out - 1) = Some (last out)"
    using Cons.prems(1,2) by (auto simp: rd_def last_conv_nth) (metis diff_Suc_less length_greater_0_conv nth_take)
  show ?case
  proof (cases "c = d")
    case False
    have "c \<noteq> NUL" using Cons.prems(3) by auto
    then show ?thesis using step [of c] False Cons.prems(1) by (simp add: wr_def)
  next
    case True
    show ?thesis
    proof (cases "out = [] \<or> last out = NUL")
      case skip: True
      have "sep_loop d (c # cs) b (length out) (1 + length (out @ c # cs)) = sep_loop d cs b (length out) (1 + length (out @ cs))"
        using True skip last by (cases "out = []") auto
      then show ?thesis using Cons.IH [of out b] Cons.prems True skip by simp
    next
      case False
      then show ?thesis using step [of NUL] True last Cons.prems(1) by (simp add: wr_def)
    qed
  qed
qed

lemma argz_create_sep_fold:
  assumes "NUL \<notin> set str"
  shows "\<exists>b. argz_create_sep True str d = Some (0, Some (Some (fold_delims d True str @ [NUL] @ b), 1 + length (fold_delims d True str)))"
proof -
  obtain b' where b': "sep_loop d str (realloc_bytes None (1 + length str)) 0 (1 + length str) = Some (b', 1 + length (fold_delims d True str))"
    "take (1 + length (fold_delims d True str)) b' = fold_delims d True str @ [NUL]"
    using sep_loop_ok [of "[]" str "realloc_bytes None (1 + length str)" d] assms by auto
  then have "b' = fold_delims d True str @ [NUL] @ drop (1 + length (fold_delims d True str)) b'" by (metis append.assoc append_take_drop_id)
  then show ?thesis using b'(1) unfolding argz_create_sep_def by auto
qed

text \<open>The parts of a separated list.\<close>

definition parts :: "char \<Rightarrow> string list \<Rightarrow> bool" where
  "parts d ss \<longleftrightarrow> ss \<noteq> [] \<and> (\<forall>s\<in>set ss. s \<noteq> [] \<and> d \<notin> set s \<and> NUL \<notin> set s)"

lemma fold_delims_part: "d \<notin> set s \<Longrightarrow> fold_delims d skip (s @ t) = s @ fold_delims d (skip \<and> s = []) t"
  by (induction s arbitrary: skip) auto

lemma fold_delims_join: "parts d ss \<Longrightarrow> fold_delims d True (join d ss) @ [NUL] = encode ss"
proof (induction d ss rule: join.induct)
  case (2 d s)
  then show ?case using fold_delims_part [of d s True "[]"] by (simp add: parts_def)
next
  case (3 d s t ss)
  then have "parts d (t # ss)" by (simp add: parts_def)
  with 3 show ?case using fold_delims_part [of d s True "d # join d (t # ss)"] by (simp add: parts_def)
qed (simp add: parts_def)

lemma join_chars: "NUL \<noteq> d \<Longrightarrow> \<forall>s\<in>set ss. NUL \<notin> set s \<Longrightarrow> NUL \<notin> set (join d ss)"
  by (induction d ss rule: join.induct) auto

lemma argz_create_sep_parts:
  assumes "parts d ss" "d \<noteq> NUL"
  shows "\<exists>v. argz_create_sep True (join d ss) d = Some (0, Some v) \<and> vec v ss"
proof -
  have n: "NUL \<notin> set (join d ss)" using assms join_chars [of d ss] by (auto simp: parts_def)
  obtain b where b: "argz_create_sep True (join d ss) d = Some (0, Some (Some (fold_delims d True (join d ss) @ [NUL] @ b), 1 + length (fold_delims d True (join d ss))))"
    using argz_create_sep_fold [OF n] by blast
  have "length (encode ss) = 1 + length (fold_delims d True (join d ss))" using arg_cong [OF fold_delims_join [OF assms(1)], of length] by simp
  moreover have "fold_delims d True (join d ss) @ [NUL] @ b = encode ss @ b" using fold_delims_join [OF assms(1)] by (metis append.assoc)
  ultimately have "argz_create_sep True (join d ss) d = Some (0, Some (Some (encode ss @ b), length (encode ss)))" using b by (simp only:)
  moreover have "vec (Some (encode ss @ b), length (encode ss)) ss" using assms(1) by (intro vec_I) (auto simp: parts_def)
  ultimately show ?thesis by blast
qed

definition unsep :: "char \<Rightarrow> string \<Rightarrow> string" where
  "unsep sep = map (\<lambda>c. if c = NUL then sep else c)"

lemma unsep_encode: "parts d ss \<Longrightarrow> unsep sep (encode ss) = join sep ss @ [sep]"
proof (induction sep ss rule: join.induct)
  case (2 sep s)
  then have "map (\<lambda>c. if c = NUL then sep else c) s = s" by (auto simp: parts_def intro: map_idI)
  then show ?case by (simp add: unsep_def)
next
  case (3 sep s t ss)
  then have "map (\<lambda>c. if c = NUL then sep else c) s = s" by (auto simp: parts_def intro: map_idI)
  then show ?case using 3 by (simp add: unsep_def parts_def)
qed (simp add: parts_def)

lemma stringify_loop_ok:
  "0 < n \<Longrightarrow> n \<le> length b \<Longrightarrow> stringify_loop (Some b) n sep = Some (Some (take 1 b @ unsep sep (take (n - 1) (drop 1 b)) @ drop n b))"
proof (induction n arbitrary: b rule: nat_induct_non_zero)
  case 1
  then show ?case by (subst stringify_loop.simps) (simp add: size_dec_def unsep_def)
next
  case (Suc n)
  let ?b = "if b ! n = NUL then b[n := sep] else b"
  have n: "n < length b" "0 < n" using Suc by auto
  have "stringify_loop (Some b) (Suc n) sep = stringify_loop (Some ?b) n sep"
    using n by (subst stringify_loop.simps) (simp add: size_dec_def Let_def rd_def wr_def)
  also have "\<dots> = Some (Some (take 1 ?b @ unsep sep (take (n - 1) (drop 1 ?b)) @ drop n ?b))" using Suc.IH [of ?b] n by simp
  also have "take 1 ?b = take 1 b" using n by simp
  also have "take (n - 1) (drop 1 ?b) = take (n - 1) (drop 1 b)" using n by (simp add: drop_update_swap)
  also have "drop n ?b = (if b ! n = NUL then sep else b ! n) # drop (Suc n) b" using n by (simp add: Cons_nth_drop_Suc [symmetric] drop_update_swap)
  also have "unsep sep (take (n - 1) (drop 1 b)) @ (if b ! n = NUL then sep else b ! n) # drop (Suc n) b =
      unsep sep (take n (drop 1 b)) @ drop (Suc n) b"
  proof -
    have "take n (drop 1 b) = take (n - 1) (drop 1 b) @ [b ! n]" using n by (cases n) (simp_all add: take_Suc_conv_app_nth)
    then show ?thesis by (simp add: unsep_def)
  qed
  finally show ?case by simp
qed

lemma argz_stringify_ok:
  assumes "vec v ss" "parts d ss" "sep \<noteq> NUL"
  shows "\<exists>post. argz_stringify v sep = Some (Some (join sep ss @ NUL # post), length (encode ss))"
proof -
  obtain s ts where ss: "ss = s # ts" "s \<noteq> []" "NUL \<notin> set s" using assms(2) by (cases ss) (auto simp: parts_def)
  obtain post where v: "v = (Some (encode ss @ post), length (encode ss))" using vec_block [OF assms(1)] ss by blast
  obtain e where e: "encode ss = e @ [NUL]" using ss by (cases ts rule: rev_cases) auto
  obtain c e' where c: "e = c # e'" "c \<noteq> NUL" using ss e by (cases s; cases e) auto
  have "unsep sep e = join sep ss" using unsep_encode [OF assms(2), of sep] e by (simp add: unsep_def)
  then have u: "c # unsep sep e' = join sep ss" using c by (simp add: unsep_def)
  have "stringify_loop (Some (encode ss @ post)) (length e) sep = Some (Some (c # unsep sep e' @ NUL # post))"
    using stringify_loop_ok [of "length e" "encode ss @ post" sep] e c by simp
  then show ?thesis using v e vec_assert [OF assms(1)] assms(3) by (simp add: argz_stringify_def size_dec_def u [symmetric])
qed

section \<open>Copies stay within the destination\<close>

lemma strl_loop_ok:
  assumes "take len dst = out" "length out = len" "len \<le> dstsize - 1" "dstsize \<le> length dst"
  shows "\<exists>dst'. strl_loop dst len src dstsize = Some (dst', len + length (take (dstsize - 1 - len) src), drop (dstsize - 1 - len) src) \<and>
    length dst' = length dst \<and> take (len + length (take (dstsize - 1 - len) src)) dst' = out @ take (dstsize - 1 - len) src \<and>
    drop dstsize dst' = drop dstsize dst"
  using assms
proof (induction src arbitrary: dst len out)
  case (Cons c src)
  show ?case
  proof (cases "len < dstsize - 1")
    case True
    then have l: "len < length dst" using Cons.prems by simp
    have t: "take (len + 1) (dst[len := c]) = out @ [c]" using Cons.prems(1,2) l by (simp add: take_Suc_conv_app_nth)
    let ?k = "dstsize - 1 - (len + 1)"
    have "len + 1 \<le> dstsize - 1" "dstsize \<le> length (dst[len := c])" "length (out @ [c]) = len + 1" using Cons.prems True by simp_all
    from Cons.IH [OF t this(3,1,2)] obtain dst' where d: "strl_loop (dst[len := c]) (len + 1) src dstsize = Some (dst', len + 1 + length (take ?k src), drop ?k src)"
      "length dst' = length (dst[len := c])" "take (len + 1 + length (take ?k src)) dst' = (out @ [c]) @ take ?k src"
      "drop dstsize dst' = drop dstsize (dst[len := c])" by blast
    have k: "dstsize - 1 - len = Suc ?k" using True by simp
    have "drop dstsize (dst[len := c]) = drop dstsize dst" using True by simp
    moreover have "strl_loop dst len (c # src) dstsize = strl_loop (dst[len := c]) (len + 1) src dstsize" using True l by (simp add: wr_def)
    ultimately show ?thesis using d unfolding k by (intro exI [of _ dst']) simp
  next
    case False
    then show ?thesis using Cons.prems by auto
  qed
qed auto

lemma strl_end:
  assumes "dstsize \<ge> 1" "dstsize \<le> length dst" "take n dst = s" "length s = n" "n \<le> dstsize - 1"
  shows "\<exists>dst'. wr dst n NUL = Some dst' \<and> length dst' = length dst \<and> take (n + 1) dst' = s @ [NUL] \<and> drop dstsize dst' = drop dstsize dst"
  using assms by (auto simp: wr_def take_Suc_conv_app_nth drop_update_cancel)

section \<open>Properties\<close>


text \<open>
  The bounded copy writes the source, cut to the size of the destination, with a NUL, changes
  nothing behind this size, and returns the length of the source.
\<close>

theorem lt_strlcpy_bounded:
  assumes "1 \<le> dstsize" "dstsize \<le> length dst" "NUL \<notin> set src"
  shows "\<exists>dst'. lt_strlcpy dst src dstsize = Some (length src, dst') \<and> length dst' = length dst \<and>
    cstr dst' 0 = Some (take (dstsize - 1) src) \<and> drop dstsize dst' = drop dstsize dst"
proof -
  let ?n = "length (take (dstsize - 1) src)"
  obtain d1 where d1: "strl_loop dst 0 src dstsize = Some (d1, ?n, drop (dstsize - 1) src)" "length d1 = length dst"
    "take ?n d1 = take (dstsize - 1) src" "drop dstsize d1 = drop dstsize dst"
    using strl_loop_ok [of 0 dst "[]" dstsize src] assms by auto
  have "dstsize \<le> length d1" "?n \<le> dstsize - 1" using assms(2) d1(2) by auto
  then obtain d2 where d2: "wr d1 ?n NUL = Some d2" "length d2 = length dst" "take (?n + 1) d2 = take (dstsize - 1) src @ [NUL]"
    "drop dstsize d2 = drop dstsize dst"
    using strl_end [OF assms(1) _ d1(3) refl] d1(2,4) by auto
  have "d2 = take (dstsize - 1) src @ NUL # drop (?n + 1) d2" using d2(3) by (metis append_take_drop_id append_Cons append_assoc append_Nil)
  moreover have "NUL \<notin> set (take (dstsize - 1) src)" using assms(3) by (meson in_set_takeD)
  ultimately have "cstr d2 0 = Some (take (dstsize - 1) src)" using cstr_append [of "take (dstsize - 1) src" "[]"] by (metis append_Nil list.size(3))
  then show ?thesis using d1(1) d2 assms(1) by (auto simp: lt_strlcpy_def)
qed

section \<open>Concrete vectors\<close>


theorem lt_strlcpy_bounded_witness:
  "lt_strlcpy (replicate 5 CHR ''x'') ''abcdef'' 4 = Some (6, ''abc'' @ NUL # ''x'') \<and>
   (\<exists>dst'. lt_strlcpy (replicate 5 CHR ''x'') ''abcdef'' 4 = Some (6, dst') \<and> cstr dst' 0 = Some ''abc'')"
proof
  show "lt_strlcpy (replicate 5 CHR ''x'') ''abcdef'' 4 = Some (6, ''abc'' @ NUL # ''x'')" by code_simp
  show "\<exists>dst'. lt_strlcpy (replicate 5 CHR ''x'') ''abcdef'' 4 = Some (6, dst') \<and> cstr dst' 0 = Some ''abc''"
    using lt_strlcpy_bounded [of 4 "replicate 5 CHR ''x''" "''abcdef''"] by auto
qed

text \<open>A vector of one empty string cannot be joined: the counter of the loop wraps around.\<close>

lemma argz_stringify_empty: "argz_create_sep True [] (CHR '':'') = Some (0, Some (Some [NUL], 1)) \<and> argz_stringify (Some [NUL], 1) (CHR '':'') = None"
proof
  show "argz_create_sep True [] (CHR '':'') = Some (0, Some (Some [NUL], 1))" by code_simp
  have "stringify_loop (Some [NUL]) 0 (CHR '':'') = None" by (subst stringify_loop.simps) (simp add: size_dec_def rd_def)
  then show "argz_stringify (Some [NUL], 1) (CHR '':'') = None" by (simp add: argz_stringify_def argz_assert_def size_dec_def)
qed

end
