(* ===== verification/Ltdl_Path.thy ===== *)
theory Ltdl_Path
  imports Argz
begin

text \<open>
  Search paths of the module loader, with which the query mapper is found (\<open>libltdl/ltdl.c\<close>,
  \<open>libltdl/lt_error.c\<close>): the error of the last call, the canonical form of a path, the iteration
  over its directories, the names of the files in a directory, and the search path of the user. A
  path is separated by colons and directories by slashes, as on Unix. Allocations that fail set
  an error; whether they succeed is an argument, and so are the files and directories.

  The theory shows what the canonical form of a path is, that the iteration visits the directories
  of a path in order within its buffers, and that the list of the files in a directory is sorted
  and without duplicates.
\<close>

section \<open>Errors\<close>

datatype lt_error = UNKNOWN | DLOPEN_NOT_SUPPORTED | INVALID_LOADER | INIT_LOADER | REMOVE_LOADER | FILE_NOT_FOUND
  | DEPLIB_NOT_FOUND | NO_SYMBOLS | CANNOT_OPEN | CANNOT_CLOSE | SYMBOL_NOT_FOUND | NO_MEMORY | INVALID_HANDLE
  | BUFFER_OVERFLOW | INVALID_ERRORCODE | SHUTDOWN | CLOSE_RESIDENT_MODULE | INVALID_MUTEX_ARGS | INVALID_POSITION
  | CONFLICTING_FLAGS

definition error_table :: "lt_error list" where
  "error_table = [UNKNOWN, DLOPEN_NOT_SUPPORTED, INVALID_LOADER, INIT_LOADER, REMOVE_LOADER, FILE_NOT_FOUND,
     DEPLIB_NOT_FOUND, NO_SYMBOLS, CANNOT_OPEN, CANNOT_CLOSE, SYMBOL_NOT_FOUND, NO_MEMORY, INVALID_HANDLE,
     BUFFER_OVERFLOW, INVALID_ERRORCODE, SHUTDOWN, CLOSE_RESIDENT_MODULE, INVALID_MUTEX_ARGS, INVALID_POSITION,
     CONFLICTING_FLAGS]"

abbreviation LT_ERROR_MAX :: int where "LT_ERROR_MAX \<equiv> 20"

text \<open>A message is one of the table or one that a loader has added.\<close>

datatype message = Lt lt_error | User string

record ltdl =
  last_error :: "message option"
  user_error_strings :: "string list"
  errorcount :: int
  user_search_path :: "string option"

definition lt_seterror :: "lt_error \<Rightarrow> ltdl \<Rightarrow> ltdl" where
  "lt_seterror e s = s\<lparr>last_error := Some (Lt e)\<rparr>"

definition lt_dladderror :: "bool \<Rightarrow> string \<Rightarrow> ltdl \<Rightarrow> int \<times> ltdl" where
  "lt_dladderror mem diagnostic s =
     (let errindex = nat (errorcount s - LT_ERROR_MAX) in
      if \<not> mem then (- 1, lt_seterror NO_MEMORY s)
      else (errorcount s, s\<lparr>user_error_strings := take errindex (user_error_strings s) @ [diagnostic], errorcount := errorcount s + 1\<rparr>))"

definition lt_dlseterror :: "int \<Rightarrow> ltdl \<Rightarrow> (int \<times> ltdl) option" where
  "lt_dlseterror errindex s =
     (if errindex \<ge> errorcount s \<or> errindex < 0 then Some (1, lt_seterror INVALID_ERRORCODE s)
      else if errindex < LT_ERROR_MAX then do { e \<leftarrow> read_at error_table errindex; Some (0, lt_seterror e s) }
      else do { d \<leftarrow> read_at (user_error_strings s) (errindex - LT_ERROR_MAX); Some (0, s\<lparr>last_error := Some (User d)\<rparr>) })"

definition lt_dlerror :: "ltdl \<Rightarrow> message option \<times> ltdl" where
  "lt_dlerror s = (last_error s, s\<lparr>last_error := None\<rparr>)"

definition file_not_found :: "ltdl \<Rightarrow> bool" where
  "file_not_found s \<longleftrightarrow> last_error s = Some (Lt FILE_NOT_FOUND)"

section \<open>The canonical form of a path\<close>

abbreviation LT_PATHSEP_CHAR :: char where "LT_PATHSEP_CHAR \<equiv> CHR '':''"

fun canon_loop :: "string \<Rightarrow> cbuf \<Rightarrow> nat \<Rightarrow> cbuf option" where
  "canon_loop [] canonical dest = wr canonical dest NUL"
| "canon_loop (c # cs) canonical dest =
     (let following = (case cs of [] \<Rightarrow> NUL | d # _ \<Rightarrow> d) in
      if c = LT_PATHSEP_CHAR \<and> (dest = 0 \<or> following = LT_PATHSEP_CHAR \<or> following = NUL) then canon_loop cs canonical dest
      else if c \<noteq> CHR ''/'' then do { canonical \<leftarrow> wr canonical dest c; canon_loop cs canonical (dest + 1) }
      else if following \<noteq> LT_PATHSEP_CHAR \<and> following \<noteq> NUL \<and> following \<noteq> CHR ''/'' then do {
        canonical \<leftarrow> wr canonical dest (CHR ''/'');
        canon_loop cs canonical (dest + 1) }
      else canon_loop cs canonical dest)"

definition canonicalize_path :: "bool \<Rightarrow> string \<Rightarrow> ltdl \<Rightarrow> (int \<times> string option \<times> ltdl) option" where
  "canonicalize_path mem path s =
     (if path = [] then None
      else if \<not> mem then Some (1, None, lt_seterror NO_MEMORY s)
      else do {
        b \<leftarrow> canon_loop path (realloc_bytes None (1 + length path)) 0;
        c \<leftarrow> cstr b 0;
        Some (0, Some c, s) })"

definition argzize_path :: "bool \<Rightarrow> string \<Rightarrow> ltdl \<Rightarrow> (int \<times> argz option \<times> ltdl) option" where
  "argzize_path mem path s = do {
     (error, v) \<leftarrow> argz_create_sep mem path LT_PATHSEP_CHAR;
     if error \<noteq> 0 then Some (1, v, lt_seterror (if error = ENOMEM then NO_MEMORY else UNKNOWN) s)
     else Some (0, v, s) }"

section \<open>Iteration over the directories of a path\<close>

text \<open>
  The function that is called for each directory gets the name of the file and its data. The
  buffer for the name grows when it is needed.
\<close>

type_synonym 'd dir_func = "string \<Rightarrow> 'd \<Rightarrow> ltdl \<Rightarrow> (int \<times> 'd \<times> ltdl) option"

definition file_name :: "string \<Rightarrow> string option \<Rightarrow> cbuf \<Rightarrow> (cbuf \<times> string) option" where
  "file_name dir_name base_name filename = do {
     let lenbase = (case base_name of None \<Rightarrow> 0 | Some b \<Rightarrow> length b);
     let lendir = length dir_name;
     let filename = (if 1 + lendir + lenbase \<ge> length filename then realloc_bytes None (1 + lendir + 1 + lenbase) else filename);
     filename \<leftarrow> put filename 0 (dir_name @ [NUL]);
     filename \<leftarrow> (case base_name of
         None \<Rightarrow> Some filename
       | Some [] \<Rightarrow> Some filename
       | Some base \<Rightarrow> do {
           c \<leftarrow> (if lendir = 0 then None else rd filename (lendir - 1));
           (filename, lendir) \<leftarrow> (if c \<noteq> CHR ''/'' then do { f \<leftarrow> wr filename lendir (CHR ''/''); Some (f, lendir + 1) }
                                 else Some (filename, lendir));
           put filename lendir (base @ [NUL]) });
     n \<leftarrow> cstr filename 0;
     Some (filename, n) }"

partial_function (option) dirs_loop ::
  "bool \<Rightarrow> argz \<Rightarrow> nat option \<Rightarrow> string option \<Rightarrow> cbuf \<Rightarrow> 'd dir_func \<Rightarrow> 'd \<Rightarrow> ltdl \<Rightarrow> (int \<times> 'd \<times> ltdl) option" where
  "dirs_loop mem v dir_name base_name filename func d s = do {
     e \<leftarrow> argz_next v dir_name;
     case e of
       None \<Rightarrow> Some (0, d, s)
     | Some e \<Rightarrow> do {
         b \<leftarrow> fst v;
         dir \<leftarrow> cstr b e;
         if \<not> mem \<and> 1 + length dir + (case base_name of None \<Rightarrow> 0 | Some b \<Rightarrow> length b) \<ge> length filename
         then Some (0, d, lt_seterror NO_MEMORY s)
         else do {
           (filename, n) \<leftarrow> file_name dir base_name filename;
           (result, d, s) \<leftarrow> func n d s;
           if result \<noteq> 0 then Some (result, d, s)
           else dirs_loop mem v (Some e) base_name filename func d s } } }"

definition foreach_dirinpath ::
  "bool \<times> bool \<times> bool \<Rightarrow> string option \<Rightarrow> string option \<Rightarrow> 'd dir_func \<Rightarrow> 'd \<Rightarrow> ltdl \<Rightarrow> (int \<times> 'd \<times> ltdl) option" where
  "foreach_dirinpath mem search_path base_name func d s =
     (let (mem1, mem2, mem3) = mem; path = (case search_path of None \<Rightarrow> [] | Some p \<Rightarrow> p) in
      if path = [] then Some (0, d, lt_seterror FILE_NOT_FOUND s)
      else do {
        (error, canonical, s) \<leftarrow> canonicalize_path mem1 path s;
        case canonical of
          None \<Rightarrow> Some (0, d, s)
        | Some c \<Rightarrow> do {
            (error, v, s) \<leftarrow> argzize_path mem2 c s;
            case v of
              None \<Rightarrow> Some (0, d, s)
            | Some v \<Rightarrow> dirs_loop mem3 v None base_name [] func d s } })"

text \<open>
  Opening a file in one of the directories: the data are the directory that was found and the
  name of the opened file, \<open>opens\<close> says which files can be opened. In the name of the file the
  code overwrites the last slash, unless it is the first character.
\<close>

definition dir_part :: "string \<Rightarrow> string" where
  "dir_part filename = (case find_last (CHR ''/'') filename of Some (Suc k) \<Rightarrow> take (Suc k) filename | _ \<Rightarrow> filename)"

definition find_file_callback :: "(string \<Rightarrow> bool) \<Rightarrow> bool \<Rightarrow> (string option \<times> string option) dir_func" where
  "find_file_callback opens mem filename d s =
     (if filename = [] then None
      else if opens filename then
        if mem then Some (1, (Some (dir_part filename), Some filename), s)
        else Some (- 1, (None, Some filename), lt_seterror NO_MEMORY s)
      else Some (0, (fst d, None), s))"

definition find_file ::
  "(string \<Rightarrow> bool) \<Rightarrow> bool \<times> bool \<times> bool \<times> bool \<Rightarrow> string option \<Rightarrow> string \<Rightarrow> string option \<Rightarrow> ltdl \<Rightarrow>
   (string option \<times> string option \<times> ltdl) option" where
  "find_file opens mem search_path base_name pdir s =
     (let (mem1, mem2, mem3, mem4) = mem in do {
        (_, (dir, file), s) \<leftarrow> foreach_dirinpath (mem1, mem2, mem3) search_path (Some base_name) (find_file_callback opens mem4) (pdir, None) s;
        Some (file, dir, s) })"

section \<open>The files of a directory\<close>

text \<open>\<open>strcmp\<close> compares bytes as unsigned numbers.\<close>

fun strcmp :: "string \<Rightarrow> string \<Rightarrow> int" where
  "strcmp [] [] = 0"
| "strcmp [] (y # ys) = - of_char y"
| "strcmp (x # xs) [] = of_char x"
| "strcmp (x # xs) (y # ys) = (if x = y then strcmp xs ys else of_char x - of_char y)"

definition lt_argz_insert :: "bool \<Rightarrow> argz \<Rightarrow> nat option \<Rightarrow> string \<Rightarrow> ltdl \<Rightarrow> (int \<times> argz \<times> ltdl) option" where
  "lt_argz_insert mem v before entry s = do {
     (error, v) \<leftarrow> (case before of
        Some _ \<Rightarrow> argz_insert mem v before entry
      | None \<Rightarrow> argz_append mem v (entry @ [NUL]) (1 + length entry));
     if error \<noteq> 0 then Some (1, v, lt_seterror (if error = ENOMEM then NO_MEMORY else UNKNOWN) s)
     else Some (0, v, s) }"

text \<open>The place for an entry, or \<open>None\<close> when it is there already.\<close>

partial_function (option) order_loop :: "argz \<Rightarrow> nat option \<Rightarrow> string \<Rightarrow> nat option option option" where
  "order_loop v before entry = do {
     e \<leftarrow> argz_next v before;
     case e of
       None \<Rightarrow> Some (Some None)
     | Some e \<Rightarrow> do {
         b \<leftarrow> fst v;
         t \<leftarrow> cstr b e;
         if strcmp entry t < 0 then Some (Some (Some e))
         else if strcmp entry t = 0 then Some None
         else order_loop v (Some e) entry } }"

definition lt_argz_insertinorder :: "bool \<Rightarrow> argz \<Rightarrow> string \<Rightarrow> ltdl \<Rightarrow> (int \<times> argz \<times> ltdl) option" where
  "lt_argz_insertinorder mem v entry s =
     (if entry = [] then None
      else do {
        place \<leftarrow> (if fst v \<noteq> None then order_loop v None entry else Some (Some None));
        case place of
          None \<Rightarrow> Some (0, v, s)
        | Some before \<Rightarrow> lt_argz_insert mem v before entry s })"

text \<open>The end of a name without its version, and without its extension.\<close>

fun version_loop :: "string \<Rightarrow> nat \<Rightarrow> nat" where
  "version_loop name 0 = 0"
| "version_loop name (Suc p) = (if p > 0 \<and> name ! p \<in> set ''.0123456789'' then version_loop name p else Suc p)"

fun extension_loop :: "string \<Rightarrow> nat \<Rightarrow> nat \<Rightarrow> nat" where
  "extension_loop name 0 fin = fin"
| "extension_loop name (Suc p) fin = (if name ! Suc p = CHR ''.'' then Suc p else extension_loop name p fin)"

definition name_end :: "string \<Rightarrow> nat" where
  "name_end name =
     (let fin = length name; p = version_loop name fin; fin = (if p < length name \<and> name ! p = CHR ''.'' then p else fin)
      in extension_loop name (fin - 1) fin)"

definition lt_argz_insertdir :: "bool \<Rightarrow> argz \<Rightarrow> string \<Rightarrow> string \<Rightarrow> ltdl \<Rightarrow> (int \<times> argz \<times> ltdl) option" where
  "lt_argz_insertdir mem v dirnam d_name s =
     (if \<not> mem then Some (1, v, lt_seterror NO_MEMORY s)
      else do {
        (error, v, s) \<leftarrow> lt_argz_insertinorder mem v (dirnam @ ''/'' @ take (name_end d_name) d_name) s;
        Some (if error \<noteq> 0 then 1 else 0, v, s) })"

text \<open>The entries of a directory, or \<open>None\<close> when it cannot be opened.\<close>

fun entries_loop :: "bool \<Rightarrow> string \<Rightarrow> string list \<Rightarrow> argz \<Rightarrow> ltdl \<Rightarrow> (int \<times> argz \<times> ltdl) option" where
  "entries_loop mem dirnam [] v s = Some (0, v, s)"
| "entries_loop mem dirnam (n # ns) v s =
     (if take 1 n \<noteq> ''.'' then do {
        (error, v, s) \<leftarrow> lt_argz_insertdir mem v dirnam n s;
        if error \<noteq> 0 then Some (1, v, s) else entries_loop mem dirnam ns v s }
      else entries_loop mem dirnam ns v s)"

definition list_files_by_dir :: "(string \<Rightarrow> string list option) \<Rightarrow> bool \<Rightarrow> string \<Rightarrow> argz \<Rightarrow> ltdl \<Rightarrow> (int \<times> argz \<times> ltdl) option" where
  "list_files_by_dir opendir mem dirnam v s =
     (if dirnam = [] \<or> last dirnam = CHR ''/'' then None
      else
        case opendir dirnam of
          None \<Rightarrow> Some (1, v, s)
        | Some ns \<Rightarrow> entries_loop mem dirnam ns v s)"

partial_function (option) files_loop :: "argz \<Rightarrow> nat option \<Rightarrow> (string \<Rightarrow> 'd \<Rightarrow> int \<times> 'd) \<Rightarrow> 'd \<Rightarrow> (int \<times> 'd) option" where
  "files_loop v filename func d = do {
     e \<leftarrow> argz_next v filename;
     case e of
       None \<Rightarrow> Some (0, d)
     | Some e \<Rightarrow> do {
         b \<leftarrow> fst v;
         n \<leftarrow> cstr b e;
         let (is_done, d) = func n d;
         if is_done \<noteq> 0 then Some (is_done, d) else files_loop v (Some e) func d } }"

definition foreachfile_callback :: "(string \<Rightarrow> string list option) \<Rightarrow> bool \<Rightarrow> (string \<Rightarrow> 'd \<Rightarrow> int \<times> 'd) \<Rightarrow> 'd dir_func" where
  "foreachfile_callback opendir mem func dirname d s = do {
     (error, v, s) \<leftarrow> list_files_by_dir opendir mem dirname (None, 0) s;
     if error \<noteq> 0 \<or> fst v = None then Some (0, d, s)
     else do { (is_done, d) \<leftarrow> files_loop v None func d; Some (is_done, d, s) } }"

text \<open>
  The default paths are tried in turn: that of the user, those of the environment, and that of
  the system.
\<close>

fun try_paths :: "('d \<Rightarrow> ltdl \<Rightarrow> (int \<times> 'd \<times> ltdl) option) list \<Rightarrow> 'd \<Rightarrow> ltdl \<Rightarrow> (int \<times> 'd \<times> ltdl) option" where
  "try_paths [] d s = Some (0, d, s)"
| "try_paths (f # fs) d s = do { (r, d, s) \<leftarrow> f d s; if r \<noteq> 0 then Some (r, d, s) else try_paths fs d s }"

definition lt_dlforeachfile ::
  "(string \<Rightarrow> string list option) \<Rightarrow> bool \<Rightarrow> string option list \<Rightarrow> string \<Rightarrow> string option \<Rightarrow> (string \<Rightarrow> 'd \<Rightarrow> int \<times> 'd) \<Rightarrow> 'd \<Rightarrow> ltdl \<Rightarrow>
   (int \<times> 'd \<times> ltdl) option" where
  "lt_dlforeachfile opendir mem env_paths sys_dlsearch_path search_path func d s =
     (let each = (\<lambda>p. foreach_dirinpath (mem, mem, mem) p None (foreachfile_callback opendir mem func))
      in case search_path of
           Some p \<Rightarrow> each (Some p) d s
         | None \<Rightarrow> try_paths (map each (user_search_path s # env_paths) @ (if sys_dlsearch_path = [] then [] else [each (Some sys_dlsearch_path)])) d s)"

section \<open>The search path of the user\<close>

text \<open>
  A directory is inserted into a path before an offset. The canonical form is computed, but the
  directory is inserted as it was given.
\<close>

definition lt_dlpath_insertdir :: "bool \<Rightarrow> string option \<Rightarrow> nat option \<Rightarrow> string \<Rightarrow> ltdl \<Rightarrow> (int \<times> string option \<times> ltdl) option" where
  "lt_dlpath_insertdir mem ppath before dir s = do {
     (error, canonical, s) \<leftarrow> canonicalize_path mem dir s;
     case canonical of
       None \<Rightarrow> Some (1, ppath, s)
     | Some c \<Rightarrow>
         if c = [] then None
         else
           case ppath of
             None \<Rightarrow> if before \<noteq> None then None else if mem then Some (0, Some dir, s) else Some (1, None, lt_seterror NO_MEMORY s)
           | Some path \<Rightarrow> do {
               (error, v, s) \<leftarrow> argzize_path mem path s;
               case v of
                 None \<Rightarrow> Some (1, ppath, s)
               | Some v \<Rightarrow>
                   if (case before of None \<Rightarrow> False | Some p \<Rightarrow> p > length path) then None
                   else do {
                     (error, v, s) \<leftarrow> lt_argz_insert mem v before dir s;
                     if error \<noteq> 0 then Some (1, ppath, s)
                     else do {
                       v \<leftarrow> argz_stringify v LT_PATHSEP_CHAR;
                       b \<leftarrow> fst v;
                       p \<leftarrow> cstr b 0;
                       Some (0, Some p, s) } } } }"

definition set_user_path :: "(int \<times> string option \<times> ltdl) option \<Rightarrow> (int \<times> ltdl) option" where
  "set_user_path r = do { (error, p, s) \<leftarrow> r; Some (if error \<noteq> 0 then 1 else 0, s\<lparr>user_search_path := p\<rparr>) }"

definition lt_dladdsearchdir :: "bool \<Rightarrow> string option \<Rightarrow> ltdl \<Rightarrow> (int \<times> ltdl) option" where
  "lt_dladdsearchdir mem search_dir s =
     (case search_dir of
        Some (c # cs) \<Rightarrow> set_user_path (lt_dlpath_insertdir mem (user_search_path s) None (c # cs) s)
      | _ \<Rightarrow> Some (0, s))"

definition lt_dlinsertsearchdir :: "bool \<Rightarrow> nat option \<Rightarrow> string option \<Rightarrow> ltdl \<Rightarrow> (int \<times> ltdl) option" where
  "lt_dlinsertsearchdir mem before search_dir s =
     (if (case before of None \<Rightarrow> False | Some p \<Rightarrow> p \<ge> length (case user_search_path s of None \<Rightarrow> [] | Some u \<Rightarrow> u))
      then Some (1, lt_seterror INVALID_POSITION s)
      else
        case search_dir of
          Some (c # cs) \<Rightarrow> set_user_path (lt_dlpath_insertdir mem (user_search_path s) before (c # cs) s)
        | _ \<Rightarrow> Some (0, s))"

definition lt_dlsetsearchpath :: "bool \<Rightarrow> string option \<Rightarrow> ltdl \<Rightarrow> (int \<times> ltdl) option" where
  "lt_dlsetsearchpath mem search_path s =
     (let s = s\<lparr>user_search_path := None\<rparr> in
      case search_path of
        Some (c # cs) \<Rightarrow> set_user_path (canonicalize_path mem (c # cs) s)
      | _ \<Rightarrow> Some (0, s))"

definition lt_dlgetsearchpath :: "ltdl \<Rightarrow> string option" where
  "lt_dlgetsearchpath s = user_search_path s"

section \<open>Sorted lists of files\<close>

lemma of_char_pos: "c \<noteq> NUL \<Longrightarrow> 0 < (of_char c :: int)"
proof -
  assume "c \<noteq> NUL"
  then have "(of_char c :: nat) \<noteq> of_char NUL" by (simp only: of_char_eq_iff not_False_eq_True)
  then have "(of_char c :: nat) > 0" by simp
  then show ?thesis using of_nat_of_char [of c, where 'a = int] by linarith
qed

lemma strcmp_minus: "strcmp t s = - strcmp s t"
  by (induction s t rule: strcmp.induct) auto

lemma strcmp_eq: "NUL \<notin> set s \<Longrightarrow> NUL \<notin> set t \<Longrightarrow> strcmp s t = 0 \<longleftrightarrow> s = t"
proof (induction s t rule: strcmp.induct)
  case (2 y ys)
  then show ?case using of_char_pos [of y] by auto
next
  case (3 x xs)
  then show ?case using of_char_pos [of x] by auto
qed auto

lemma strcmp_trans: "NUL \<notin> set s \<Longrightarrow> NUL \<notin> set t \<Longrightarrow> NUL \<notin> set u \<Longrightarrow> strcmp s t < 0 \<Longrightarrow> strcmp t u < 0 \<Longrightarrow> strcmp s u < 0"
proof (induction s t arbitrary: u rule: strcmp.induct)
  case (2 y ys)
  then show ?case by (cases u) (auto simp: of_char_pos)
next
  case (3 x xs)
  then show ?case using of_char_pos [of x] by (cases u) auto
next
  case (4 x xs y ys)
  then show ?case using of_char_pos [of y] by (cases u) (auto simp: of_char_eq_iff split: if_splits)
qed auto

text \<open>The order of the files.\<close>

abbreviation ordered :: "string list \<Rightarrow> bool" where
  "ordered ss \<equiv> sorted_wrt (\<lambda>s t. strcmp s t < 0) ss"

definition before_entry :: "string list \<Rightarrow> nat option" where
  "before_entry ss = (if ss = [] then None else Some (length (encode (butlast ss))))"

lemma argz_next_before:
  assumes "vec v (ss @ ts)"
  shows "argz_next v (before_entry ss) = Some (if ts = [] then None else Some (length (encode ss)))"
proof (cases ss rule: rev_cases)
  case Nil
  then show ?thesis using argz_next_first [OF assms] by (simp add: before_entry_def)
next
  case (snoc rs r)
  then show ?thesis using argz_next_ok [of v rs r ts] assms by (simp add: before_entry_def)
qed

lemma order_loop_ok:
  assumes "vec v (ss @ ts)"
  shows "order_loop v (before_entry ss) entry =
    Some (case dropWhile (\<lambda>t. strcmp entry t > 0) ts of
        [] \<Rightarrow> Some None
      | t # _ \<Rightarrow> if strcmp entry t = 0 then None else Some (Some (length (encode (ss @ takeWhile (\<lambda>t. strcmp entry t > 0) ts)))))"
  using assms
proof (induction ts arbitrary: ss)
  case Nil
  then show ?case using argz_next_before [OF Nil] by (subst order_loop.simps) simp
next
  case (Cons t ts)
  obtain b where b: "fst v = Some b" "cstr b (length (encode ss)) = Some t" using vec_cstr [OF Cons.prems] by blast
  have next_entry: "before_entry (ss @ [t]) = Some (length (encode ss))" by (simp add: before_entry_def)
  have "order_loop v (Some (length (encode ss))) entry = order_loop v (before_entry (ss @ [t])) entry" by (simp only: next_entry)
  then have step: "order_loop v (before_entry ss) entry =
      (if strcmp entry t < 0 then Some (Some (Some (length (encode ss)))) else if strcmp entry t = 0 then Some None
       else order_loop v (before_entry (ss @ [t])) entry)"
    using argz_next_before [OF Cons.prems] b by (subst order_loop.simps) simp
  show ?case
  proof (cases "strcmp entry t > 0")
    case True
    define rs where "rs = dropWhile (\<lambda>t. strcmp entry t > 0) ts"
    show ?thesis using True step Cons.IH [of "ss @ [t]"] Cons.prems by (cases rs) (simp_all flip: rs_def)
  next
    case False
    then show ?thesis using step by simp
  qed
qed

lemma ordered_split:
  assumes "ordered ss" "NUL \<notin> set entry" "\<forall>s\<in>set ss. NUL \<notin> set s"
    "us = takeWhile (\<lambda>t. strcmp entry t > 0) ss" "rs = dropWhile (\<lambda>t. strcmp entry t > 0) ss"
    "rs = [] \<or> strcmp entry (hd rs) \<noteq> 0"
  shows "ordered (us @ entry # rs)"
proof -
  have ss: "ss = us @ rs" using assms(4,5) by simp
  have o: "ordered us" "ordered rs" "\<forall>u\<in>set us. \<forall>r\<in>set rs. strcmp u r < 0" using assms(1) ss by (auto simp: sorted_wrt_append)
  have us: "\<forall>u\<in>set us. strcmp u entry < 0" using assms(4) strcmp_minus [of entry] by (auto dest: set_takeWhileD)
  have rs: "strcmp entry r < 0" if r: "r \<in> set rs" for r
  proof -
    obtain q qs where q: "rs = q # qs" using r by (cases rs) auto
    then have "\<not> strcmp entry q > 0" using assms(5) by (metis hd_dropWhile list.sel(1) list.simps(3))
    then have lt: "strcmp entry q < 0" using assms(6) q by auto
    show ?thesis
    proof (cases "r = q")
      case False
      then have "strcmp q r < 0" using o(2) q r by auto
      then show ?thesis using strcmp_trans [of entry q r] lt assms(2,3) ss q r by auto
    qed (use lt in simp)
  qed
  show ?thesis using o us rs by (simp add: sorted_wrt_append)
qed

lemma lt_argz_insertinorder_ok:
  assumes "vec v ss" "ordered ss" "entry \<noteq> []" "NUL \<notin> set entry"
  shows "\<exists>v' ss'. lt_argz_insertinorder True v entry s = Some (0, v', s) \<and> vec v' ss' \<and> ordered ss' \<and> set ss' = insert entry (set ss)"
proof -
  let ?us = "takeWhile (\<lambda>t. strcmp entry t > 0) ss" and ?rs = "dropWhile (\<lambda>t. strcmp entry t > 0) ss"
  have chars: "\<forall>s\<in>set ss. NUL \<notin> set s" using vec_chars [OF assms(1)] by blast
  have place: "(if fst v \<noteq> None then order_loop v None entry else Some (Some None)) =
      Some (case ?rs of [] \<Rightarrow> Some None | t # _ \<Rightarrow> if strcmp entry t = 0 then None else Some (Some (length (encode ?us))))"
  proof (cases "ss = []")
    case False
    then have "fst v \<noteq> None" using vec_block [OF assms(1)] by auto
    then show ?thesis using order_loop_ok [of v "[]" ss entry, unfolded append_Nil] assms(1) by (simp add: before_entry_def)
  qed (use assms(1) in simp)
  consider (last) "?rs = []" | (same) t ts where "?rs = t # ts" "strcmp entry t = 0" | (mid) t ts where "?rs = t # ts" "strcmp entry t \<noteq> 0"
    by (cases ?rs) auto
  then show ?thesis
  proof cases
    case last
    obtain v' where v': "argz_append True v (entry @ [NUL]) (1 + length entry) = Some (0, v')" "vec v' (ss @ [entry])"
      using argz_append_ok [OF assms(1,4)] by blast
    have us: "?us = ss" using last by (metis append_Nil2 takeWhile_dropWhile_id)
    have "ordered (ss @ [entry])" using ordered_split [OF assms(2,4) chars refl refl] last us by simp
    moreover have "lt_argz_insertinorder True v entry s = Some (0, v', s)"
      unfolding lt_argz_insertinorder_def place last using assms(3) v'(1) by (simp add: lt_argz_insert_def)
    ultimately show ?thesis using v'(2) by auto
  next
    case same
    then have t: "t \<in> set ss" by (metis list.set_intros(1) set_dropWhileD)
    then have "entry = t" using same(2) strcmp_eq assms(4) chars by blast
    moreover have "lt_argz_insertinorder True v entry s = Some (0, v, s)"
      unfolding lt_argz_insertinorder_def place same using assms(3) same(2) by simp
    ultimately show ?thesis using assms(1,2) t by auto
  next
    case mid
    have "vec v (?us @ ?rs)" using assms(1) by simp
    then obtain v' where v': "argz_insert True v (Some (length (encode ?us))) entry = Some (0, v')" "vec v' (?us @ entry # ?rs)"
      using argz_insert_ok [of v ?us ?rs entry] assms(3,4) mid by (metis list.distinct(1))
    have "ordered (?us @ entry # ?rs)" using ordered_split [OF assms(2,4) chars refl refl] mid by simp
    moreover have "lt_argz_insertinorder True v entry s = Some (0, v', s)"
      unfolding lt_argz_insertinorder_def place using assms(3) v'(1) mid by (simp add: lt_argz_insert_def)
    moreover have "set (?us @ entry # ?rs) = insert entry (set ss)" 
      by (metis Un_insert_right list.simps(15) set_append takeWhile_dropWhile_id)
    ultimately show ?thesis using v'(2) by blast
  qed
qed

text \<open>The names that a directory is listed with.\<close>

definition listed :: "string \<Rightarrow> string list \<Rightarrow> string set" where
  "listed dirnam ns = (\<lambda>n. dirnam @ ''/'' @ take (name_end n) n) ` {n \<in> set ns. take 1 n \<noteq> ''.''}"

lemma entries_loop_ok:
  assumes "vec v ss" "ordered ss" "NUL \<notin> set dirnam" "\<forall>n\<in>set ns. NUL \<notin> set n"
  shows "\<exists>v' ss'. entries_loop True dirnam ns v s = Some (0, v', s) \<and> vec v' ss' \<and> ordered ss' \<and> set ss' = listed dirnam ns \<union> set ss"
  using assms
proof (induction ns arbitrary: v ss)
  case Nil
  then show ?case by (auto simp: listed_def)
next
  case (Cons n ns)
  show ?case
  proof (cases "take 1 n = ''.''")
    case True
    then have "listed dirnam (n # ns) = listed dirnam ns" by (auto simp: listed_def)
    then show ?thesis using Cons.IH [OF Cons.prems(1-3)] Cons.prems(4) True by simp
  next
    case False
    let ?e = "dirnam @ ''/'' @ take (name_end n) n"
    have e: "?e \<noteq> []" "NUL \<notin> set ?e" using Cons.prems(3,4) by (auto dest: in_set_takeD)
    obtain v1 ss1 where v1: "lt_argz_insertinorder True v ?e s = Some (0, v1, s)" "vec v1 ss1" "ordered ss1" "set ss1 = insert ?e (set ss)"
      using lt_argz_insertinorder_ok [OF Cons.prems(1,2) e] by blast
    have i: "lt_argz_insertdir True v dirnam n s = Some (0, v1, s)" using v1(1) by (simp add: lt_argz_insertdir_def)
    obtain v2 ss2 where v2: "entries_loop True dirnam ns v1 s = Some (0, v2, s)" "vec v2 ss2" "ordered ss2" "set ss2 = listed dirnam ns \<union> set ss1"
      using Cons.IH [OF v1(2,3) Cons.prems(3)] Cons.prems(4) by auto
    have "listed dirnam (n # ns) = insert ?e (listed dirnam ns)" using False by (auto simp: listed_def)
    then have "set ss2 = listed dirnam (n # ns) \<union> set ss" using v1(4) v2(4) by auto
    moreover have "entries_loop True dirnam (n # ns) v s = Some (0, v2, s)" using False i v2(1) by simp
    ultimately show ?thesis using v2(2,3) by blast
  qed
qed

section \<open>Canonical paths\<close>

text \<open>A directory with repeated and trailing slashes removed.\<close>

fun clean :: "string \<Rightarrow> string" where
  "clean [] = []"
| "clean (c # cs) = (if c = CHR ''/'' \<and> take 1 cs \<in> {[], ''/''} then clean cs else c # clean cs)"

text \<open>What the loop writes, depending on whether something was written before.\<close>

fun canon :: "bool \<Rightarrow> string \<Rightarrow> string" where
  "canon st [] = []"
| "canon st (c # cs) =
     (let following = (case cs of [] \<Rightarrow> NUL | d # _ \<Rightarrow> d) in
      if c = LT_PATHSEP_CHAR \<and> (\<not> st \<or> following = LT_PATHSEP_CHAR \<or> following = NUL) then canon st cs
      else if c \<noteq> CHR ''/'' then c # canon True cs
      else if following \<noteq> LT_PATHSEP_CHAR \<and> following \<noteq> NUL \<and> following \<noteq> CHR ''/'' then CHR ''/'' # canon True cs
      else canon st cs)"

lemma canon_loop_ok:
  assumes "dest + length cs < length b"
  shows "\<exists>b'. canon_loop cs b dest = Some b' \<and> take (dest + length (canon (dest \<noteq> 0) cs) + 1) b' = take dest b @ canon (dest \<noteq> 0) cs @ [NUL]"
  using assms
proof (induction cs arbitrary: b dest)
  case Nil
  then show ?case by (auto simp: wr_def take_Suc_conv_app_nth)
next
  case (Cons c cs)
  have skip: ?case if "canon_loop (c # cs) b dest = canon_loop cs b dest" "canon (dest \<noteq> 0) (c # cs) = canon (dest \<noteq> 0) cs"
    using Cons.IH [of dest b] Cons.prems that by auto
  have emit: ?case if e: "canon_loop (c # cs) b dest = do { b \<leftarrow> wr b dest x; canon_loop cs b (dest + 1) }"
    "canon (dest \<noteq> 0) (c # cs) = x # canon True cs" for x
  proof -
    have t: "take (dest + 1) (b[dest := x]) = take dest b @ [x]" using Cons.prems by (simp add: take_Suc_conv_app_nth)
    have l: "dest + 1 + length cs < length (b[dest := x])" using Cons.prems by simp
    obtain b' where "canon_loop cs (b[dest := x]) (dest + 1) = Some b'"
      "take (dest + 1 + length (canon True cs) + 1) b' = take (dest + 1) (b[dest := x]) @ canon True cs @ [NUL]"
      using Cons.IH [OF l] by auto
    then show ?thesis using e t Cons.prems by (simp add: wr_def)
  qed
  let ?f = "case cs of [] \<Rightarrow> NUL | d # _ \<Rightarrow> d"
  show ?case
  proof (cases "c = LT_PATHSEP_CHAR \<and> (dest = 0 \<or> ?f = LT_PATHSEP_CHAR \<or> ?f = NUL)")
    case True
    then show ?thesis by (intro skip) (auto simp: Let_def)
  next
    case sep: False
    show ?thesis
    proof (cases "c \<noteq> CHR ''/''")
      case True
      then show ?thesis using sep by (intro emit) (auto simp: Let_def)
    next
      case slash: False
      show ?thesis
      proof (cases "?f \<noteq> LT_PATHSEP_CHAR \<and> ?f \<noteq> NUL \<and> ?f \<noteq> CHR ''/''")
        case True
        then show ?thesis using slash by (intro emit) (auto simp: Let_def)
      next
        case False
        then show ?thesis using slash by (intro skip) (auto simp: Let_def)
      qed
    qed
  qed
qed

text \<open>A field of a path: not only slashes, unless it is empty.\<close>

definition field_ok :: "string \<Rightarrow> bool" where
  "field_ok f \<longleftrightarrow> LT_PATHSEP_CHAR \<notin> set f \<and> NUL \<notin> set f \<and> (f \<noteq> [] \<longrightarrow> clean f \<noteq> [])"

lemma canon_field:
  assumes "LT_PATHSEP_CHAR \<notin> set f" "NUL \<notin> set f" "take 1 rest \<in> {[], [LT_PATHSEP_CHAR]}"
  shows "canon st (f @ rest) = clean f @ canon (st \<or> clean f \<noteq> []) rest"
  using assms
proof (induction f arbitrary: st)
  case (Cons c f)
  let ?n = "case f @ rest of [] \<Rightarrow> NUL | d # _ \<Rightarrow> d"
  have n: "?n \<in> {NUL, LT_PATHSEP_CHAR, CHR ''/''} \<longleftrightarrow> take 1 f \<in> {[], ''/''}"
    using Cons.prems by (cases f; cases rest) auto
  have "c \<noteq> LT_PATHSEP_CHAR" using Cons.prems by auto
  then show ?case using Cons.IH [of st] Cons.IH [of True] Cons.prems n by (cases "c = CHR ''/''") (auto simp: Let_def)
qed simp

lemma canon_sep_skip: "take 1 rest \<in> {[], [LT_PATHSEP_CHAR]} \<Longrightarrow> canon st (LT_PATHSEP_CHAR # rest) = canon st rest"
  by (cases rest) (auto simp: Let_def simp del: canon.simps(2) simp: canon.simps(2) [of st LT_PATHSEP_CHAR])

lemma canon_sep_emit:
  assumes "f \<noteq> []" "LT_PATHSEP_CHAR \<notin> set f" "NUL \<notin> set f"
  shows "canon True (LT_PATHSEP_CHAR # f @ rest) = LT_PATHSEP_CHAR # canon True (f @ rest)"
  using assms by (cases f) (auto simp: Let_def simp del: canon.simps(2) simp: canon.simps(2) [of True LT_PATHSEP_CHAR])

lemma canon_seps:
  assumes "\<forall>f\<in>set fs. field_ok f"
  shows "canon True (LT_PATHSEP_CHAR # join LT_PATHSEP_CHAR fs) =
    concat (map (\<lambda>f. LT_PATHSEP_CHAR # clean f) (filter (\<lambda>f. f \<noteq> []) fs))"
  using assms
proof (induction LT_PATHSEP_CHAR fs rule: join.induct)
  case 1
  then show ?case using canon_sep_skip [of "[]" True] by simp
next
  case (2 f)
  have f: "LT_PATHSEP_CHAR \<notin> set f" "NUL \<notin> set f" using 2 by (auto simp: field_ok_def)
  show ?case using canon_sep_emit [OF _ f, of "[]"] canon_field [OF f, of "[]" True] canon_sep_skip [of "[]" True]
    by (cases "f = []") (simp_all del: canon.simps(2))
next
  case (3 f g fs)
  let ?r = "LT_PATHSEP_CHAR # join LT_PATHSEP_CHAR (g # fs)"
  have f: "LT_PATHSEP_CHAR \<notin> set f" "NUL \<notin> set f" using 3 by (auto simp: field_ok_def)
  have IH: "canon True ?r = concat (map (\<lambda>f. LT_PATHSEP_CHAR # clean f) (filter (\<lambda>f. f \<noteq> []) (g # fs)))" using 3 by simp
  have j: "join LT_PATHSEP_CHAR (f # g # fs) = f @ ?r" by simp
  have r: "take 1 ?r \<in> {[], [LT_PATHSEP_CHAR]}" by simp
  show ?case
  proof (cases "f = []")
    case True
    then show ?thesis unfolding j using canon_sep_skip [OF r, of True] IH by (simp del: canon.simps(2) join.simps(3))
  next
    case False
    then show ?thesis unfolding j using canon_sep_emit [OF False f, of ?r] canon_field [OF f r, of True] IH
      by (simp del: canon.simps(2) join.simps(3))
  qed
qed

lemma join_Cons: "join d (s # ss) = s @ concat (map (\<lambda>s. d # s) ss)"
  by (induction d ss arbitrary: s rule: join.induct) auto

lemma canon_join:
  assumes "\<forall>f\<in>set fs. field_ok f"
  shows "canon False (join LT_PATHSEP_CHAR fs) = join LT_PATHSEP_CHAR (map clean (filter (\<lambda>f. f \<noteq> []) fs))"
  using assms
proof (induction LT_PATHSEP_CHAR fs rule: join.induct)
  case (2 f)
  then show ?case using canon_field [of f "[]" False] by (cases "f = []") (simp_all add: field_ok_def)
next
  case (3 f g fs)
  let ?r = "LT_PATHSEP_CHAR # join LT_PATHSEP_CHAR (g # fs)"
  have j: "join LT_PATHSEP_CHAR (f # g # fs) = f @ ?r" by simp
  show ?case
  proof (cases "f = []")
    case True
    have "canon False ?r = canon False (join LT_PATHSEP_CHAR (g # fs))" by (simp add: Let_def del: join.simps)
    then show ?thesis unfolding j using 3 True by (simp del: canon.simps(2) join.simps(3))
  next
    case False
    have f: "LT_PATHSEP_CHAR \<notin> set f" "NUL \<notin> set f" "clean f \<noteq> []" using 3 False by (auto simp: field_ok_def)
    have "canon False (f @ ?r) = clean f @ canon True ?r" using canon_field [OF f(1,2), of ?r False] f(3) by (simp del: canon.simps(2))
    also have "canon True ?r = concat (map (\<lambda>f. LT_PATHSEP_CHAR # clean f) (filter (\<lambda>f. f \<noteq> []) (g # fs)))" using canon_seps [of "g # fs"] 3 by simp
    finally show ?thesis unfolding j using False by (simp add: join_Cons comp_def del: canon.simps(2))
  qed
qed simp

lemma canon_chars: "NUL \<notin> set cs \<Longrightarrow> NUL \<notin> set (canon st cs)"
  by (induction st cs rule: canon.induct) (auto simp: Let_def)

lemma canonicalize_path_ok:
  assumes "path \<noteq> []" "NUL \<notin> set path"
  shows "canonicalize_path True path s = Some (0, Some (canon False path), s)"
proof -
  obtain b where b: "canon_loop path (realloc_bytes None (1 + length path)) 0 = Some b" "take (length (canon False path) + 1) b = canon False path @ [NUL]"
    using canon_loop_ok [of 0 path "realloc_bytes None (1 + length path)"] by auto
  then have "b = [] @ canon False path @ NUL # drop (length (canon False path) + 1) b" by (metis append_Nil append_take_drop_id append_Cons append_assoc)
  then have "cstr b 0 = Some (canon False path)" using cstr_append [OF canon_chars [OF assms(2)], of "[]"] by (metis list.size(3))
  then show ?thesis using b(1) assms(1) by (simp add: canonicalize_path_def)
qed

section \<open>Visiting the directories\<close>

lemma clean_chars: "set (clean f) \<subseteq> set f"
  by (induction f) auto

lemma clean_last: "clean f \<noteq> [] \<Longrightarrow> last (clean f) \<noteq> CHR ''/''"
proof (induction f)
  case (Cons c f)
  show ?case
  proof (cases "clean f = []")
    case False
    then show ?thesis using Cons by auto
  next
    case True
    have "clean f = [] \<Longrightarrow> f = [] \<or> take 1 f = ''/''" by (cases f) (auto split: if_splits)
    then show ?thesis using Cons.prems True by auto
  qed
qed simp

definition with_base :: "string option \<Rightarrow> string \<Rightarrow> string" where
  "with_base base_name dir = (case base_name of None \<Rightarrow> dir | Some [] \<Rightarrow> dir | Some b \<Rightarrow> dir @ CHR ''/'' # b)"

lemma put_cstr:
  assumes "put b i (s @ [NUL]) = Some b'" "take i b = p" "NUL \<notin> set (p @ s)" "i \<le> length b"
  shows "cstr b' 0 = Some (p @ s)"
proof -
  have "b' = [] @ (p @ s) @ NUL # drop (i + length (s @ [NUL])) b" using assms(1,2) by (auto simp: put_def split: if_splits)
  then show ?thesis using cstr_append [OF assms(3), of "[]"] by (metis list.size(3))
qed

lemma file_name_ok:
  assumes "dir \<noteq> []" "last dir \<noteq> CHR ''/''" "NUL \<notin> set dir" "case base_name of None \<Rightarrow> True | Some b \<Rightarrow> NUL \<notin> set b"
  shows "\<exists>filename'. file_name dir base_name filename = Some (filename', with_base base_name dir)"
proof -
  define lenbase where "lenbase = (case base_name of None \<Rightarrow> 0 | Some b \<Rightarrow> length b)"
  define f0 where "f0 = (if 1 + length dir + lenbase \<ge> length filename then realloc_bytes None (1 + length dir + 1 + lenbase) else filename)"
  have l0: "length f0 > 1 + length dir + lenbase" by (simp add: f0_def)
  let ?f1 = "dir @ NUL # drop (length dir + 1) f0"
  have p1: "put f0 0 (dir @ [NUL]) = Some ?f1" using l0 put_ok [of 0 "dir @ [NUL]" f0] by simp
  show ?thesis
  proof (cases "base_name = None \<or> base_name = Some []")
    case True
    have "cstr ([] @ dir @ NUL # drop (length dir + 1) f0) (length ([] :: string)) = Some dir" by (rule cstr_append [OF assms(3)])
    then show ?thesis using True p1 by (auto simp: file_name_def Let_def f0_def lenbase_def with_base_def)
  next
    case False
    then obtain b where b: "base_name = Some b" "b \<noteq> []" "NUL \<notin> set b" "lenbase = length b" using assms(4) by (cases base_name) (auto simp: lenbase_def)
    have r: "rd ?f1 (length dir - 1) = Some (last dir)" using assms(1) by (simp add: rd_def nth_append last_conv_nth)
    let ?f2 = "?f1[length dir := CHR ''/'']"
    have w: "wr ?f1 (length dir) (CHR ''/'') = Some ?f2" by (simp add: wr_def)
    have t: "take (length dir + 1) ?f2 = dir @ ''/''" by simp
    have l2: "length dir + 1 + length (b @ [NUL]) \<le> length ?f2" using l0 b(4) by simp
    obtain f3 where f3: "put ?f2 (length dir + 1) (b @ [NUL]) = Some f3" using put_ok [OF l2] by blast
    have "cstr f3 0 = Some ((dir @ ''/'') @ b)" by (rule put_cstr [OF f3 t]) (use assms(3) b l2 in auto)
    then have "file_name dir base_name filename = Some (f3, dir @ CHR ''/'' # b)"
      unfolding file_name_def Let_def lenbase_def [symmetric] f0_def [symmetric] p1 Option.bind_lunit
      using b(1,2) r w f3 assms(1,2) by (cases b) auto
    then show ?thesis using b(1,2) by (cases b) (auto simp: with_base_def)
  qed
qed

text \<open>Calling a function for each of some names until it returns a value.\<close>

fun visit :: "'d dir_func \<Rightarrow> string list \<Rightarrow> 'd \<Rightarrow> ltdl \<Rightarrow> (int \<times> 'd \<times> ltdl) option" where
  "visit func [] d s = Some (0, d, s)"
| "visit func (n # ns) d s = do { (r, d, s) \<leftarrow> func n d s; if r \<noteq> 0 then Some (r, d, s) else visit func ns d s }"

lemma dirs_loop_ok:
  assumes "vec v (ss @ ts)" "\<forall>t\<in>set ts. t \<noteq> [] \<and> last t \<noteq> CHR ''/''" "case base_name of None \<Rightarrow> True | Some b \<Rightarrow> NUL \<notin> set b"
  shows "dirs_loop True v (before_entry ss) base_name filename func d s = visit func (map (with_base base_name) ts) d s"
  using assms
proof (induction ts arbitrary: ss filename d s)
  case Nil
  then show ?case using argz_next_before [of v ss "[]"] by (subst dirs_loop.simps) simp
next
  case (Cons t ts)
  obtain b where b: "fst v = Some b" "cstr b (length (encode ss)) = Some t" using vec_cstr [OF Cons.prems(1)] by blast
  have "NUL \<notin> set t" using vec_chars [OF Cons.prems(1)] by simp
  then obtain f' where f': "file_name t base_name filename = Some (f', with_base base_name t)"
    using file_name_ok [of t base_name filename] Cons.prems(2,3) by auto
  have next_entry: "Some (length (encode ss)) = before_entry (ss @ [t])" by (simp add: before_entry_def)
  have IH: "dirs_loop True v (Some (length (encode ss))) base_name f' func d s = visit func (map (with_base base_name) ts) d s" for d s
    unfolding next_entry using Cons.IH [of "ss @ [t]" f' d s] Cons.prems by simp
  show ?case using argz_next_before [OF Cons.prems(1)] b f' IH by (subst dirs_loop.simps) (simp cong: if_cong)
qed


text \<open>
  C39: The list of the files of a directory is sorted by name and has no name twice. It has a name
  for each entry of the directory that does not begin with a dot, without its extension and version,
  and the names that the list had before.
\<close>

theorem list_files_by_dir_sorted:
  assumes "vec v ss" "ordered ss" "dirnam \<noteq> []" "last dirnam \<noteq> CHR ''/''" "NUL \<notin> set dirnam"
    "opendir dirnam = Some ns" "\<forall>n\<in>set ns. NUL \<notin> set n"
  shows "\<exists>v' ss'. list_files_by_dir opendir True dirnam v s = Some (0, v', s) \<and> vec v' ss' \<and> ordered ss' \<and> distinct ss' \<and>
    set ss' = listed dirnam ns \<union> set ss"
proof -
  obtain v' ss' where r: "entries_loop True dirnam ns v s = Some (0, v', s)" "vec v' ss'" "ordered ss'" "set ss' = listed dirnam ns \<union> set ss"
    using entries_loop_ok [OF assms(1,2,5,7)] by blast
  have "strcmp t t = 0" for t by (induction t) auto
  then have "distinct ss'" using r(3) by (induction ss') auto
  then show ?thesis using r assms(3,4,6) by (auto simp: list_files_by_dir_def)
qed

section \<open>Adding to the search path\<close>

lemma lt_dladdsearchdir_first:
  assumes "user_search_path s = None" "field_ok d" "d \<noteq> []"
  shows "lt_dladdsearchdir True (Some d) s = Some (0, s\<lparr>user_search_path := Some d\<rparr>)"
proof -
  have "canon False d = clean d" "clean d \<noteq> []" using canon_field [of d "[]" False] assms(2,3) by (auto simp: field_ok_def)
  then show ?thesis using assms canonicalize_path_ok [of d s]
    by (cases d) (auto simp: lt_dladdsearchdir_def lt_dlpath_insertdir_def set_user_path_def field_ok_def)
qed


section \<open>Concrete paths\<close>

text \<open>The state before the first call.\<close>

definition ltdl_start :: ltdl where
  "ltdl_start = \<lparr>last_error = None, user_error_strings = [], errorcount = LT_ERROR_MAX, user_search_path = None\<rparr>"


theorem list_files_by_dir_sorted_witness:
  "\<exists>v ss. list_files_by_dir (\<lambda>_. Some [''.'', ''b.so.1'', ''b.la'', ''a.c'']) True ''d'' (None, 0) ltdl_start = Some (0, v, ltdl_start) \<and>
     vec v ss \<and> distinct ss \<and> set ss = {''d/a'', ''d/b''}"
proof -
  have "listed ''d'' [''.'', ''b.so.1'', ''b.la'', ''a.c''] = {''d/a'', ''d/b''}"
    unfolding listed_def set_filter [symmetric] by (simp add: name_end_def numeral_eq_Suc insert_commute)
  then show ?thesis
    using list_files_by_dir_sorted [of "(None, 0)" "[]" "''d''" "\<lambda>_. Some [''.'', ''b.so.1'', ''b.la'', ''a.c'']" "[''.'', ''b.so.1'', ''b.la'', ''a.c'']" ltdl_start]
    by auto
qed


text \<open>
  For the root directory the code reads before the buffer, and a search directory that is the root
  fails an assertion. The search path of the user keeps a directory as it was given.
\<close>

lemma root_directory_undefined:
  "foreach_dirinpath (True, True, True) (Some ''/'') (Some ''f'') func d ltdl_start = None \<and>
   lt_dladdsearchdir True (Some ''/'') ltdl_start = None"
proof -
  have a: "argz_create_sep True [] LT_PATHSEP_CHAR = Some (0, Some (Some [NUL], 1))" by code_simp
  have n: "argz_next (Some [NUL], 1) None = Some (Some 0)" by code_simp
  have c: "canonicalize_path True ''/'' s = Some (0, Some [], s)" for s by (simp add: canonicalize_path_def realloc_bytes_def wr_def Let_def cstr_def)
  have "foreach_dirinpath (True, True, True) (Some ''/'') (Some ''f'') func d ltdl_start = None"
    using a n c by (simp add: foreach_dirinpath_def argzize_path_def dirs_loop.simps [of True _ None] file_name_def cstr_def put_def realloc_bytes_def)
  moreover have "lt_dladdsearchdir True (Some ''/'') ltdl_start = None"
    using c by (simp add: lt_dladdsearchdir_def lt_dlpath_insertdir_def set_user_path_def)
  ultimately show ?thesis ..
qed

lemma search_directory_not_canonical:
  "lt_dladdsearchdir True (Some ''a//b/'') ltdl_start = Some (0, ltdl_start\<lparr>user_search_path := Some ''a//b/''\<rparr>) \<and>
   canonicalize_path True ''a//b/'' ltdl_start = Some (0, Some ''a/b'', ltdl_start)"
  by code_simp

end
