(* ===== verification/Spec2Isabelle.thy ===== *)
theory Spec2Isabelle
  imports Hashtable Pool_Threads Backend_File Two_Phase Server Shutdown Slist Ltdl_Path
begin

text \<open>
  Verification of sfsql-proxy, a proxy server between MySQL clients and replicated backends, with
  cloning of virtual machines and two-phase commit.

  \<^bold>\<open>The program.\<close> A client connects to a thread of the proxy, which takes a connection to a backend
  from a pool, performs the handshake and reads commands (\<open>src/proxy_net.c\<close>). A query goes
  through a query mapper (\<open>map/proxy_map_rowa.c\<close>) and is then executed on the connection of the
  client or on all backends, by one thread for each, with two-phase commit
  (\<open>src/proxy_backend.c\<close>). A query that starts with \<open>PROXY\<close> is a command for the proxy itself
  (\<open>src/proxy_cmd.c\<close>). A coordinator can ask a cloneable proxy to clone its virtual machine
  (\<open>src/proxy_clone.c\<close>); transactions that run at this moment are decided by the coordinator after
  all clones have reported (\<open>src/proxy_trans.c\<close>). Below lie a lock pool (\<open>src/proxy_pool.c\<close>), a
  hash table (\<open>src/hashtable\<close>), the options (\<open>src/proxy_options.c\<close>) and functions for strings
  (\<open>src/sql_string.c\<close>).

  \<^bold>\<open>The theories.\<close> Each theory starts with the definitions, in the order and with the names of the
  code where possible, followed by lemmas, the properties, and concrete runs.
  \<^item> \<open>Prelude\<close>: integers of the C implementation, undefined behaviour, generic facts.
  \<^item> \<open>C_String\<close>: char buffers and the C library functions used on them (\<open>strtok_r\<close>, \<open>strtol\<close>, ...).
  \<^item> \<open>Table_Spec\<close>, \<open>Hashtable\<close>: the contract of a table as a locale, and the chained hash table with
    its hash function, its growth and the failures of allocations as its interpretation. It
    refines finite maps.
  \<^item> \<open>Pool_Spec\<close>, \<open>Pool\<close>, \<open>Pool_Threads\<close>: the contract of a lock pool as a locale, the operations
    on the array of flags as its interpretation, and threads that share a pool as a step relation:
    mutual exclusion, and a wake-up that can get lost.
  \<^item> \<open>Query_Map\<close>: the query mapper against a description of its keywords.
  \<^item> \<open>Backend_File\<close>: the file that lists the backends, byte by byte, with a round trip.
  \<^item> \<open>Charset\<close>: the conversion of strings, within its buffers for all character sets.
  \<^item> \<open>Options\<close>: the options and their parser, with \<open>getopt_long\<close>: it returns for every command
    line, accepted options fit together, and printed options are read back.
  \<^item> \<open>Commit\<close>, \<open>Two_Phase\<close>: the result mask and the identifiers of transactions; the threads of one
    replicated query, the client and a clone request as a step relation, with agreement,
    termination, and the interleavings in which a clone request breaks them.
  \<^item> \<open>Clone\<close>, \<open>Trans\<close>: the state of cloning, and the decision of transactions by the coordinator.
  \<^item> \<open>Library\<close>, \<open>Script\<close>: the MySQL library, its network layer and the system calls as a record of
    functions over an abstract world, and one executable instance for concrete runs.
  \<^item> \<open>Net\<close>, \<open>Forward\<close>: packets written by the proxy, and forwarding of result sets.
  \<^item> \<open>Backend\<close>: arrays of backends, connections, pools and threads: connecting at the start, handing
    out connections, adding backends, messages to clones.
  \<^item> \<open>Query\<close>: the way of a query, on one connection and during cloning.
  \<^item> \<open>Cmd\<close>: the \<open>PROXY\<close> commands.
  \<^item> \<open>Server\<close>: connections of clients, handshake, commands, and the work of a client thread.
  \<^item> \<open>Client_Threads\<close>, \<open>Shutdown\<close>: the main loop (\<open>server_run\<close>), the client threads
    (\<open>proxy_net_new_thread\<close>), the admin and monitor threads, signals, and the end of the threads
    (\<open>src/proxy_threading.c\<close>) as steps of one system. A client is with one thread only and is not
    lost, no wake-up of a client thread is lost, and the shutdown terminates, except when the server
    stops before the admin thread has seen it run.
  \<^item> \<open>Slist\<close>, \<open>Argz\<close>, \<open>Ltdl_Path\<close>: parts of \<open>libltdl\<close>, with which the mapper is found: linked lists
    on an explicit heap, which refine lists; vectors of strings on their bytes, with a round trip;
    errors, canonical paths, the iteration over directories, lists of files, and the search path.

  \<^bold>\<open>State and effects.\<close> The global variables of each file are a record, passed through its
  functions; the records are the fields of the record \<open>proxy\<close> in theory \<open>Query\<close>. Pointers to
  transactions are addresses in a store, since several threads share them. The result \<open>None\<close> of a
  function is undefined behaviour (a read or write outside an array, a null pointer, a signed
  overflow) or a wait that does not end. The outcomes of allocations, random numbers, system calls,
  and the answers of SnowFlock, the virtual machine monitor, are arguments. What other threads do
  during a wait is an argument in the sequential theories; interleavings are in \<open>Pool_Threads\<close>,
  \<open>Two_Phase\<close> and \<open>Client_Threads\<close>. In the steps of \<open>Client_Threads\<close> the result \<open>None\<close> means that the
  thread is blocked.

  \<^bold>\<open>Hypotheses on the environment.\<close> \<open>codec_ok\<close> (lengths and integers are read as they were written),
  \<open>net_ok\<close> (packets arrive in order and writing succeeds), \<open>connects\<close> (all servers answer),
  \<open>auth_ok\<close> (character sets exist and the buffer of a
  packet is long enough), \<open>calls_ok\<close> (system calls do not touch packets, and data have arrived),
  \<open>ctype_ok\<close> and \<open>charset_ok\<close> (decoding and encoding of characters stay within the given bytes).
  For each of them a concrete instance is given.

  \<^bold>\<open>Bounds and termination.\<close> Integers have the widths of the LP64 model. Loops over data are
  recursive functions with a termination proof; loops that wait are \<open>partial_function\<close>s or take a
  list of wake-ups, and that they return is stated where it holds. There is no fuel, except the
  five attempts of the code to connect again.

  \<^bold>\<open>Not modelled.\<close> Logging and debug output (\<open>src/proxy_logging.c\<close>), the statistics file and the
  connection of the monitor to the master (\<open>src/proxy_monitor.c\<close>), thread names, signal masks and the
  wrappers of the thread library (\<open>src/proxy_threading.h\<close>), the sequence of the start-up in \<open>main\<close>
  with the file of the process identifier (\<open>src/proxy.c\<close>), and the functions at the end of the
  program that only free memory: these are input, output and system calls with no result that the
  other components depend on. Of \<open>backend_query\<close> theory \<open>Query\<close> has the call without commit data,
  and theory \<open>Two_Phase\<close> the synchronisation of the threads with it. \<open>src/violite.h\<close> only declares
  functions of the MySQL library. Of \<open>libltdl\<close> the loading of modules and the loaders of the
  platforms are left out, since they are built on dynamic linkers that are not part of the sources.
\<close>

end
